(* ===== verification/Prelude.thy ===== *)
theory Prelude
  imports Main "HOL-Library.Word"
begin

text \<open>
  The types and the generic facts that the components share: the machine integers of the
  two 64-bit targets, the checked arithmetic of the Rust core library as the crate uses it,
  and the collections of facts that the component proofs pass to the simplifier.
\<close>

type_synonym u8 = "8 word"
type_synonym u32 = "32 word"
type_synonym u64 = "64 word"

text \<open>\<open>usize\<close> and \<open>isize\<close> are 64 bits wide on both targets the crate implements.\<close>

type_synonym usize = "64 word"
type_synonym isize = "64 word"

text \<open>The error numbers of system calls that the crate tells apart, and the others.\<close>

datatype errno = EPERM | EINVAL | EBUSY | Other_errno nat

text \<open>\<open>NonNull::new\<close>.\<close>

definition nonnull :: "u64 \<Rightarrow> u64 option" where
  "nonnull p = (if p = 0 then None else Some p)"

lemma nonnull_Some [simp]: "nonnull p = Some q \<longleftrightarrow> q = p \<and> p \<noteq> 0"
  by (auto simp: nonnull_def)

named_theorems mem_simps "reading byte memory after a write"
named_theorems asm_simps "symbolic execution of the assembly blocks"

section \<open>Checked arithmetic\<close>

text \<open>\<open>checked_add\<close>, \<open>checked_mul\<close> and \<open>div_ceil\<close> of the unsigned integers.\<close>

definition checked_add :: "'a::len word \<Rightarrow> 'a word \<Rightarrow> 'a word option" where
  "checked_add x y = (if unat x + unat y < 2 ^ LENGTH('a) then Some (x + y) else None)"

definition checked_mul :: "'a::len word \<Rightarrow> 'a word \<Rightarrow> 'a word option" where
  "checked_mul x y = (if unat x * unat y < 2 ^ LENGTH('a) then Some (x * y) else None)"

definition div_ceil :: "'a::len word \<Rightarrow> 'a word \<Rightarrow> 'a word" where
  "div_ceil x y = (if x mod y = 0 then x div y else x div y + 1)"

lemma checked_add_Some:
  "checked_add x y = Some z \<longleftrightarrow> unat x + unat y < 2 ^ LENGTH('a) \<and> z = x + y"
  for x y z :: "'a::len word"
  by (auto simp: checked_add_def)

lemma unat_checked_add: "checked_add x y = Some z \<Longrightarrow> unat z = unat x + unat y"
  for x y z :: "'a::len word"
  by (auto simp: checked_add_Some unat_word_ariths)

lemma unat_checked_mul: "checked_mul x y = Some z \<Longrightarrow> unat z = unat x * unat y"
  for x y z :: "'a::len word"
  by (auto simp: checked_mul_def unat_word_ariths split: if_splits)

section \<open>Words\<close>

lemma of_nat_inj64: "i < 2 ^ 64 \<Longrightarrow> j < 2 ^ 64 \<Longrightarrow> (of_nat i :: u64) = of_nat j \<longleftrightarrow> i = j"
  by (simp add: word_of_nat_eq_iff take_bit_nat_eq_self)

lemma of_nat_neq_0: "0 < n \<Longrightarrow> n < 2 ^ 64 \<Longrightarrow> (of_nat n :: u64) \<noteq> 0"
  using of_nat_inj64 [of n 0] by simp

lemma add_of_nat_inj64:
  "i < 2 ^ 64 \<Longrightarrow> j < 2 ^ 64 \<Longrightarrow> a + of_nat i = a + of_nat j \<longleftrightarrow> i = j" for a :: u64
  by (simp add: of_nat_inj64)

lemma unat_u32_bound: "unat (x :: u32) < 2 ^ 32"
  using unsigned_less [of x, where ?'a = nat] by simp

lemma unat_ucast_u32: "unat (ucast (x :: u32) :: u64) = unat x"
  using unat_u32_bound [of x] by (simp add: unsigned_ucast_eq take_bit_nat_eq_self)

text \<open>A page address plus the offset in the page is the address (\<open>adrp\<close>, \<open>:lo12:\<close>).\<close>

lemma page_split: "and a (not 4095) + and a 4095 = a" for a :: u64
proof -
  have "and a (not 4095) + and a 4095 = or (and a (not 4095)) (and a 4095)"
    by (rule disjunctive_add) (simp add: bit_simps)
  also have "\<dots> = a"
    by (rule bit_word_eqI) (auto simp: bit_simps)
  finally show ?thesis .
qed

lemma page_split_minus: "and a (- 4096) + and a 4095 = a" for a :: u64
  using page_split [of a] by simp

end
