(* ===== verification/Cpus.thy ===== *)
theory Cpus
  imports Prelude
begin

text \<open>
  \<open>src/cpus.rs\<close>: the count of possible CPUs from sysfs, with the parts of the Rust standard
  library it parses with (UTF-8 decoding, \<open>trim\<close>, \<open>split\<close>, \<open>split_once\<close>, \<open>u32::parse\<close>)
  written out. The file is an argument: the bytes that one \<open>read\<close> into a buffer of a size
  returns, or \<open>None\<close> when opening or reading fails. Text is a list of code points.
\<close>

section \<open>Text\<close>

definition cont :: "nat \<Rightarrow> bool" where
  "cont b \<longleftrightarrow> 0x80 \<le> b \<and> b \<le> 0xBF"

text \<open>The well-formed byte sequences of UTF-8: no overlong forms, surrogates or large numbers.\<close>

fun utf8_decode :: "nat list \<Rightarrow> nat list option" where
  "utf8_decode [] = Some []"
| "utf8_decode (a # s) =
     (if a < 0x80 then map_option (Cons a) (utf8_decode s)
      else if 0xC2 \<le> a \<and> a \<le> 0xDF then
        (case s of b # r \<Rightarrow>
           if cont b then map_option (Cons ((a - 0xC0) * 64 + (b - 0x80))) (utf8_decode r) else None
         | [] \<Rightarrow> None)
      else if 0xE0 \<le> a \<and> a \<le> 0xEF then
        (case s of b # c # r \<Rightarrow>
           if cont b \<and> cont c \<and> (a = 0xE0 \<longrightarrow> 0xA0 \<le> b) \<and> (a = 0xED \<longrightarrow> b \<le> 0x9F)
           then map_option (Cons ((a - 0xE0) * 4096 + (b - 0x80) * 64 + (c - 0x80))) (utf8_decode r)
           else None
         | _ \<Rightarrow> None)
      else if 0xF0 \<le> a \<and> a \<le> 0xF4 then
        (case s of b # c # d # r \<Rightarrow>
           if cont b \<and> cont c \<and> cont d \<and> (a = 0xF0 \<longrightarrow> 0x90 \<le> b) \<and> (a = 0xF4 \<longrightarrow> b \<le> 0x8F)
           then map_option (Cons ((a - 0xF0) * 262144 + (b - 0x80) * 4096 + (c - 0x80) * 64 +
             (d - 0x80))) (utf8_decode r)
           else None
         | _ \<Rightarrow> None)
      else None)"

text \<open>The code points with the property White_Space.\<close>

definition white :: "nat \<Rightarrow> bool" where
  "white c \<longleftrightarrow> 9 \<le> c \<and> c \<le> 13 \<or> c = 0x20 \<or> c = 0x85 \<or> c = 0xA0 \<or> c = 0x1680 \<or>
     0x2000 \<le> c \<and> c \<le> 0x200A \<or> c = 0x2028 \<or> c = 0x2029 \<or> c = 0x202F \<or> c = 0x205F \<or> c = 0x3000"

definition trim :: "nat list \<Rightarrow> nat list" where
  "trim s = rev (dropWhile white (rev (dropWhile white s)))"

text \<open>\<open>split\<close> on a character, and \<open>split_once\<close> at its first occurrence.\<close>

fun split_on :: "nat \<Rightarrow> nat list \<Rightarrow> nat list list" where
  "split_on c [] = [[]]"
| "split_on c (x # s) =
     (if x = c then [] # split_on c s
      else case split_on c s of p # ps \<Rightarrow> (x # p) # ps | [] \<Rightarrow> [[x]])"

fun split_once :: "nat \<Rightarrow> nat list \<Rightarrow> (nat list \<times> nat list) option" where
  "split_once c [] = None"
| "split_once c (x # s) =
     (if x = c then Some ([], s)
      else map_option (\<lambda>(a, b). (x # a, b)) (split_once c s))"

text \<open>
  \<open>str::parse::<u32>\<close>: an optional plus sign, at least one digit, only digits, no overflow.
\<close>

fun parse_digits :: "u32 \<Rightarrow> nat list \<Rightarrow> u32 option" where
  "parse_digits acc [] = Some acc"
| "parse_digits acc (c # s) =
     (if 48 \<le> c \<and> c \<le> 57
      then case checked_mul acc 10 of None \<Rightarrow> None
        | Some a \<Rightarrow> (case checked_add a (of_nat (c - 48)) of None \<Rightarrow> None
            | Some b \<Rightarrow> parse_digits b s)
      else None)"

definition parse_u32 :: "nat list \<Rightarrow> u32 option" where
  "parse_u32 s = (case s of [] \<Rightarrow> None
     | c # r \<Rightarrow> if c = 43 then (if r = [] then None else parse_digits 0 r) else parse_digits 0 s)"

section \<open>\<open>Cpus::possible\<close>\<close>

text \<open>The last id of one part of the list: of a range, or the id itself.\<close>

definition part_hi :: "nat list \<Rightarrow> u32 option" where
  "part_hi part = (case split_once 45 part of
     Some (lo, hi) \<Rightarrow> (case parse_u32 lo of None \<Rightarrow> None | Some _ \<Rightarrow> parse_u32 hi)
   | None \<Rightarrow> parse_u32 part)"

fun max_hi :: "u32 \<Rightarrow> nat list list \<Rightarrow> u32 option" where
  "max_hi mx [] = Some mx"
| "max_hi mx (part # ps) =
     (case part_hi part of None \<Rightarrow> None | Some hi \<Rightarrow> max_hi (max mx hi) ps)"

definition BUF :: nat where "BUF = 256"

definition Cpus_possible :: "(nat \<Rightarrow> u8 list option) \<Rightarrow> u32 option" where
  "Cpus_possible rd =
     (case rd BUF of None \<Rightarrow> None
      | Some bytes \<Rightarrow>
         (if BUF < length bytes then None
          else case utf8_decode (map unat bytes) of None \<Rightarrow> None
            | Some s \<Rightarrow> let raw = trim s in
                if raw = [] then None
                else case max_hi 0 (split_on 44 raw) of None \<Rightarrow> None
                  | Some mx \<Rightarrow> checked_add mx 1))"

section \<open>The list the kernel prints\<close>

text \<open>Decimal digits, one id or a range, and the parts separated by commas.\<close>

fun dec :: "nat \<Rightarrow> nat list" where
  "dec n = (if n < 10 then [48 + n] else dec (n div 10) @ [48 + n mod 10])"

declare dec.simps [simp del]

datatype part = One u32 | Range u32 u32

fun part_text :: "part \<Rightarrow> nat list" where
  "part_text (One i) = dec (unat i)"
| "part_text (Range i j) = dec (unat i) @ [45] @ dec (unat j)"

fun part_last :: "part \<Rightarrow> u32" where
  "part_last (One i) = i"
| "part_last (Range i j) = j"

fun list_text :: "part list \<Rightarrow> nat list" where
  "list_text [] = []"
| "list_text [p] = part_text p"
| "list_text (p # ps) = part_text p @ [44] @ list_text ps"

lemma dec_digits: "\<forall>c \<in> set (dec n). 48 \<le> c \<and> c \<le> 57"
proof (induction n rule: dec.induct)
  case (1 n)
  then show ?case by (subst dec.simps) auto
qed

lemma dec_not_Nil [simp]: "dec n \<noteq> []"
  by (subst dec.simps) simp

lemma parse_digits_append:
  "parse_digits a (s @ r) = (case parse_digits a s of None \<Rightarrow> None | Some b \<Rightarrow> parse_digits b r)"
  by (induction a s rule: parse_digits.induct) (auto split: option.splits)

lemma parse_digit:
  assumes "n < 2 ^ 32" "10 \<le> n"
  shows "parse_digits (of_nat (n div 10)) [48 + n mod 10] = Some (of_nat n)"
proof -
  have d: "unat (of_nat (n div 10) :: u32) = n div 10"
    using assms(1) by (simp add: unsigned_of_nat take_bit_nat_eq_self)
  have m: "unat (of_nat (n mod 10) :: u32) = n mod 10"
    by (simp add: unsigned_of_nat take_bit_nat_eq_self)
  have s: "n div 10 * 10 + n mod 10 = n" by simp
  then have lt: "n div 10 * 10 < 2 ^ 32" using assms(1) by linarith
  have a: "unat (of_nat (n div 10) * 10 :: u32) = n div 10 * 10"
    using lt by (subst unat_word_ariths) (simp add: d)
  have "of_nat (n div 10) * 10 + of_nat (n mod 10) = (of_nat n :: u32)"
    by (metis s of_nat_add of_nat_mult of_nat_numeral)
  then show ?thesis using assms(1) lt by (simp add: checked_mul_def checked_add_def d m a)
qed

lemma parse_dec: "n < 2 ^ 32 \<Longrightarrow> parse_digits 0 (dec n) = Some (of_nat n)"
proof (induction n rule: dec.induct)
  case (1 n)
  show ?case
  proof (cases "n < 10")
    case True
    then show ?thesis
      by (subst dec.simps)
         (simp add: checked_mul_def checked_add_def unsigned_of_nat take_bit_nat_eq_self)
  next
    case False
    then have "dec n = dec (n div 10) @ [48 + n mod 10]" by (subst dec.simps) simp
    moreover have "parse_digits 0 (dec (n div 10)) = Some (of_nat (n div 10))" using 1 False by simp
    ultimately show ?thesis using False 1(2) parse_digit [of n]
      by (simp only: parse_digits_append option.case)
  qed
qed

lemma parse_u32_dec [simp]: "parse_u32 (dec (unat i)) = Some i"
proof -
  obtain c r where s: "dec (unat i) = c # r" by (cases "dec (unat i)") auto
  then have "c \<noteq> 43" using dec_digits [of "unat i"] by auto
  then show ?thesis using parse_dec [OF unat_u32_bound, of i] s by (simp add: parse_u32_def)
qed

lemma split_once_none: "c \<notin> set s \<Longrightarrow> split_once c s = None"
  by (induction s) auto

lemma split_once_append: "c \<notin> set a \<Longrightarrow> split_once c (a @ c # b) = Some (a, b)"
  by (induction a) auto

lemma split_on_none: "c \<notin> set s \<Longrightarrow> split_on c s = [s]"
  by (induction s) auto

lemma split_on_append: "c \<notin> set a \<Longrightarrow> split_on c (a @ c # b) = a # split_on c b"
  by (induction a) auto

lemma dec_not_in: "c < 48 \<Longrightarrow> c \<notin> set (dec n)"
  using dec_digits [of n] by auto

lemma part_hi_text [simp]: "part_hi (part_text p) = Some (part_last p)"
  by (cases p) (simp_all add: part_hi_def split_once_none split_once_append dec_not_in)

lemma part_text_ends: "part_text p \<noteq> [] \<and> \<not> white (hd (part_text p)) \<and> \<not> white (last (part_text p))"
proof -
  have d: "\<not> white (hd (dec n))" "\<not> white (last (dec n))" for n
    using dec_digits [of n] hd_in_set [OF dec_not_Nil [of n]] last_in_set [OF dec_not_Nil [of n]]
    by (fastforce simp: white_def)+
  show ?thesis by (cases p) (simp_all add: d)
qed

lemma part_text_chars: "c \<in> set (part_text p) \<Longrightarrow> c = 45 \<or> 48 \<le> c \<and> c \<le> 57"
  using dec_digits by (cases p) auto

lemma split_list_text: "ps \<noteq> [] \<Longrightarrow> split_on 44 (list_text ps) = map part_text ps"
proof (induction ps rule: list_text.induct)
  case 1
  then show ?case by simp
next
  case (2 p)
  then show ?case using part_text_chars [of 44 p] by (auto intro: split_on_none)
next
  case (3 p q ps)
  have "44 \<notin> set (part_text p)" using part_text_chars [of 44 p] by auto
  then show ?case using 3 by (simp add: split_on_append)
qed

lemma list_text_ends:
  "ps \<noteq> [] \<Longrightarrow> list_text ps \<noteq> [] \<and> \<not> white (hd (list_text ps)) \<and> \<not> white (last (list_text ps))"
proof (induction ps rule: list_text.induct)
  case (3 p q ps)
  then show ?case using part_text_ends [of p] by simp
qed (use part_text_ends in auto)

lemma list_text_chars: "c \<in> set (list_text ps) \<Longrightarrow> 44 \<le> c \<and> c \<le> 57"
  by (induction ps rule: list_text.induct) (auto dest: part_text_chars)

lemma dropWhile_pad: "\<forall>c \<in> set a. P c \<Longrightarrow> s \<noteq> [] \<Longrightarrow> \<not> P (hd s) \<Longrightarrow> dropWhile P (a @ s) = s"
  by (induction a) (cases s; simp)+

lemma trim_pad:
  assumes "s \<noteq> []" "\<not> white (hd s)" "\<not> white (last s)" "\<forall>c \<in> set a. white c" "\<forall>c \<in> set b. white c"
  shows "trim (a @ s @ b) = s"
proof -
  have "dropWhile white (a @ s @ b) = s @ b" using assms by (intro dropWhile_pad) auto
  moreover have "dropWhile white (rev b @ rev s) = rev s"
    using assms by (intro dropWhile_pad) (auto simp: hd_rev)
  ultimately show ?thesis by (simp add: trim_def)
qed

lemma max_hi_text: "max_hi mx (map part_text ps) = Some (fold max (map part_last ps) mx)"
  by (induction ps arbitrary: mx) (auto simp: max.commute)

lemma utf8_ascii: "\<forall>c \<in> set s. c < 0x80 \<Longrightarrow> utf8_decode s = Some s"
  by (induction s) auto

text \<open>The text of a list, ASCII, as the bytes of the file.\<close>

definition bytes_of :: "nat list \<Rightarrow> u8 list" where
  "bytes_of = map of_nat"

lemma map_unat_bytes: "\<forall>c \<in> set s. c < 0x80 \<Longrightarrow> map unat (bytes_of s) = s"
  by (induction s) (auto simp: bytes_of_def unsigned_of_nat take_bit_nat_eq_self)

lemma possible_of_text:
  assumes "ps \<noteq> []" "\<forall>c \<in> set b. c \<in> {9, 10, 13, 32}"
    and "rd BUF = Some (bytes_of (list_text ps @ b))" "length (list_text ps @ b) \<le> BUF"
  shows "Cpus_possible rd = checked_add (fold max (map part_last ps) 0) 1"
proof -
  let ?s = "list_text ps @ b"
  have ascii: "\<forall>c \<in> set ?s. c < 0x80" using assms(2) list_text_chars [of _ ps] by fastforce
  have t: "trim ?s = list_text ps"
    using trim_pad [of "list_text ps" "[]" b] list_text_ends [OF assms(1)] assms(2)
    by (fastforce simp: white_def)
  have l: "length (bytes_of ?s) = length ?s" by (simp add: bytes_of_def)
  show ?thesis using assms(3,4) list_text_ends [OF assms(1)]
    by (simp add: Cpus_possible_def l map_unat_bytes [OF ascii] utf8_ascii [OF ascii] t
        split_list_text [OF assms(1)] max_hi_text del: map_append)
qed

text \<open>Whatever the file holds, a count that is returned is not zero.\<close>

lemma possible_nonzero:
  assumes "Cpus_possible rd = Some n"
  shows "0 < n"
proof -
  obtain mx where "checked_add mx 1 = Some n"
    using assms by (auto simp: Cpus_possible_def Let_def split: option.splits if_splits)
  then have "unat n = unat mx + 1" using unat_checked_add by fastforce
  then have "n \<noteq> 0" by (auto simp: word_unat_eq_iff)
  then show ?thesis by (simp add: word_gt_0)
qed

section \<open>Properties\<close>

text \<open>The file of a list that fits the buffer.\<close>

lemma possible_of_list:
  assumes "ps \<noteq> []" "length (list_text ps) < BUF"
    and "rd BUF = Some (take BUF (bytes_of (list_text ps @ [10])))"
  shows "Cpus_possible rd = checked_add (Max (part_last ` set ps)) 1"
proof -
  have "length (bytes_of (list_text ps @ [10])) \<le> BUF" using assms(2) by (simp add: bytes_of_def)
  then have "rd BUF = Some (bytes_of (list_text ps @ [10]))" using assms(3) by simp
  then have "Cpus_possible rd = checked_add (fold max (map part_last ps) 0) 1"
    using assms(1,2) by (intro possible_of_text [where b = "[10]"]) auto
  moreover have "fold max (map part_last ps) 0 = Max (part_last ` set ps)"
  proof -
    have "Max (part_last ` set ps) = fold max (map part_last (tl ps)) (part_last (hd ps))"
      using assms(1) Max.set_eq_fold [of "part_last (hd ps)" "map part_last (tl ps)"]
      by (cases ps) auto
    then show ?thesis using assms(1) by (cases ps) (simp_all add: max_def)
  qed
  ultimately show ?thesis by simp
qed

text \<open>The CPUs that a part of the list names are below the count.\<close>

fun in_part :: "u32 \<Rightarrow> part \<Rightarrow> bool" where
  "in_part c (One i) \<longleftrightarrow> c = i"
| "in_part c (Range i j) \<longleftrightarrow> i \<le> c \<and> c \<le> j"

lemma listed_below:
  assumes "q \<in> set ps" "in_part c q" "checked_add (Max (part_last ` set ps)) 1 = Some n"
  shows "c < n"
proof -
  have "c \<le> part_last q" using assms(2) by (cases q) auto
  also have "part_last q \<le> Max (part_last ` set ps)" using assms(1) by simp
  finally have "unat c \<le> unat (Max (part_last ` set ps))" by (simp add: word_le_nat_alt)
  moreover have "unat n = unat (Max (part_last ` set ps)) + 1"
    using unat_checked_add [of "Max (part_last ` set ps)" 1 n] assms(3) by simp
  ultimately show ?thesis by (simp add: word_less_nat_alt)
qed

text \<open>
  C27: the count survives printing and parsing: from the file the kernel writes for a list of
  ids and ranges, followed by a newline, \<open>possible\<close> gets the largest last id plus one, and
  \<open>None\<close> when that overflows, provided the text fits the buffer of 256 bytes.
\<close>

theorem possible_roundtrip:
  assumes "ps \<noteq> []" "length (list_text ps) < BUF"
    and "rd BUF = Some (take BUF (bytes_of (list_text ps @ [10])))"
  shows "Cpus_possible rd = checked_add (Max (part_last ` set ps)) 1"
  using assms by (rule possible_of_list)

theorem possible_roundtrip_witness:
  "Cpus_possible (\<lambda>n. Some (take n (bytes_of (list_text [Range 0 95] @ [10])))) = Some 96"
proof -
  have "length (list_text [Range 0 95]) < BUF" by (simp add: dec.simps BUF_def)
  from possible_roundtrip [OF _ this, of "\<lambda>n. Some (take n (bytes_of (list_text [Range 0 95] @ [10])))"]
  show ?thesis by (simp add: checked_add_def)
qed

lemma list_text_snoc:
  "list_text (ps @ [q]) = concat (map (\<lambda>p. part_text p @ [44]) ps) @ part_text q"
proof (induction ps)
  case Nil
  then show ?case by simp
next
  case (Cons p ps)
  then show ?case by (cases "ps @ [q]") auto
qed

lemma max_funpow: "(max x ^^ n) y = (if n = 0 then y else max x (y :: u32))"
  by (induction n) simp_all

definition long_list :: "part list" where
  "long_list = replicate 51 (One 1000) @ [One 2000]"

text \<open>
  C34: a list longer than the buffer is cut, and the cut can fall inside a number: the count
  of this list of 52 ids, the largest 2000, comes out as 1001.
\<close>

theorem possible_truncates:
  "Cpus_possible (\<lambda>n. Some (take n (bytes_of (list_text long_list @ [10])))) = Some 1001 \<and>
   Max (part_last ` set long_list) = 2000"
proof -
  let ?k = "concat (map (\<lambda>p. part_text p @ [44]) (replicate 51 (One 1000)))"
  let ?ps = "replicate 51 (One 1000) @ [One 2]"
  have d: "dec 1000 = [49, 48, 48, 48]" "dec 2000 = [50, 48, 48, 48]" "dec 2 = [50]"
    by (simp_all add: dec.simps)
  have l: "length ?k = 255" by (simp add: length_concat d sum_list_replicate)
  have long: "list_text long_list = ?k @ [50, 48, 48, 48]"
    unfolding long_list_def list_text_snoc by (simp add: d)
  have short: "list_text ?ps = ?k @ [50]" unfolding list_text_snoc by (simp add: d)
  have "take BUF (list_text long_list @ [10]) = list_text ?ps @ []"
    unfolding long short using l by (simp add: BUF_def del: concat_replicate_trivial)
  then have "take BUF (bytes_of (list_text long_list @ [10])) = bytes_of (list_text ?ps @ [])"
    by (simp only: bytes_of_def take_map)
  then have "Cpus_possible (\<lambda>n. Some (take n (bytes_of (list_text long_list @ [10])))) =
      checked_add (fold max (map part_last ?ps) 0) 1"
    by (intro possible_of_text [where b = "[]"]) (auto simp: short length_concat d sum_list_replicate BUF_def)
  moreover have "fold max (map part_last ?ps) 0 = 1000"
    by (simp add: max_funpow max_def)
  ultimately show ?thesis by (simp add: checked_add_def long_list_def)
qed

end
