(* ===== verification/Attempt.thy ===== *)
theory Attempt
  imports Prelude
begin

text \<open>
  \<open>src/attempt.rs\<close>: the outcome of one critical section, and its decoding from the status
  register of the assembly block. Also the \<open>Error\<close> of \<open>src/thread.rs\<close> and the two ways the
  word operations turn an outcome into a \<open>Result\<close>.
\<close>

datatype attempt = AOk usize | AMiss usize | AAbort

definition from_status :: "u64 \<Rightarrow> usize \<Rightarrow> attempt" where
  "from_status status v = (if status = 0 then AOk v else if status = 1 then AMiss v else AAbort)"

datatype error = Miss usize | Abort

lemma from_status_simps [simp]:
  "from_status 0 v = AOk v" "from_status 1 v = AMiss v" "from_status 2 v = AAbort"
  by (simp_all add: from_status_def)

lemma from_status_total: "from_status s v \<in> {AOk v, AMiss v, AAbort}"
  by (simp add: from_status_def)

end
