(* ===== verification/Memory.thy ===== *)
theory Memory
  imports Prelude
begin

text \<open>
  Byte-addressed little-endian memory, as both targets have it: 32- and 64-bit loads and
  stores, separation of address ranges, and what a load returns after a store.
\<close>

type_synonym mem = "u64 \<Rightarrow> u8"

fun read_le :: "nat \<Rightarrow> mem \<Rightarrow> u64 \<Rightarrow> nat" where
  "read_le 0 m a = 0"
| "read_le (Suc n) m a = unat (m a) + 256 * read_le n m (a + 1)"

fun write_le :: "nat \<Rightarrow> nat \<Rightarrow> u64 \<Rightarrow> mem \<Rightarrow> mem" where
  "write_le 0 v a m = m"
| "write_le (Suc n) v a m = write_le n (v div 256) (a + 1) (m(a := of_nat v))"

definition load32 :: "mem \<Rightarrow> u64 \<Rightarrow> u32" where
  "load32 m a = of_nat (read_le 4 m a)"

definition load64 :: "mem \<Rightarrow> u64 \<Rightarrow> u64" where
  "load64 m a = of_nat (read_le 8 m a)"

definition store32 :: "mem \<Rightarrow> u64 \<Rightarrow> u32 \<Rightarrow> mem" where
  "store32 m a v = write_le 4 (unat v) a m"

definition store64 :: "mem \<Rightarrow> u64 \<Rightarrow> u64 \<Rightarrow> mem" where
  "store64 m a v = write_le 8 (unat v) a m"

text \<open>No byte of the first range is a byte of the second.\<close>

definition separate :: "u64 \<Rightarrow> nat \<Rightarrow> u64 \<Rightarrow> nat \<Rightarrow> bool" where
  "separate a n b k \<longleftrightarrow> (\<forall>i<n. \<forall>j<k. a + of_nat i \<noteq> b + of_nat j)"

definition aligned :: "nat \<Rightarrow> u64 \<Rightarrow> bool" where
  "aligned n a \<longleftrightarrow> unat a mod n = 0"

section \<open>Reading after writing\<close>

lemma write_le_other: "(\<forall>i<n. x \<noteq> a + of_nat i) \<Longrightarrow> write_le n v a m x = m x"
proof (induction n arbitrary: v a m)
  case 0
  then show ?case by simp
next
  case (Suc n)
  have "x \<noteq> a" using Suc.prems [rule_format, of 0] by simp
  moreover have "\<forall>i<n. x \<noteq> a + 1 + of_nat i"
  proof (intro allI impI)
    fix i assume "i < n"
    with Suc.prems have "x \<noteq> a + of_nat (Suc i)" by blast
    then show "x \<noteq> a + 1 + of_nat i" by (simp add: add.assoc)
  qed
  ultimately show ?case by (simp add: Suc.IH)
qed

lemma read_le_cong:
  "(\<And>j. j < k \<Longrightarrow> m (b + of_nat j) = m' (b + of_nat j)) \<Longrightarrow> read_le k m b = read_le k m' b"
proof (induction k arbitrary: b)
  case 0
  then show ?case by simp
next
  case (Suc k)
  have "m b = m' b" using Suc.prems [of 0] by simp
  moreover have "read_le k m (b + 1) = read_le k m' (b + 1)"
  proof (rule Suc.IH)
    fix j assume "j < k"
    then show "m (b + 1 + of_nat j) = m' (b + 1 + of_nat j)"
      using Suc.prems [of "Suc j"] by (simp add: add.assoc)
  qed
  ultimately show ?case by simp
qed

lemma read_write_le_sep:
  "separate a n b k \<Longrightarrow> read_le k (write_le n v a m) b = read_le k m b"
  unfolding separate_def by (rule read_le_cong, rule write_le_other) metis

lemma read_write_le_same: "n < 2 ^ 64 \<Longrightarrow> read_le n (write_le n v a m) a = v mod 256 ^ n"
proof (induction n arbitrary: v a m)
  case 0
  then show ?case by simp
next
  case (Suc n)
  have "\<forall>i<n. a \<noteq> a + 1 + of_nat i"
  proof (intro allI impI)
    fix i assume "i < n"
    then have "(of_nat (Suc i) :: u64) \<noteq> 0" using Suc.prems by (intro of_nat_neq_0) auto
    then show "a \<noteq> a + 1 + of_nat i" by (simp add: add.assoc)
  qed
  then have "write_le n (v div 256) (a + 1) (m(a := of_nat v)) a = of_nat v"
    by (simp add: write_le_other)
  then show ?case using Suc
    by (simp add: unsigned_of_nat take_bit_eq_mod mod_mult2_eq [of v 256 "256 ^ n"])
qed

lemma load64_store64_same [mem_simps]: "load64 (store64 m a v) a = v"
proof -
  have "unat v mod 256 ^ 8 = unat v"
    using unsigned_less [of v, where ?'a = nat] by simp
  then show ?thesis by (simp add: load64_def store64_def read_write_le_same)
qed

lemma load32_store32_same [mem_simps]: "load32 (store32 m a v) a = v"
proof -
  have "unat v mod 256 ^ 4 = unat v"
    using unsigned_less [of v, where ?'a = nat] by simp
  then show ?thesis by (simp add: load32_def store32_def read_write_le_same)
qed

lemma load64_store64_sep [mem_simps]:
  "separate a 8 b 8 \<Longrightarrow> load64 (store64 m a v) b = load64 m b"
  by (simp add: load64_def store64_def read_write_le_sep)

lemma load32_store64_sep [mem_simps]:
  "separate a 8 b 4 \<Longrightarrow> load32 (store64 m a v) b = load32 m b"
  by (simp add: load32_def store64_def read_write_le_sep)

lemma load64_store32_sep [mem_simps]:
  "separate a 4 b 8 \<Longrightarrow> load64 (store32 m a v) b = load64 m b"
  by (simp add: load64_def store32_def read_write_le_sep)

lemma load32_store32_sep [mem_simps]:
  "separate a 4 b 4 \<Longrightarrow> load32 (store32 m a v) b = load32 m b"
  by (simp add: load32_def store32_def read_write_le_sep)

lemma store32_other: "\<forall>i<4. x \<noteq> a + of_nat i \<Longrightarrow> store32 m a v x = m x"
  by (simp add: store32_def write_le_other)

lemma store64_other: "\<forall>i<8. x \<noteq> a + of_nat i \<Longrightarrow> store64 m a v x = m x"
  by (simp add: store64_def write_le_other)

lemma load_cong_range:
  assumes "\<forall>i<n. m (a + of_nat i) = m' (a + of_nat i)"
  shows load32_cong_range: "k + 4 \<le> n \<Longrightarrow> load32 m (a + of_nat k) = load32 m' (a + of_nat k)"
    and load64_cong_range: "k + 8 \<le> n \<Longrightarrow> load64 m (a + of_nat k) = load64 m' (a + of_nat k)"
proof -
  have eq: "k + j < n \<Longrightarrow> m (a + of_nat k + of_nat j) = m' (a + of_nat k + of_nat j)" for j
    using assms [rule_format, of "k + j"] by (simp add: add.assoc)
  show "k + 4 \<le> n \<Longrightarrow> load32 m (a + of_nat k) = load32 m' (a + of_nat k)"
    unfolding load32_def by (subst read_le_cong [where m' = m']) (auto simp: eq)
  show "k + 8 \<le> n \<Longrightarrow> load64 m (a + of_nat k) = load64 m' (a + of_nat k)"
    unfolding load64_def by (subst read_le_cong [where m' = m']) (auto simp: eq)
qed

section \<open>Separation\<close>

lemma separate_sym: "separate a n b k \<Longrightarrow> separate b k a n"
  unfolding separate_def
proof (intro allI impI)
  fix i j assume "\<forall>i<n. \<forall>j<k. a + of_nat i \<noteq> b + of_nat j" "i < k" "j < n"
  then have "a + of_nat j \<noteq> b + of_nat i" by blast
  then show "b + of_nat i \<noteq> a + of_nat j" by (rule not_sym)
qed

lemma separate_sub:
  "separate a n b k \<Longrightarrow> i + n' \<le> n \<Longrightarrow> separate (a + of_nat i) n' b k"
  unfolding separate_def
proof (intro allI impI)
  fix j j' assume h: "\<forall>i<n. \<forall>j<k. a + of_nat i \<noteq> b + of_nat j" "i + n' \<le> n" "j < n'" "j' < k"
  then have "i + j < n" by linarith
  with h have "a + of_nat (i + j) \<noteq> b + of_nat j'" by blast
  then show "a + of_nat i + of_nat j \<noteq> b + of_nat j'" by (simp add: add.assoc)
qed

lemma separate_offsets:
  assumes "i + n \<le> j \<or> j + k \<le> i" "i + n \<le> 2 ^ 64" "j + k \<le> 2 ^ 64"
  shows "separate (a + of_nat i) n (a + of_nat j) k"
  unfolding separate_def
proof (intro allI impI)
  fix p q assume "p < n" "q < k"
  then have "i + p < 2 ^ 64" "j + q < 2 ^ 64" "i + p \<noteq> j + q" using assms by auto
  then have "a + of_nat (i + p) \<noteq> a + of_nat (j + q)" by (subst add_of_nat_inj64) auto
  then show "a + of_nat i + of_nat p \<noteq> a + of_nat j + of_nat q" by (simp add: add.assoc)
qed

lemma aligned_separate:
  assumes "aligned 8 a" "aligned 8 b" "a \<noteq> b"
  shows "separate a 8 b 8"
  unfolding separate_def
proof (intro allI impI notI)
  fix i j :: nat assume "i < 8" "j < 8" and eq: "a + of_nat i = b + of_nat j"
  have bnd: "unat x + k < 2 ^ 64" if "aligned 8 x" "k < 8" for x :: u64 and k :: nat
    using unsigned_less [of x, where ?'a = nat] that unfolding aligned_def by simp presburger
  have split: "unat (x + of_nat k) = unat x + k" if "aligned 8 x" "k < 8" for x :: u64 and k :: nat
    using bnd [OF that] by (simp add: unat_word_ariths unsigned_of_nat take_bit_eq_mod mod_simps)
  from eq have "unat a + i = unat b + j"
    using split assms(1,2) \<open>i < 8\<close> \<open>j < 8\<close> by metis
  then have "unat a = unat b" using assms(1,2) \<open>i < 8\<close> \<open>j < 8\<close>
    unfolding aligned_def by presburger
  with assms(3) show False by (simp add: word_unat_eq_iff)
qed

end
