(* ===== verification/Abi.thy ===== *)
theory Abi
  imports Memory
begin

text \<open>
  \<open>src/abi.rs\<close>: the kernel's \<open>struct rseq\<close> as the crate declares it (\<open>Area\<close>), its
  \<open>repr(C)\<close> layout computed from the field sizes, the constants of the module, and the
  reading of an area out of memory. The offsets the assembly uses are the layout's.
\<close>

section \<open>The constants\<close>

definition GLIBC_SIZE_MIN :: usize where "GLIBC_SIZE_MIN = 20"
definition FLAG_UNREGISTER :: u32 where "FLAG_UNREGISTER = 1"
definition CPU_UNINIT :: u32 where "CPU_UNINIT = - 1"
definition CPU_REG_FAILED :: u32 where "CPU_REG_FAILED = - 1 - 1"
definition SIG_x86_64 :: u32 where "SIG_x86_64 = 0x53053053"
definition SIG_aarch64 :: u32 where "SIG_aarch64 = 0xd428bc00"
definition CPU_ID_OFF :: nat where "CPU_ID_OFF = 4"
definition CS_OFF :: nat where "CS_OFF = 8"
definition MM_CID_OFF :: nat where "MM_CID_OFF = 24"
definition AT_RSEQ_FEATURE_SIZE :: u64 where "AT_RSEQ_FEATURE_SIZE = 27"
definition NODE_FEATURE_SIZE :: u64 where "NODE_FEATURE_SIZE = 24"
definition CID_FEATURE_SIZE :: u64 where "CID_FEATURE_SIZE = 28"
definition SLICE_FEATURE_SIZE :: u64 where "SLICE_FEATURE_SIZE = 33"

section \<open>The area and its layout\<close>

record area =
  cpu_id_start :: u32
  cpu_id :: u32
  rseq_cs :: u64
  flags :: u32
  node_id :: u32
  mm_cid :: u32
  slice_ctrl :: u32

text \<open>The fields of \<open>Area\<close> in declaration order, with their sizes in bytes.\<close>

definition area_fields :: "(string \<times> nat) list" where
  "area_fields = [(''cpu_id_start'', 4), (''cpu_id'', 4), (''rseq_cs'', 8), (''flags'', 4),
     (''node_id'', 4), (''mm_cid'', 4), (''slice_ctrl'', 4)]"

text \<open>
  \<open>repr(C)\<close>: each field goes to the next multiple of its alignment, and the size is rounded
  up to the largest alignment. The alignment of an integer field is its size.
\<close>

definition round_up :: "nat \<Rightarrow> nat \<Rightarrow> nat" where
  "round_up n k = (n + k - 1) div k * k"

fun repr_c :: "nat \<Rightarrow> (string \<times> nat) list \<Rightarrow> (string \<times> nat) list" where
  "repr_c off [] = []"
| "repr_c off ((f, s) # fs) = (f, round_up off s) # repr_c (round_up off s + s) fs"

fun repr_c_end :: "nat \<Rightarrow> (string \<times> nat) list \<Rightarrow> nat" where
  "repr_c_end off [] = off"
| "repr_c_end off ((f, s) # fs) = repr_c_end (round_up off s + s) fs"

definition area_offset :: "string \<Rightarrow> nat option" where
  "area_offset f = map_of (repr_c 0 area_fields) f"

definition area_align :: nat where
  "area_align = fold max (map snd area_fields) 1"

definition area_size :: nat where
  "area_size = round_up (repr_c_end 0 area_fields) area_align"

text \<open>The area at address \<open>p\<close>: the \<open>read_volatile\<close> of each field.\<close>

definition read_area :: "mem \<Rightarrow> u64 \<Rightarrow> area" where
  "read_area m p = \<lparr>cpu_id_start = load32 m p, cpu_id = load32 m (p + of_nat CPU_ID_OFF),
     rseq_cs = load64 m (p + of_nat CS_OFF), flags = load32 m (p + 16),
     node_id = load32 m (p + 20), mm_cid = load32 m (p + of_nat MM_CID_OFF),
     slice_ctrl = load32 m (p + 28)\<rparr>"

definition write_area :: "mem \<Rightarrow> u64 \<Rightarrow> area \<Rightarrow> mem" where
  "write_area m p a = store32 (store32 (store32 (store32 (store64 (store32 (store32 m
     p (cpu_id_start a)) (p + 4) (cpu_id a)) (p + 8) (rseq_cs a)) (p + 16) (flags a))
     (p + 20) (node_id a)) (p + 24) (mm_cid a)) (p + 28) (slice_ctrl a)"

section \<open>The index fields\<close>

text \<open>The two offsets the assembly is instantiated with (the \<open>const\<close> assertions of \<open>thread.rs\<close>).\<close>

definition id_off_ok :: "nat \<Rightarrow> bool" where
  "id_off_ok off \<longleftrightarrow> off = CPU_ID_OFF \<or> off = MM_CID_OFF"

lemma separate_area_field:
  "i + n \<le> j \<or> j + k \<le> i \<Longrightarrow> i + n \<le> 32 \<Longrightarrow> j + k \<le> 32 \<Longrightarrow>
    separate (p + of_nat i) n (p + of_nat j) k"
  by (rule separate_offsets) auto

lemma load_id_store_cs [mem_simps]:
  "id_off_ok off \<Longrightarrow>
    load32 (store64 m (p + of_nat CS_OFF) v) (p + of_nat off) = load32 m (p + of_nat off)"
  by (rule load32_store64_sep, rule separate_area_field)
     (auto simp: id_off_ok_def CPU_ID_OFF_def MM_CID_OFF_def CS_OFF_def)

lemma load_word_store_cs [mem_simps]:
  "separate p 32 w 8 \<Longrightarrow> load64 (store64 m (p + of_nat CS_OFF) v) w = load64 m w"
  by (rule load64_store64_sep, erule separate_sub) (simp add: CS_OFF_def)

lemma load_cs_store_word [mem_simps]:
  "separate p 32 w 8 \<Longrightarrow>
    load64 (store64 m w v) (p + of_nat CS_OFF) = load64 m (p + of_nat CS_OFF)"
  by (rule load64_store64_sep, rule separate_sym, erule separate_sub) (simp add: CS_OFF_def)

lemma load_id_store_word [mem_simps]:
  "id_off_ok off \<Longrightarrow> separate p 32 w 8 \<Longrightarrow>
    load32 (store64 m w v) (p + of_nat off) = load32 m (p + of_nat off)"
  by (rule load32_store64_sep, rule separate_sym, erule separate_sub)
     (auto simp: id_off_ok_def CPU_ID_OFF_def MM_CID_OFF_def)

lemma load_id_cong:
  "id_off_ok off \<Longrightarrow> \<forall>i<32. m' (p + of_nat i) = m (p + of_nat i) \<Longrightarrow>
    load32 m' (p + of_nat off) = load32 m (p + of_nat off)"
  by (rule load32_cong_range [where n = 32])
     (auto simp: id_off_ok_def CPU_ID_OFF_def MM_CID_OFF_def)

lemma load_cs_cong:
  "\<forall>i<32. m' (p + of_nat i) = m (p + of_nat i) \<Longrightarrow>
    load64 m' (p + of_nat CS_OFF) = load64 m (p + of_nat CS_OFF)"
  by (rule load64_cong_range [where n = 32]) (auto simp: CS_OFF_def)

text \<open>
  The layout \<open>repr(C)\<close> gives \<open>Area\<close> is the kernel's: every field at its ABI offset, the
  offsets the assembly is given are those of \<open>cpu_id\<close>, \<open>rseq_cs\<close> and \<open>mm_cid\<close>, the size is
  32 and the alignment 8, and the feature sizes are the ends of \<open>node_id\<close> and \<open>mm_cid\<close>
  (and one byte past the area for the slice extension).
\<close>

lemma area_abi:
  "map snd (repr_c 0 area_fields) = [0, 4, 8, 16, 20, 24, 28] \<and>
   area_offset ''cpu_id'' = Some CPU_ID_OFF \<and> area_offset ''rseq_cs'' = Some CS_OFF \<and>
   area_offset ''mm_cid'' = Some MM_CID_OFF \<and> area_size = 32 \<and> area_align = 8 \<and>
   map_option (\<lambda>x. x + 4) (area_offset ''node_id'') = Some (unat NODE_FEATURE_SIZE) \<and>
   map_option (\<lambda>x. x + 4) (area_offset ''mm_cid'') = Some (unat CID_FEATURE_SIZE) \<and>
   unat SLICE_FEATURE_SIZE = area_size + 1"
  by (simp add: area_fields_def area_offset_def area_size_def area_align_def round_up_def
      CPU_ID_OFF_def CS_OFF_def MM_CID_OFF_def NODE_FEATURE_SIZE_def CID_FEATURE_SIZE_def
      SLICE_FEATURE_SIZE_def)

text \<open>The separation of two fields, for offsets written as numerals.\<close>

lemma separate_area_numeral:
  "numeral i + n \<le> numeral j \<or> numeral j + k \<le> (numeral i :: nat) \<Longrightarrow>
    numeral i + n \<le> (32 :: nat) \<Longrightarrow> numeral j + k \<le> (32 :: nat) \<Longrightarrow>
    separate (p + numeral i) n (p + numeral j) k"
  "n \<le> numeral j \<Longrightarrow> numeral j + k \<le> (32 :: nat) \<Longrightarrow> separate p n (p + numeral j) k"
  "k \<le> numeral i \<Longrightarrow> numeral i + n \<le> (32 :: nat) \<Longrightarrow> separate (p + numeral i) n p k"
  using separate_area_field [of "numeral i" n "numeral j" k p]
    separate_area_field [of 0 n "numeral j" k p] separate_area_field [of "numeral i" n 0 k p]
  by simp_all

lemma read_write_area: "read_area (write_area m p a) p = a"
  by (simp add: read_area_def write_area_def CPU_ID_OFF_def CS_OFF_def MM_CID_OFF_def
      mem_simps separate_area_numeral)

section \<open>Fields as places in memory\<close>

text \<open>\<open>addr_of!((*area).field)\<close>: the place of a field, from the layout of \<open>repr(C)\<close>.\<close>

definition field_addr :: "u64 \<Rightarrow> string \<Rightarrow> u64" where
  "field_addr p f = p + of_nat (the (area_offset f))"

lemma field_addrs:
  "field_addr p ''cpu_id_start'' = p" "field_addr p ''cpu_id'' = p + 4"
  "field_addr p ''rseq_cs'' = p + 8" "field_addr p ''flags'' = p + 16"
  "field_addr p ''node_id'' = p + 20" "field_addr p ''mm_cid'' = p + 24"
  "field_addr p ''slice_ctrl'' = p + 28"
  by (simp_all add: field_addr_def area_offset_def area_fields_def round_up_def)

lemma read_area_cong:
  assumes "\<forall>i<32. m (p + of_nat i) = m' (p + of_nat i)"
  shows "read_area m p = read_area m' p"
proof -
  note l = load32_cong_range [OF assms] and c = load64_cong_range [OF assms, of 8]
  show ?thesis using l [of 0] l [of 4] l [of 16] l [of 20] l [of 24] l [of 28] c
    by (simp add: read_area_def CPU_ID_OFF_def CS_OFF_def MM_CID_OFF_def)
qed

text \<open>A byte outside the area is outside of each of its fields.\<close>

lemma outside_field:
  assumes "\<forall>i<32. x \<noteq> p + of_nat i" "k + n \<le> 32"
  shows "\<forall>i<n. x \<noteq> p + of_nat k + of_nat i"
proof (intro allI impI)
  fix i assume "i < n"
  then have "k + i < 32" using assms(2) by linarith
  then have "x \<noteq> p + of_nat (k + i)" using assms(1) by blast
  then show "x \<noteq> p + of_nat k + of_nat i" by (simp add: add.assoc)
qed

lemma write_area_other:
  assumes "\<forall>i<32. x \<noteq> p + of_nat i"
  shows "write_area m p a x = m x"
proof -
  note o = outside_field [OF assms]
  show ?thesis
    using o [of 0 4] o [of 4 4] o [of 8 8] o [of 16 4] o [of 20 4] o [of 24 4] o [of 28 4]
    by (simp add: write_area_def store32_other store64_other)
qed

text \<open>
  C40: the layout that \<open>repr(C)\<close> gives \<open>Area\<close> is the one the crate reads and the assembly
  addresses: storing to the place of a field, at any address and in any memory, changes this
  field of the area that is read there and no other; the three offsets that go into the assembly
  lead to \<open>cpu_id\<close>, \<open>rseq_cs\<close> and \<open>mm_cid\<close>; an area that is written is read back; and reading
  and writing stay within the 32 bytes that are registered.
\<close>

theorem area_layout:
  fixes m m' :: mem and p x :: u64
  shows "read_area (store32 m (field_addr p ''cpu_id_start'') u) p = (read_area m p)\<lparr>cpu_id_start := u\<rparr> \<and>
    read_area (store32 m (field_addr p ''cpu_id'') u) p = (read_area m p)\<lparr>cpu_id := u\<rparr> \<and>
    read_area (store64 m (field_addr p ''rseq_cs'') v) p = (read_area m p)\<lparr>rseq_cs := v\<rparr> \<and>
    read_area (store32 m (field_addr p ''flags'') u) p = (read_area m p)\<lparr>flags := u\<rparr> \<and>
    read_area (store32 m (field_addr p ''node_id'') u) p = (read_area m p)\<lparr>node_id := u\<rparr> \<and>
    read_area (store32 m (field_addr p ''mm_cid'') u) p = (read_area m p)\<lparr>mm_cid := u\<rparr> \<and>
    read_area (store32 m (field_addr p ''slice_ctrl'') u) p = (read_area m p)\<lparr>slice_ctrl := u\<rparr> \<and>
    load32 m (p + of_nat CPU_ID_OFF) = cpu_id (read_area m p) \<and>
    load64 m (p + of_nat CS_OFF) = rseq_cs (read_area m p) \<and>
    load32 m (p + of_nat MM_CID_OFF) = mm_cid (read_area m p) \<and>
    read_area (write_area m p a) p = a \<and>
    ((\<forall>i<area_size. x \<noteq> p + of_nat i) \<longrightarrow> write_area m p a x = m x) \<and>
    ((\<forall>i<area_size. m (p + of_nat i) = m' (p + of_nat i)) \<longrightarrow> read_area m p = read_area m' p)"
proof -
  have s: "area_size = 32" using area_abi by blast
  show ?thesis unfolding s
    by (intro conjI impI read_write_area write_area_other read_area_cong)
       (simp_all add: field_addrs read_area_def CPU_ID_OFF_def CS_OFF_def MM_CID_OFF_def
        mem_simps separate_area_numeral)
qed

text \<open>Two memories that differ after the area of one thread, at the area of the next.\<close>

theorem area_layout_witness:
  "write_area (\<lambda>_. 5) 0x1000 (read_area (\<lambda>_. 3) 0x2000) 0x1020 = 5 \<and>
   read_area (\<lambda>_. 0) 0x1000 = read_area ((\<lambda>_. 0)(0x1020 := 7)) 0x1000"
proof -
  have n: "\<forall>i<area_size. (0x1020::u64) \<noteq> 0x1000 + of_nat i"
  proof (intro allI impI notI)
    fix i assume i: "i < area_size" "(0x1020::u64) = 0x1000 + of_nat i"
    then have "of_nat i = (0x1020 - 0x1000 :: u64)" by (simp add: eq_diff_eq add.commute)
    moreover have "i < 32" using i(1) area_abi by (elim conjE) (simp only:)
    ultimately show False using of_nat_inverse [of i "0x1020 - 0x1000 :: u64"] by simp
  qed
  then have "\<forall>i<area_size. (0::u8) = ((\<lambda>_. 0)(0x1020 := 7)) (0x1000 + of_nat i :: u64)"
    by (auto simp: fun_upd_def)
  with n show ?thesis
    using area_layout [where x = "0x1020" and p = "0x1000" and m = "\<lambda>_. 5"
        and a = "read_area (\<lambda>_. 3) 0x2000"]
      area_layout [where p = "0x1000" and m = "\<lambda>_. 0" and m' = "(\<lambda>_. 0)(0x1020 := 7)"] by blast
qed

end
