(* ===== verification/Index.thy ===== *)
theory Index
  imports Abi
begin

text \<open>
  The index kinds of \<open>src/thread.rs\<close> (\<open>CpuId\<close>, \<open>Cid\<close>, \<open>NodeId\<close>, the sealed trait \<open>Index\<close> as a
  record of its members) and the \<open>Word\<close> of \<open>src/words.rs\<close>: an address and the index it was
  picked with.
\<close>

section \<open>The newtypes\<close>

datatype CpuId = CpuId u32
datatype Cid = Cid u32
datatype NodeId = NodeId u32

text \<open>\<open>CpuId::new\<close> rejects the kernel's two sentinels; \<open>Cid::new\<close> and \<open>NodeId::new\<close> do not.\<close>

definition CpuId_new :: "u32 \<Rightarrow> CpuId option" where
  "CpuId_new i = (if i = CPU_UNINIT \<or> i = CPU_REG_FAILED then None else Some (CpuId i))"

fun CpuId_get :: "CpuId \<Rightarrow> u32" where "CpuId_get (CpuId i) = i"
fun Cid_get :: "Cid \<Rightarrow> u32" where "Cid_get (Cid i) = i"
fun NodeId_get :: "NodeId \<Rightarrow> u32" where "NodeId_get (NodeId i) = i"

text \<open>The derived order of the ids is that of the numbers.\<close>

instantiation CpuId :: linorder
begin

definition less_eq_CpuId :: "CpuId \<Rightarrow> CpuId \<Rightarrow> bool" where
  "a \<le> b \<longleftrightarrow> CpuId_get a \<le> CpuId_get b"

definition less_CpuId :: "CpuId \<Rightarrow> CpuId \<Rightarrow> bool" where
  "a < b \<longleftrightarrow> CpuId_get a < CpuId_get b"

instance
proof
  fix a b c :: CpuId
  show "a < b \<longleftrightarrow> a \<le> b \<and> \<not> b \<le> a" by (auto simp: less_eq_CpuId_def less_CpuId_def)
  show "a \<le> a" by (simp add: less_eq_CpuId_def)
  show "a \<le> b \<Longrightarrow> b \<le> c \<Longrightarrow> a \<le> c" by (simp add: less_eq_CpuId_def)
  show "a \<le> b \<Longrightarrow> b \<le> a \<Longrightarrow> a = b" by (cases a; cases b) (simp add: less_eq_CpuId_def)
  show "a \<le> b \<or> b \<le> a" by (auto simp: less_eq_CpuId_def)
qed

end

lemma CpuId_new_Some:
  "CpuId_new i = Some c \<longleftrightarrow> c = CpuId i \<and> i \<noteq> CPU_UNINIT \<and> i \<noteq> CPU_REG_FAILED"
  by (auto simp: CpuId_new_def)

lemma CpuId_get_new: "CpuId_new i = Some c \<Longrightarrow> CpuId_get c = i"
  by (auto simp: CpuId_new_Some)

text \<open>The sentinels are the two largest numbers, so the ids are the numbers below.\<close>

lemma CpuId_new_below: "CpuId_new i \<noteq> None \<longleftrightarrow> unat i < 2 ^ 32 - 2"
proof -
  have "unat i < 2 ^ 32" using unsigned_less [of i, where ?'a = nat] by simp
  moreover have "i = CPU_UNINIT \<longleftrightarrow> unat i = 2 ^ 32 - 1" "i = CPU_REG_FAILED \<longleftrightarrow> unat i = 2 ^ 32 - 2"
    by (simp_all add: word_unat_eq_iff CPU_UNINIT_def CPU_REG_FAILED_def unsigned_minus_1_eq_mask
        mask_eq_exp_minus_1)
  ultimately show ?thesis by (auto simp: CpuId_new_def)
qed

section \<open>The sealed trait\<close>

text \<open>A trait as the record of its members; the kinds are its two instances.\<close>

record 'k index_kind =
  OFF :: nat
  get :: "'k \<Rightarrow> u32"

definition CpuId_kind :: "CpuId index_kind" where
  "CpuId_kind = \<lparr>OFF = CPU_ID_OFF, get = CpuId_get\<rparr>"

definition Cid_kind :: "Cid index_kind" where
  "Cid_kind = \<lparr>OFF = MM_CID_OFF, get = Cid_get\<rparr>"

text \<open>
  What the word operations and the word regions rely on: the offset is one that the assembly
  knows (the \<open>const\<close> assertion of every private operation), and different keys have different
  numbers.
\<close>

locale index_laws =
  fixes K :: "'k index_kind"
  assumes off_ok: "id_off_ok (OFF K)"
    and get_inj: "get K a = get K b \<Longrightarrow> a = b"
begin

lemma dispatch: "(if OFF K = CPU_ID_OFF then CPU_ID_OFF else MM_CID_OFF) = OFF K"
  using off_ok by (auto simp: id_off_ok_def)

lemma get_neq: "a \<noteq> b \<Longrightarrow> get K a \<noteq> get K b"
  using get_inj by blast

end

lemma CpuId_get_inj: "CpuId_get a = CpuId_get b \<longleftrightarrow> a = b"
  by (cases a; cases b) simp

lemma Cid_get_inj: "Cid_get a = Cid_get b \<longleftrightarrow> a = b"
  by (cases a; cases b) simp

interpretation cpu_index: index_laws CpuId_kind
  by unfold_locales (auto simp: CpuId_kind_def id_off_ok_def CpuId_get_inj)

interpretation cid_index: index_laws Cid_kind
  by unfold_locales (auto simp: Cid_kind_def id_off_ok_def Cid_get_inj)

section \<open>Words\<close>

record 'k word_ref =
  word :: u64
  key :: 'k

definition Word_new :: "u64 \<Rightarrow> 'k \<Rightarrow> 'k word_ref" where
  "Word_new w k = \<lparr>word = w, key = k\<rparr>"

text \<open>\<open>PartialEq for Word\<close>: the same atomic and the same key.\<close>

definition Word_eq :: "'k word_ref \<Rightarrow> 'k word_ref \<Rightarrow> bool" where
  "Word_eq a b \<longleftrightarrow> word a = word b \<and> key a = key b"

lemma Word_eq_iff: "Word_eq a b \<longleftrightarrow> a = b"
  by (cases a; cases b) (simp add: Word_eq_def)

text \<open>The accessors; \<open>atomic\<close> and \<open>as_ptr\<close> are the same address.\<close>

definition Word_key :: "'k word_ref \<Rightarrow> 'k" where "Word_key v = key v"
definition Word_atomic :: "'k word_ref \<Rightarrow> u64" where "Word_atomic v = word v"
definition Word_as_ptr :: "'k word_ref \<Rightarrow> u64" where "Word_as_ptr v = word v"
definition Word_cpu :: "CpuId word_ref \<Rightarrow> CpuId" where "Word_cpu v = key v"
definition Word_cid :: "Cid word_ref \<Rightarrow> Cid" where "Word_cid v = key v"

text \<open>
  \<open>Hash\<close>: a hasher takes a 64-bit and a 32-bit number; the derived hashing of an id writes its
  number.
\<close>

record 'h hasher =
  write_usize :: "usize \<Rightarrow> 'h \<Rightarrow> 'h"
  write_u32 :: "u32 \<Rightarrow> 'h \<Rightarrow> 'h"

definition Index_hash :: "'k index_kind \<Rightarrow> 'h hasher \<Rightarrow> 'k \<Rightarrow> 'h \<Rightarrow> 'h" where
  "Index_hash K H k st = write_u32 H (get K k) st"

definition Word_hash :: "'k index_kind \<Rightarrow> 'h hasher \<Rightarrow> 'k word_ref \<Rightarrow> 'h \<Rightarrow> 'h" where
  "Word_hash K H v st = Index_hash K H (key v) (write_usize H (word v) st)"

text \<open>
  The contract of \<open>Eq\<close> and \<open>Hash\<close>: equal words hash alike; and a hasher that keeps what it is
  given tells different words apart.
\<close>

lemma Word_hash_eq: "Word_eq a b \<Longrightarrow> Word_hash K H a = Word_hash K H b"
  by (simp add: Word_eq_iff)

context index_laws
begin

lemma Word_hash_inj:
  assumes "\<And>x y a b. write_usize H x a = write_usize H y b \<Longrightarrow> x = y \<and> a = b"
    and "\<And>x y a b. write_u32 H x a = write_u32 H y b \<Longrightarrow> x = y \<and> a = b"
    and "Word_hash K H v st = Word_hash K H w st"
  shows "Word_eq v w"
proof -
  have "get K (key v) = get K (key w)" "write_usize H (word v) st = write_usize H (word w) st"
    using assms(2,3) unfolding Word_hash_def Index_hash_def by blast+
  then show ?thesis using assms(1) get_inj unfolding Word_eq_def by blast
qed

end

end
