(* ===== verification/Words.thy ===== *)
theory Words
  imports Index
begin

text \<open>
  \<open>src/region.rs\<close> and \<open>src/words.rs\<close>: the mapping of one word per CPU or a span the caller
  owns, and the words picked from it by index. \<open>mmap\<close> is an argument: the address that the
  anonymous mapping of a length gets, or \<open>MAP_FAILED\<close>.
\<close>

section \<open>Regions\<close>

definition PAGE :: usize where "PAGE = 4096"
definition WORD_SIZE :: usize where "WORD_SIZE = 8"
definition MAP_FAILED :: u64 where "MAP_FAILED = - 1"

text \<open>A mapping with its base and length, or the base of a span.\<close>

datatype region = Mapped u64 usize | Raw_span u64

definition Region_map :: "(usize \<Rightarrow> u64) \<Rightarrow> u32 \<Rightarrow> region option" where
  "Region_map mmap cpus =
     (case checked_mul (ucast cpus) WORD_SIZE of None \<Rightarrow> None
      | Some bytes \<Rightarrow>
         (case checked_mul (div_ceil bytes PAGE) PAGE of None \<Rightarrow> None
          | Some len \<Rightarrow>
             (if len = 0 then None
              else let ptr = mmap len in
                if ptr = MAP_FAILED then None
                else if ptr = 0 then None else Some (Mapped ptr len))))"

definition Region_raw :: "u64 \<Rightarrow> region" where
  "Region_raw base = Raw_span base"

fun Region_base :: "region \<Rightarrow> u64" where
  "Region_base (Mapped base len) = base"
| "Region_base (Raw_span base) = base"

definition Region_word :: "region \<Rightarrow> u32 \<Rightarrow> u64" where
  "Region_word r cpu = Region_base r + ucast cpu * WORD_SIZE"

text \<open>\<open>Drop\<close>: the \<open>munmap\<close> it makes, with its arguments.\<close>

fun Region_drop :: "region \<Rightarrow> (u64 \<times> usize) option" where
  "Region_drop (Mapped base len) = Some (base, len)"
| "Region_drop (Raw_span base) = None"

section \<open>Word regions\<close>

record words =
  region :: region
  cpus :: u32

definition Words_new :: "(usize \<Rightarrow> u64) \<Rightarrow> u32 \<Rightarrow> words option" where
  "Words_new mmap n =
     (if n = 0 then None
      else case Region_map mmap n of None \<Rightarrow> None | Some r \<Rightarrow> Some \<lparr>region = r, cpus = n\<rparr>)"

text \<open>\<open>from_static\<close>: the slice is its address and its length.\<close>

definition Words_from_static :: "u64 \<Rightarrow> usize \<Rightarrow> words option" where
  "Words_from_static base len =
     (if 2 ^ 32 \<le> unat len then None
      else let n = ucast len in
        if n = 0 then None else Some \<lparr>region = Region_raw base, cpus = n\<rparr>)"

definition Words_cpus :: "words \<Rightarrow> u32" where
  "Words_cpus ws = cpus ws"

definition Words_get :: "'k index_kind \<Rightarrow> words \<Rightarrow> 'k \<Rightarrow> 'k word_ref option" where
  "Words_get K ws k = (let i = get K k in
     if i \<ge> cpus ws then None else Some (Word_new (Region_word (region ws) i) k))"

definition Words_drop :: "words \<Rightarrow> (u64 \<times> usize) option" where
  "Words_drop ws = Region_drop (region ws)"

section \<open>The size of a mapping\<close>

lemma unat_div_ceil:
  "unat x + unat y < 2 ^ 64 \<Longrightarrow> 0 < unat y \<Longrightarrow>
    unat (div_ceil x y) = (unat x + unat y - 1) div unat y" for x y :: usize
proof -
  assume h: "unat x + unat y < 2 ^ 64" "0 < unat y"
  let ?q = "unat x div unat y" and ?r = "unat x mod unat y"
  have x: "unat x = unat y * ?q + ?r" by simp
  have r: "?r < unat y" using h(2) by simp
  have z: "x mod y = 0 \<longleftrightarrow> ?r = 0" by (simp add: word_unat_eq_iff unat_mod)
  have "?q \<le> unat x" by (rule div_le_dividend)
  then have q1: "?q + 1 < 2 ^ 64" using h by linarith
  have "(unat x + unat y - 1) div unat y = (if ?r = 0 then ?q else ?q + 1)"
  proof (cases "?r = 0")
    case True
    then have "unat x + unat y - 1 = (unat y - 1) + unat y * ?q" using x h(2) by linarith
    then have "(unat x + unat y - 1) div unat y = ?q + (unat y - 1) div unat y"
      using h(2) by (simp only: div_mult_self2)
    then show ?thesis using True h(2) by simp
  next
    case False
    have "unat y * (?q + 1) = unat y * ?q + unat y" by simp
    then have "unat x + unat y - 1 = (?r - 1) + unat y * (?q + 1)" using False x by linarith
    then have "(unat x + unat y - 1) div unat y = ?q + 1 + (?r - 1) div unat y"
      using h(2) by (simp only: div_mult_self2)
    then show ?thesis using False r by simp
  qed
  moreover have "unat (x div y + 1) = ?q + 1"
    using q1 by (subst unat_word_ariths) (simp add: unat_div)
  ultimately show ?thesis using z by (simp add: div_ceil_def unat_div)
qed

lemma page_bounds:
  "(x + 4095) div 4096 * 4096 \<le> x + (4095 :: nat)" "x \<le> (x + 4095) div 4096 * (4096 :: nat)"
proof -
  have "x + 4095 = (x + 4095) div 4096 * 4096 + (x + 4095) mod 4096" by simp
  moreover have "(x + 4095) mod 4096 < 4096" by simp
  ultimately show "(x + 4095) div 4096 * 4096 \<le> x + 4095" "x \<le> (x + 4095) div 4096 * 4096"
    by linarith+
qed

lemma Region_map_mmap:
  assumes "n \<noteq> 0"
  shows "\<exists>len. Region_map mmap n =
      (if mmap len = MAP_FAILED \<or> mmap len = 0 then None else Some (Mapped (mmap len) len)) \<and>
    unat len mod 4096 = 0 \<and> 8 * unat n \<le> unat len \<and> unat len < 8 * unat n + 4096"
proof -
  let ?b = "ucast n * WORD_SIZE :: usize"
  have n: "0 < unat n" using assms by (simp add: unat_gt_0)
  have b: "unat ?b = 8 * unat n"
    using unat_u32_bound [of n] by (subst unat_word_ariths) (simp add: WORD_SIZE_def unat_ucast_u32)
  have cb: "checked_mul (ucast n) WORD_SIZE = Some ?b"
    using unat_u32_bound [of n] by (simp add: checked_mul_def WORD_SIZE_def unat_ucast_u32)
  let ?d = "div_ceil ?b PAGE"
  have d: "unat ?d = (8 * unat n + 4095) div 4096"
    using unat_u32_bound [of n] b by (subst unat_div_ceil) (simp_all add: PAGE_def)
  have dl: "unat ?d * 4096 \<le> 8 * unat n + 4095" "8 * unat n \<le> unat ?d * 4096" 
    unfolding d by (rule page_bounds)+
  let ?l = "?d * PAGE"
  have l: "unat ?l = unat ?d * 4096"
    using unat_u32_bound [of n] dl by (subst unat_word_ariths) (simp add: PAGE_def)
  have cl: "checked_mul ?d PAGE = Some ?l"
    using unat_u32_bound [of n] dl by (simp add: checked_mul_def PAGE_def)
  have "unat ?l \<noteq> 0" using l dl n by linarith
  then have "?l \<noteq> 0" by (simp only: word_unat_eq_iff unat_0 not_False_eq_True)
  then have "Region_map mmap n =
      (if mmap ?l = MAP_FAILED \<or> mmap ?l = 0 then None else Some (Mapped (mmap ?l) ?l))"
    by (simp add: Region_map_def cb cl Let_def)
  then show ?thesis using l dl by (intro exI [of _ ?l]) auto
qed

section \<open>The words of a region\<close>

text \<open>A live region: aligned, not wrapping around, with room for its words.\<close>

definition region_ok :: "words \<Rightarrow> bool" where
  "region_ok ws \<longleftrightarrow> aligned 8 (Region_base (region ws)) \<and>
     unat (Region_base (region ws)) + 8 * unat (cpus ws) \<le> 2 ^ 64"

lemma unat_Region_word:
  assumes "region_ok ws" "i < cpus ws"
  shows "unat (Region_word (region ws) i) = unat (Region_base (region ws)) + 8 * unat i"
proof -
  have "unat i < unat (cpus ws)" using assms(2) by (simp add: word_less_nat_alt)
  then have "unat (Region_base (region ws)) + 8 * unat i < 2 ^ 64"
    using assms(1) by (simp add: region_ok_def)
  then show ?thesis using unat_u32_bound [of i]
    by (simp add: Region_word_def unat_word_ariths WORD_SIZE_def unat_ucast_u32)
qed

context index_laws
begin

lemma get_word:
  assumes "region_ok ws" "Words_get K ws a = Some v"
  shows "key v = a \<and> aligned 8 (word v) \<and>
    unat (word v) = unat (Region_base (region ws)) + 8 * unat (get K a) \<and>
    unat (word v) + 8 \<le> unat (Region_base (region ws)) + 8 * unat (cpus ws)"
proof -
  have i: "get K a < cpus ws" and v: "v = Word_new (Region_word (region ws) (get K a)) a"
    using assms(2) by (auto simp: Words_get_def Let_def split: if_splits)
  have "unat (get K a) < unat (cpus ws)" using i by (simp add: word_less_nat_alt)
  then show ?thesis using unat_Region_word [OF assms(1) i] assms(1) v
    by (auto simp: Word_new_def aligned_def region_ok_def)
qed

lemma get_separate:
  assumes "region_ok ws" "Words_get K ws a = Some v" "Words_get K ws b = Some w" "a \<noteq> b"
  shows "separate (word v) 8 (word w) 8"
proof (rule aligned_separate)
  show "aligned 8 (word v)" "aligned 8 (word w)" using get_word assms(1-3) by blast+
  have "unat (get K a) \<noteq> unat (get K b)" using get_neq [OF assms(4)] by (simp add: word_unat_eq_iff)
  then show "word v \<noteq> word w" using get_word [OF assms(1,2)] get_word [OF assms(1,3)] by auto
qed

end

section \<open>Properties\<close>

text \<open>
  What is relied on of \<open>mmap\<close>: it fails, or the mapping is page-aligned and does not wrap
  around the address space.
\<close>

definition mmap_ok :: "(usize \<Rightarrow> u64) \<Rightarrow> bool" where
  "mmap_ok mmap \<longleftrightarrow> (\<forall>len. mmap len = MAP_FAILED \<or>
     aligned 4096 (mmap len) \<and> unat (mmap len) + unat len \<le> 2 ^ 64)"

text \<open>A concrete \<open>mmap\<close>: small mappings succeed at one address.\<close>

definition mmap0 :: "usize \<Rightarrow> u64" where
  "mmap0 len = (if unat len \<le> 2 ^ 40 then 0x10000 else MAP_FAILED)"

lemma mmap0_ok: "mmap_ok mmap0"
  by (simp add: mmap_ok_def mmap0_def aligned_def)

lemma aligned_weaken: "aligned 4096 a \<Longrightarrow> aligned 8 a"
  unfolding aligned_def mod_eq_0_iff_dvd by (erule dvd_trans [rotated]) simp

lemma Words_new_Some:
  assumes "Words_new mmap n = Some ws"
  shows "\<exists>len. ws = \<lparr>region = Mapped (mmap len) len, cpus = n\<rparr> \<and> mmap len \<noteq> MAP_FAILED \<and>
    8 * unat n \<le> unat len"
proof -
  have n: "n \<noteq> 0" using assms by (auto simp: Words_new_def)
  show ?thesis using Region_map_mmap [OF n, of mmap] assms n
    by (auto simp: Words_new_def split: option.splits if_splits)
qed

lemma Words_new_ok:
  assumes "mmap_ok mmap" "Words_new mmap n = Some ws"
  shows "region_ok ws \<and> cpus ws = n"
proof -
  obtain len where w: "ws = \<lparr>region = Mapped (mmap len) len, cpus = n\<rparr>" "mmap len \<noteq> MAP_FAILED"
      "8 * unat n \<le> unat len"
    using Words_new_Some [OF assms(2)] by blast
  have "aligned 4096 (mmap len)" "unat (mmap len) + unat len \<le> 2 ^ 64"
    using assms(1) w(2) by (auto simp: mmap_ok_def)
  then show ?thesis using w by (simp add: region_ok_def aligned_weaken)
qed

text \<open>A word of a new region is in the mapping.\<close>

lemma word_in_mapping:
  assumes "mmap_ok mmap" "index_laws K" "Words_new mmap n = Some ws" "Words_get K ws k = Some w"
  shows "key w = k \<and> aligned 8 (word w) \<and> (case Words_drop ws of None \<Rightarrow> False
     | Some (base, len) \<Rightarrow> unat base \<le> unat (word w) \<and> unat (word w) + 8 \<le> unat base + unat len)"
proof -
  obtain len where "ws = \<lparr>region = Mapped (mmap len) len, cpus = n\<rparr>" "8 * unat n \<le> unat len"
    using Words_new_Some [OF assms(3)] by blast
  then show ?thesis
    using index_laws.get_word [OF assms(2) _ assms(4)] Words_new_ok [OF assms(1,3)]
    by (auto simp: Words_drop_def)
qed

text \<open>
  C26: \<open>Words::new\<close> asks for one mapping, of the smallest number of pages that holds a word per
  CPU; the checked multiplications never overflow and the length is never zero, so apart from a
  count of zero it fails only when \<open>mmap\<close> does.
\<close>

theorem words_new_size:
  "\<exists>len. Words_new mmap n =
      (if n = 0 \<or> mmap len = MAP_FAILED \<or> mmap len = 0 then None
       else Some \<lparr>region = Mapped (mmap len) len, cpus = n\<rparr>) \<and>
    unat len mod 4096 = 0 \<and> 8 * unat n \<le> unat len \<and> unat len < 8 * unat n + 4096"
proof (cases "n = 0")
  case True
  then show ?thesis by (intro exI [of _ 0]) (simp add: Words_new_def)
next
  case False
  from Region_map_mmap [OF this, of mmap] show ?thesis
    by (elim exE) (rule exI, use False in \<open>auto simp: Words_new_def\<close>)
qed

text \<open>
  C25: the words of a new region, for either index kind: an index is refused exactly when it is
  not below the count; the word of an index carries it as its key, is aligned, and lies inside
  the mapping that \<open>Drop\<close> gives back.
\<close>

theorem words_get:
  assumes "mmap_ok mmap" "index_laws K" "Words_new mmap n = Some ws"
  shows "case Words_get K ws k of
      None \<Rightarrow> unat n \<le> unat (get K k)
    | Some w \<Rightarrow> unat (get K k) < unat n \<and> key w = k \<and> aligned 8 (word w) \<and>
        (case Words_drop ws of None \<Rightarrow> False
         | Some (base, len) \<Rightarrow> unat base \<le> unat (word w) \<and>
             unat (word w) + 8 \<le> unat base + unat len)"
proof (cases "Words_get K ws k")
  case None
  then show ?thesis using Words_new_ok [OF assms(1,3)]
    by (auto simp: Words_get_def Let_def word_le_nat_alt split: if_splits)
next
  case (Some w)
  then have "get K k < cpus ws" by (auto simp: Words_get_def Let_def split: if_splits)
  then have "unat (get K k) < unat n"
    using Words_new_ok [OF assms(1,3)] by (simp add: word_less_nat_alt)
  then show ?thesis using word_in_mapping [OF assms Some] Some by simp
qed

theorem words_get_witness:
  "\<exists>ws w. Words_new mmap0 4 = Some ws \<and> Words_get CpuId_kind ws (CpuId 3) = Some w \<and>
     aligned 8 (word w)"
proof -
  obtain ws where ws: "Words_new mmap0 4 = Some ws"
    by (simp add: Words_new_def Region_map_def checked_mul_def div_ceil_def WORD_SIZE_def PAGE_def
        mmap0_def MAP_FAILED_def Let_def)
  from words_get [OF mmap0_ok cpu_index.index_laws_axioms this, of "CpuId 3"] show ?thesis
    using ws by (auto simp: CpuId_kind_def split: option.splits)
qed

text \<open>
  C24: different keys get words that share no byte, so a store of the critical section to the
  word of one CPU cannot touch that of another.
\<close>

theorem words_disjoint:
  assumes "mmap_ok mmap" "index_laws K" "Words_new mmap n = Some ws"
    and "Words_get K ws a = Some v" "Words_get K ws b = Some w" "a \<noteq> b"
  shows "separate (word v) 8 (word w) 8"
  using index_laws.get_separate [OF assms(2) _ assms(4-6)] Words_new_ok [OF assms(1,3)] by blast

theorem words_disjoint_witness:
  "\<exists>ws v w. Words_new mmap0 4 = Some ws \<and> Words_get Cid_kind ws (Cid 1) = Some v \<and>
     Words_get Cid_kind ws (Cid 2) = Some w \<and> separate (word v) 8 (word w) 8"
proof -
  obtain ws where ws: "Words_new mmap0 4 = Some ws" "cpus ws = 4"
    by (simp add: Words_new_def Region_map_def checked_mul_def div_ceil_def WORD_SIZE_def PAGE_def
        mmap0_def MAP_FAILED_def Let_def)
  obtain v w where "Words_get Cid_kind ws (Cid 1) = Some v" "Words_get Cid_kind ws (Cid 2) = Some w"
    using ws(2) by (simp add: Words_get_def Cid_kind_def word_le_nat_alt)
  with words_disjoint [OF mmap0_ok cid_index.index_laws_axioms ws(1) this] show ?thesis
    using ws(1) by auto
qed

text \<open>
  \<open>Words::from_static\<close> refuses exactly the empty slice and a slice too long for a 32-bit
  count; otherwise it has a word per element, and nothing is unmapped on drop.
\<close>

lemma from_static_span:
  "Words_from_static base len = (if len = 0 \<or> 2 ^ 32 \<le> unat len then None
     else Some \<lparr>region = Raw_span base, cpus = ucast len\<rparr>)"
  "unat len < 2 ^ 32 \<Longrightarrow> unat (ucast len :: u32) = unat len"
proof -
  show n: "unat (ucast len :: u32) = unat len" if "unat len < 2 ^ 32"
    using that by (simp add: unsigned_ucast_eq take_bit_nat_eq_self)
  then have "(ucast len :: u32) = 0 \<longleftrightarrow> len = 0" if "unat len < 2 ^ 32"
    using that by (simp add: word_unat_eq_iff)
  then show "Words_from_static base len = (if len = 0 \<or> 2 ^ 32 \<le> unat len then None
     else Some \<lparr>region = Raw_span base, cpus = ucast len\<rparr>)"
    by (auto simp: Words_from_static_def Let_def Region_raw_def)
qed

text \<open>
  C22: words over a slice of the caller, for either index kind: \<open>from_static\<close> refuses exactly the
  empty slice and one with more elements than a 32-bit count holds; an index is refused exactly
  when the slice has no such element, and otherwise gets this element with the index as its key,
  aligned and inside the slice; the words of different keys share no byte; and dropping the
  \<open>Words\<close> unmaps nothing.
\<close>

theorem words_from_static:
  assumes "index_laws K" "aligned 8 base" "unat base + 8 * unat len \<le> 2 ^ 64"
  shows "case Words_from_static base len of
      None \<Rightarrow> len = 0 \<or> 2 ^ 32 \<le> unat len
    | Some ws \<Rightarrow> 0 < unat len \<and> unat len < 2 ^ 32 \<and> Words_drop ws = None \<and>
        (\<forall>a. case Words_get K ws a of
            None \<Rightarrow> unat len \<le> unat (get K a)
          | Some v \<Rightarrow> key v = a \<and> unat (get K a) < unat len \<and> aligned 8 (word v) \<and>
              unat (word v) = unat base + 8 * unat (get K a) \<and>
              (\<forall>b w. Words_get K ws b = Some w \<longrightarrow> b \<noteq> a \<longrightarrow> separate (word v) 8 (word w) 8))"
proof (cases "len = 0 \<or> 2 ^ 32 \<le> unat len")
  case True
  then show ?thesis by (simp add: from_static_span(1))
next
  case False
  let ?ws = "\<lparr>region = Raw_span base, cpus = ucast len\<rparr>"
  have n: "unat (ucast len :: u32) = unat len" "0 < unat len"
    using False from_static_span(2) by (simp_all add: unat_gt_0)
  have ok: "region_ok ?ws" using assms(2,3) n by (simp add: region_ok_def)
  have r: "unat len \<le> unat (get K a)" if "Words_get K ?ws a = None" for a
    using that n by (auto simp: Words_get_def Let_def word_le_nat_alt split: if_splits)
  have i: "unat (get K a) < unat len" if "Words_get K ?ws a = Some v" for a v
    using that n by (auto simp: Words_get_def Let_def word_le_nat_alt split: if_splits)
  note g = index_laws.get_word [OF assms(1) ok] and s = index_laws.get_separate [OF assms(1) ok]
  have "case Words_get K ?ws a of None \<Rightarrow> unat len \<le> unat (get K a)
      | Some v \<Rightarrow> key v = a \<and> unat (get K a) < unat len \<and> aligned 8 (word v) \<and>
          unat (word v) = unat base + 8 * unat (get K a) \<and>
          (\<forall>b w. Words_get K ?ws b = Some w \<longrightarrow> b \<noteq> a \<longrightarrow> separate (word v) 8 (word w) 8)" for a
    using r [of a] i [of a] g [of a] s [of a] by (cases "Words_get K ?ws a") auto
  then show ?thesis using False n(2) by (simp add: from_static_span(1) Words_drop_def)
qed

text \<open>A slice of three words.\<close>

theorem words_from_static_witness:
  "\<exists>ws v w. Words_from_static 0x2000 3 = Some ws \<and> Words_get CpuId_kind ws (CpuId 0) = Some v \<and>
     Words_get CpuId_kind ws (CpuId 2) = Some w \<and> unat (word w) = 0x2010 \<and> separate (word v) 8 (word w) 8"
proof -
  obtain ws where ws: "Words_from_static 0x2000 3 = Some ws" "cpus ws = 3"
    by (simp add: from_static_span)
  obtain v w where g: "Words_get CpuId_kind ws (CpuId 0) = Some v"
      "Words_get CpuId_kind ws (CpuId 2) = Some w"
    using ws(2) by (simp add: Words_get_def CpuId_kind_def word_le_nat_alt)
  have a: "aligned 8 0x2000" "unat (0x2000::u64) + 8 * unat (3::usize) \<le> 2 ^ 64"
    by (simp_all add: aligned_def)
  from words_from_static [OF cpu_index.index_laws_axioms a] ws(1)
  have f: "\<forall>a. case Words_get CpuId_kind ws a of None \<Rightarrow> unat (3::usize) \<le> unat (get CpuId_kind a)
     | Some v \<Rightarrow> key v = a \<and> unat (get CpuId_kind a) < unat (3::usize) \<and> aligned 8 (word v) \<and>
         unat (word v) = unat (0x2000::u64) + 8 * unat (get CpuId_kind a) \<and>
         (\<forall>b w. Words_get CpuId_kind ws b = Some w \<longrightarrow> b \<noteq> a \<longrightarrow> separate (word v) 8 (word w) 8)"
    by simp
  then have "separate (word v) 8 (word w) 8" using g f [rule_format, of "CpuId 0"] by auto
  moreover have "unat (word w) = 0x2010" using g f [rule_format, of "CpuId 2"] by (simp add: CpuId_kind_def)
  ultimately show ?thesis using ws(1) g by blast
qed

end
