(* ===== verification/Display.thy ===== *)
theory Display
  imports Cpus Attempt Words
begin

text \<open>
  \<open>Display\<close> for \<open>Error\<close> of \<open>src/thread.rs\<close> and \<open>Debug\<close> for \<open>Words\<close> of \<open>src/words.rs\<close>: the text as
  the characters that the formatter writes, and that a reader gets back what was written.
\<close>

section \<open>The text\<close>

definition chars :: "string \<Rightarrow> nat list" where
  "chars s = map of_char s"

fun Error_fmt :: "error \<Rightarrow> nat list" where
  "Error_fmt (Miss seen) = chars ''compare miss: found '' @ dec (unat seen)"
| "Error_fmt Abort = chars ''index mismatch''"

section \<open>Reading it back\<close>

definition undec :: "nat list \<Rightarrow> nat" where
  "undec s = foldl (\<lambda>a c. 10 * a + (c - 48)) 0 s"

lemma undec_dec [simp]: "undec (dec n) = n"
proof (induction n rule: dec.induct)
  case (1 n)
  show ?case
  proof (cases "n < 10")
    case True
    then show ?thesis by (subst dec.simps) (simp add: undec_def)
  next
    case False
    then have "dec n = dec (n div 10) @ [48 + n mod 10]" by (subst dec.simps) simp
    then show ?thesis using 1 False by (simp add: undec_def)
  qed
qed

definition read_error :: "nat list \<Rightarrow> error" where
  "read_error s = (if take 20 s = chars ''compare miss: found '' then Miss (of_nat (undec (drop 20 s))) else Abort)"

lemma read_error_fmt: "read_error (Error_fmt e) = e"
  by (cases e) (simp_all add: read_error_def chars_def)

lemma Error_fmt_inj: "Error_fmt e = Error_fmt e' \<longleftrightarrow> e = e'"
  by (metis read_error_fmt)

section \<open>A region of words\<close>

text \<open>
  A pointer is written as \<open>0x\<close> and its lower-case hexadecimal digits. The form is that of the plain
  format \<open>{:?}\<close>, on one line.
\<close>

definition hex_digit :: "nat \<Rightarrow> nat" where
  "hex_digit d = (if d < 10 then 48 + d else 87 + d)"

fun hex :: "nat \<Rightarrow> nat list" where
  "hex n = (if n < 16 then [hex_digit n] else hex (n div 16) @ [hex_digit (n mod 16)])"

declare hex.simps [simp del]

definition Words_fmt :: "words \<Rightarrow> nat list" where
  "Words_fmt ws = chars ''Words { cpus: '' @ dec (unat (cpus ws)) @ chars '', base: 0x'' @
     hex (unat (Region_base (region ws))) @ chars '' }''"

definition unhex :: "nat list \<Rightarrow> nat" where
  "unhex s = foldl (\<lambda>a c. 16 * a + (if c < 58 then c - 48 else c - 87)) 0 s"

lemma unhex_hex [simp]: "unhex (hex n) = n"
proof (induction n rule: hex.induct)
  case (1 n)
  show ?case
  proof (cases "n < 16")
    case True
    then show ?thesis by (subst hex.simps) (simp add: unhex_def hex_digit_def)
  next
    case False
    then have "hex n = hex (n div 16) @ [hex_digit (n mod 16)]" by (subst hex.simps) simp
    then show ?thesis using 1 False by (simp add: unhex_def hex_digit_def)
  qed
qed

lemma hex_chars: "c \<in> set (hex n) \<Longrightarrow> c \<noteq> 32"
proof (induction n rule: hex.induct)
  case (1 n)
  then show ?case by (subst (asm) (2) hex.simps) (auto simp: hex_digit_def split: if_splits)
qed

text \<open>The count and the address of the region, read from the text.\<close>

definition read_words :: "nat list \<Rightarrow> nat \<times> nat" where
  "read_words s = (let t = drop 14 s; n = takeWhile (\<lambda>c. c \<noteq> 44) t in
     (undec n, unhex (takeWhile (\<lambda>c. c \<noteq> 32) (drop (length n + 10) t))))"

lemma read_words_fmt:
  "read_words (Words_fmt ws) = (unat (cpus ws), unat (Region_base (region ws)))"
proof -
  let ?d = "dec (unat (cpus ws))" and ?h = "hex (unat (Region_base (region ws)))"
  have d: "\<forall>c\<in>set ?d. c \<noteq> 44" using dec_digits [of "unat (cpus ws)"] by auto
  have "takeWhile (\<lambda>c. c \<noteq> 44) (?d @ chars '', base: 0x'' @ ?h @ chars '' }'') = ?d"
    by (subst takeWhile_append2) (use d in \<open>auto simp: chars_def\<close>)
  moreover have "takeWhile (\<lambda>c. c \<noteq> 32) (?h @ chars '' }'') = ?h"
    by (subst takeWhile_append2) (use hex_chars in \<open>auto simp: chars_def\<close>)
  ultimately show ?thesis by (simp add: read_words_def Words_fmt_def Let_def chars_def)
qed

end
