(* ===== verification/Asm.thy ===== *)
theory Asm
  imports Abi Attempt
begin

text \<open>
  The inline-assembly blocks of \<open>src/x86_64.rs\<close> and \<open>src/aarch64.rs\<close>, up to the
  instructions themselves: the operand list of \<open>core::arch::asm!\<close> and the register
  allocations it admits, the template with its numeric local labels and the \<open>__rseq_cs\<close>
  descriptor section, the linking of a template, and the execution of a linked block under a
  schedule of own instructions, interruptions and writes of other CPUs.
\<close>

section \<open>Operands and register allocation\<close>

datatype opnd =
    O_rseq | O_word | O_id | O_expect | O_new | O_got | O_tmp | O_current | O_status
  | O_count | O_prev | O_sum | O_side | O_side_new | O_other | O_other_expect | O_other_val
  | O_expect_not | O_offset | O_chase | O_ptr | O_base | O_slot

text \<open>
  One operand of \<open>asm!\<close>: \<open>in(reg)\<close> with a 64-bit or a 32-bit value, \<open>out(reg)\<close> and
  \<open>lateout(reg)\<close>.
\<close>

datatype bind = In opnd u64 | In32 opnd u32 | Out opnd | Lateout opnd

text \<open>
  The allocations the compiler may choose: an \<open>out\<close> register is shared with no other operand,
  a \<open>lateout\<close> register may be that of an input, and two 64-bit inputs may share a register
  when they have the same value.
\<close>

fun compat :: "(opnd \<Rightarrow> nat) \<Rightarrow> bind \<Rightarrow> bind \<Rightarrow> bool" where
  "compat al (In p v) (In q w) \<longleftrightarrow> (al p = al q \<longrightarrow> v = w)"
| "compat al (In p v) (In32 q w) \<longleftrightarrow> al p \<noteq> al q"
| "compat al (In32 p v) (In q w) \<longleftrightarrow> al p \<noteq> al q"
| "compat al (In32 p v) (In32 q w) \<longleftrightarrow> al p \<noteq> al q"
| "compat al (In p v) (Lateout q) \<longleftrightarrow> True"
| "compat al (In32 p v) (Lateout q) \<longleftrightarrow> True"
| "compat al (Lateout p) (In q w) \<longleftrightarrow> True"
| "compat al (Lateout p) (In32 q w) \<longleftrightarrow> True"
| "compat al (Lateout p) (Lateout q) \<longleftrightarrow> al p \<noteq> al q"
| "compat al (Lateout p) (Out q) \<longleftrightarrow> al p \<noteq> al q"
| "compat al (Out p) (In q w) \<longleftrightarrow> al p \<noteq> al q"
| "compat al (Out p) (In32 q w) \<longleftrightarrow> al p \<noteq> al q"
| "compat al (Out p) (Out q) \<longleftrightarrow> al p \<noteq> al q"
| "compat al (Out p) (Lateout q) \<longleftrightarrow> al p \<noteq> al q"
| "compat al (In p v) (Out q) \<longleftrightarrow> al p \<noteq> al q"
| "compat al (In32 p v) (Out q) \<longleftrightarrow> al p \<noteq> al q"

fun alloc_ok :: "(opnd \<Rightarrow> nat) \<Rightarrow> bind list \<Rightarrow> bool" where
  "alloc_ok al [] \<longleftrightarrow> True"
| "alloc_ok al (b # bs) \<longleftrightarrow> list_all (compat al b) bs \<and> alloc_ok al bs"

text \<open>
  The registers on entry. The upper half of the register of a 32-bit input is undefined: it
  keeps whatever the register held.
\<close>

fun bind_regs :: "(opnd \<Rightarrow> nat) \<Rightarrow> bind list \<Rightarrow> (nat \<Rightarrow> u64) \<Rightarrow> nat \<Rightarrow> u64" where
  "bind_regs al [] r = r"
| "bind_regs al (In p v # bs) r = bind_regs al bs (r(al p := v))"
| "bind_regs al (In32 p v # bs) r =
     bind_regs al bs (r(al p := or (and (r (al p)) (not (mask 32))) (ucast v)))"
| "bind_regs al (_ # bs) r = bind_regs al bs r"

definition low32 :: "u64 \<Rightarrow> u32" where
  "low32 x = ucast x"

lemma low32_ucast [simp]: "low32 (ucast v) = v"
  unfolding low32_def by (rule bit_word_eqI) (simp add: bit_simps)

text \<open>What an input operand guarantees of the registers while it is live.\<close>

fun bound :: "(opnd \<Rightarrow> nat) \<Rightarrow> (nat \<Rightarrow> u64) \<Rightarrow> bind \<Rightarrow> bool" where
  "bound al r (In p v) \<longleftrightarrow> r (al p) = v"
| "bound al r (In32 p v) \<longleftrightarrow> low32 (r (al p)) = v"
| "bound al r _ \<longleftrightarrow> True"

section \<open>Templates and linking\<close>

text \<open>A reference to a numeric local label: \<open>12f\<close> is \<open>Fwd 12\<close>, \<open>99b\<close> is \<open>Bwd 99\<close>.\<close>

datatype lref = Fwd nat | Bwd nat

datatype sect = TEXT | RSEQ_CS

text \<open>A resolved label. Text locations count items; descriptor locations count bytes.\<close>

datatype loc = Loc sect nat | Undefined

datatype quad = QLabel lref | QDiff lref lref

text \<open>The lines of a template; \<open>Ins\<close> holds an instruction of the target.\<close>

datatype 'i item =
    Pushsection | Popsection | Balign nat | Label nat | Long u32 | Quad quad | Ins 'i

fun place :: "sect \<Rightarrow> nat \<Rightarrow> nat \<Rightarrow> 'i item list \<Rightarrow> (loc \<times> 'i item) list" where
  "place s t d [] = []"
| "place s t d (Pushsection # xs) = place RSEQ_CS t d xs"
| "place s t d (Popsection # xs) = place TEXT t d xs"
| "place s t d (Balign n # xs) = place s t d xs"
| "place s t d (Label n # xs) =
     (Loc s (case s of TEXT \<Rightarrow> t | RSEQ_CS \<Rightarrow> d), Label n) # place s t d xs"
| "place TEXT t d (x # xs) = (Loc TEXT t, x) # place TEXT (Suc t) d xs"
| "place RSEQ_CS t d (x # xs) =
     (Loc RSEQ_CS d, x) # place RSEQ_CS t (d + (case x of Quad q \<Rightarrow> 8 | _ \<Rightarrow> 4)) xs"

fun find_label :: "nat \<Rightarrow> (loc \<times> 'i item) list \<Rightarrow> loc" where
  "find_label n [] = Undefined"
| "find_label n ((l, x) # xs) =
     (case x of Label k \<Rightarrow> if k = n then l else find_label n xs | _ \<Rightarrow> find_label n xs)"

text \<open>\<open>Nf\<close> is the next definition of label \<open>N\<close> in the text, \<open>Nb\<close> the last one before.\<close>

fun resolve :: "(loc \<times> 'i item) list \<Rightarrow> nat \<Rightarrow> lref \<Rightarrow> loc" where
  "resolve pl k (Fwd n) = find_label n (drop (Suc k) pl)"
| "resolve pl k (Bwd n) = find_label n (rev (take k pl))"

datatype 'j slot = Exec 'j | Raw u32

record 'j prog =
  slots :: "'j slot list"
  version :: u32
  cs_flags :: u32
  start_ip :: u64
  post_commit_offset :: u64
  abort_ip :: u64

fun loc_word :: "loc \<Rightarrow> u64 option" where
  "loc_word (Loc s n) = Some (of_nat n)"
| "loc_word Undefined = None"

fun quad_val :: "(loc \<times> 'i item) list \<Rightarrow> nat \<Rightarrow> quad \<Rightarrow> u64 option" where
  "quad_val pl k (QLabel r) = loc_word (resolve pl k r)"
| "quad_val pl k (QDiff r s) =
     (case loc_word (resolve pl k r) of None \<Rightarrow> None | Some x \<Rightarrow>
        (case loc_word (resolve pl k s) of None \<Rightarrow> None | Some y \<Rightarrow> Some (x - y)))"

text \<open>The 32-bit and 64-bit fields of the descriptor at a byte offset.\<close>

fun desc_long :: "nat \<Rightarrow> (loc \<times> 'i item) list \<Rightarrow> u32 option" where
  "desc_long off [] = None"
| "desc_long off ((l, x) # xs) =
     (case x of Long w \<Rightarrow> if l = Loc RSEQ_CS off then Some w else desc_long off xs
      | _ \<Rightarrow> desc_long off xs)"

fun desc_quad :: "nat \<Rightarrow> (loc \<times> 'i item) list \<Rightarrow> nat \<Rightarrow> (loc \<times> 'i item) list \<Rightarrow> u64 option" where
  "desc_quad off pl k [] = None"
| "desc_quad off pl k ((l, x) # xs) =
     (case x of Quad q \<Rightarrow> if l = Loc RSEQ_CS off then quad_val pl k q
                          else desc_quad off pl (Suc k) xs
      | _ \<Rightarrow> desc_quad off pl (Suc k) xs)"

fun text_slots ::
  "((lref \<Rightarrow> loc) \<Rightarrow> 'i \<Rightarrow> 'j) \<Rightarrow> (loc \<times> 'i item) list \<Rightarrow> nat \<Rightarrow> (loc \<times> 'i item) list \<Rightarrow> 'j slot list"
where
  "text_slots mp pl k [] = []"
| "text_slots mp pl k ((l, x) # xs) =
     (case l of Loc TEXT n \<Rightarrow>
        (case x of Ins i \<Rightarrow> [Exec (mp (resolve pl k) i)] | Long w \<Rightarrow> [Raw w] | _ \<Rightarrow> [])
      | _ \<Rightarrow> []) @ text_slots mp pl (Suc k) xs"

text \<open>Linking: the text with its labels resolved, and the descriptor (\<open>struct rseq_cs\<close>).\<close>

definition link :: "((lref \<Rightarrow> loc) \<Rightarrow> 'i \<Rightarrow> 'j) \<Rightarrow> 'i item list \<Rightarrow> 'j prog option" where
  "link mp xs = (let pl = place TEXT 0 0 xs in
     case (desc_long 0 pl, desc_long 4 pl, desc_quad 8 pl 0 pl, desc_quad 16 pl 0 pl,
           desc_quad 24 pl 0 pl) of
       (Some v, Some f, Some s, Some p, Some a) \<Rightarrow>
         Some \<lparr>slots = text_slots mp pl 0 pl, version = v, cs_flags = f, start_ip = s,
               post_commit_offset = p, abort_ip = a\<rparr>
     | _ \<Rightarrow> None)"

section \<open>Execution\<close>

record mstate =
  pc :: nat
  regs :: "nat \<Rightarrow> u64"
  zf :: bool
  mem :: mem

type_synonym store = "u64 \<times> u64"

text \<open>
  The own instructions executed so far: for each, the memory it saw and the store it made.
\<close>

type_synonym trace = "(mem \<times> store option) list"

text \<open>
  What happens between two observations of the thread: it executes one instruction, the
  kernel interrupts it and later resumes it, or other CPUs write to memory.
\<close>

datatype event = Go | Irq "mstate \<Rightarrow> mstate" | Par "mem \<Rightarrow> mem"

type_synonym 'j exec = "'j \<Rightarrow> mstate \<Rightarrow> (mstate \<times> store option) option"

definition step :: "'j exec \<Rightarrow> 'j prog \<Rightarrow> mstate \<Rightarrow> (mstate \<times> store option) option" where
  "step ex P st =
     (if pc st < length (slots P)
      then case slots P ! pc st of Exec i \<Rightarrow> ex i st | Raw w \<Rightarrow> None
      else None)"

text \<open>Control has left the block at its end.\<close>

definition finished :: "'j prog \<Rightarrow> mstate \<Rightarrow> bool" where
  "finished P st \<longleftrightarrow> length (slots P) \<le> pc st"

text \<open>Execution under a schedule; \<open>None\<close> is a fault (data executed, undefined label).\<close>

fun run :: "'j exec \<Rightarrow> 'j prog \<Rightarrow> event list \<Rightarrow> mstate \<Rightarrow> trace \<Rightarrow> (mstate \<times> trace) option" where
  "run ex P [] st tr = Some (st, tr)"
| "run ex P (e # es) st tr =
     (if finished P st then Some (st, tr)
      else case e of
        Go \<Rightarrow> (case step ex P st of None \<Rightarrow> None
               | Some (st', w) \<Rightarrow> run ex P es st' (tr @ [(mem st, w)]))
      | Irq f \<Rightarrow> run ex P es (f st) tr
      | Par f \<Rightarrow> run ex P es (st\<lparr>mem := f (mem st)\<rparr>) tr)"

text \<open>
  The environment respects a condition \<open>I\<close> on interruptions and \<open>R\<close> on writes of other
  CPUs, wherever the schedule puts them.
\<close>

fun legal_run :: "(mstate \<Rightarrow> mstate \<Rightarrow> bool) \<Rightarrow> (mem \<Rightarrow> mem \<Rightarrow> bool) \<Rightarrow> 'j exec \<Rightarrow> 'j prog \<Rightarrow>
    event list \<Rightarrow> mstate \<Rightarrow> bool" where
  "legal_run I R ex P [] st \<longleftrightarrow> True"
| "legal_run I R ex P (e # es) st \<longleftrightarrow>
     (if finished P st then True
      else case e of
        Go \<Rightarrow> (case step ex P st of None \<Rightarrow> True | Some (st', w) \<Rightarrow> legal_run I R ex P es st')
      | Irq f \<Rightarrow> I st (f st) \<and> legal_run I R ex P es (f st)
      | Par f \<Rightarrow> R (mem st) (f (mem st)) \<and> legal_run I R ex P es (st\<lparr>mem := f (mem st)\<rparr>))"

section \<open>The kernel's side of the contract\<close>

text \<open>The kernel's test that an instruction pointer is inside the critical section.\<close>

definition in_cs :: "'j prog \<Rightarrow> nat \<Rightarrow> bool" where
  "in_cs P ip \<longleftrightarrow> of_nat ip - start_ip P < post_commit_offset P"

text \<open>
  A descriptor the kernel accepts: version and flags zero, the abort handler outside the
  critical section and preceded by the registered signature. A thread whose descriptor fails
  this is killed with SIGSEGV.
\<close>

definition desc_valid :: "'j prog \<Rightarrow> u32 \<Rightarrow> bool" where
  "desc_valid P sig \<longleftrightarrow> version P = 0 \<and> cs_flags P = 0 \<and> \<not> in_cs P (unat (abort_ip P)) \<and>
     0 < unat (abort_ip P) \<and> unat (abort_ip P) < length (slots P) \<and>
     (case slots P ! (unat (abort_ip P) - 1) of Raw w \<Rightarrow> w = sig | Exec i \<Rightarrow> False)"

text \<open>
  What the crate relies on when the kernel resumes an interrupted thread (\<open>rseq(2)\<close>): the
  registers are restored; outside the critical section the thread continues where it was;
  inside it, with the descriptor installed in \<open>rseq_cs\<close> and valid, it continues at the abort
  handler. Nothing is said of the memory, nor of a critical section entered without the
  descriptor.
\<close>

definition kernel_resume :: "'j prog \<Rightarrow> u32 \<Rightarrow> u64 \<Rightarrow> u64 \<Rightarrow> mstate \<Rightarrow> mstate \<Rightarrow> bool" where
  "kernel_resume P sig cs ar st st' \<longleftrightarrow>
     regs st' = regs st \<and> zf st' = zf st \<and>
     (\<not> in_cs P (pc st) \<longrightarrow> pc st' = pc st) \<and>
     (in_cs P (pc st) \<and> load64 (mem st) (ar + of_nat CS_OFF) = cs \<and> desc_valid P sig \<longrightarrow>
        pc st' = unat (abort_ip P))"

section \<open>A block as a function\<close>

text \<open>
  How the compiler and the machine run one block: the register allocation, the registers and
  the flag on entry, the address the linker gives the descriptor, and the schedule.
\<close>

record asm_env =
  alloc :: "opnd \<Rightarrow> nat"
  junk :: "nat \<Rightarrow> u64"
  zf_in :: bool
  cs_addr :: u64
  events :: "event list"

text \<open>The outcome of a call: a fault, not finished when the schedule ends, or a return.\<close>

datatype 'a call = Fault | Running | Returned 'a trace mem

definition entry :: "bind list \<Rightarrow> asm_env \<Rightarrow> mem \<Rightarrow> mstate" where
  "entry binds env m = \<lparr>pc = 0, regs = bind_regs (alloc env) binds (junk env),
     zf = zf_in env, mem = m\<rparr>"

definition asm_block ::
  "((opnd \<Rightarrow> nat) \<Rightarrow> u64 \<Rightarrow> 'j exec) \<Rightarrow> ((lref \<Rightarrow> loc) \<Rightarrow> 'i \<Rightarrow> 'j) \<Rightarrow> 'i item list \<Rightarrow> bind list \<Rightarrow>
   opnd \<Rightarrow> asm_env \<Rightarrow> mem \<Rightarrow> attempt call" where
  "asm_block ex mp tmpl binds res env m =
     (case link mp tmpl of None \<Rightarrow> Fault
      | Some P \<Rightarrow>
         (case run (ex (alloc env) (cs_addr env)) P (events env) (entry binds env m) [] of
            None \<Rightarrow> Fault
          | Some (st, tr) \<Rightarrow>
             (if finished P st
              then Returned (from_status (regs st (alloc env O_status)) (regs st (alloc env res)))
                     tr (mem st)
              else Running)))"

section \<open>Facts about operands\<close>

lemma compat_out: "compat al (Out p) c \<Longrightarrow> (case c of In q w \<Rightarrow> al p \<noteq> al q
    | In32 q w \<Rightarrow> al p \<noteq> al q | Out q \<Rightarrow> al p \<noteq> al q | Lateout q \<Rightarrow> al p \<noteq> al q)"
  by (cases c) auto

fun writes :: "(opnd \<Rightarrow> nat) \<Rightarrow> bind \<Rightarrow> nat \<Rightarrow> bool" where
  "writes al (In p v) x \<longleftrightarrow> al p = x"
| "writes al (In32 p v) x \<longleftrightarrow> al p = x"
| "writes al _ x \<longleftrightarrow> False"

lemma bind_regs_other: "\<forall>b \<in> set bs. \<not> writes al b x \<Longrightarrow> bind_regs al bs r x = r x"
  by (induction al bs r rule: bind_regs.induct) auto

lemma low32_or_high: "low32 (or (and x (not (mask 32))) (ucast v)) = v"
  unfolding low32_def by (rule bit_word_eqI) (simp add: bit_simps)

lemma bind_regs_Cons: "bind_regs al (c # bs) r = bind_regs al bs (bind_regs al [c] r)"
  by (cases c) simp_all

lemma bind_regs_one: "bound al r b \<Longrightarrow> compat al b c \<Longrightarrow> bound al (bind_regs al [c] r) b"
  by (cases b; cases c) auto

lemma bind_regs_keep:
  "bound al r b \<Longrightarrow> list_all (compat al b) bs \<Longrightarrow> bound al (bind_regs al bs r) b"
proof (induction bs arbitrary: r)
  case Nil
  then show ?case by simp
next
  case (Cons c bs)
  then have "bound al (bind_regs al [c] r) b" by (auto intro: bind_regs_one)
  then show ?case using Cons by (subst bind_regs_Cons) auto
qed

lemma bind_regs_self: "bound al (bind_regs al [c] r) c"
  by (cases c) (auto simp: low32_or_high)

text \<open>On entry every input operand is in its register.\<close>

lemma bind_regs_bound: "alloc_ok al bs \<Longrightarrow> b \<in> set bs \<Longrightarrow> bound al (bind_regs al bs r) b"
proof (induction bs arbitrary: r)
  case Nil
  then show ?case by simp
next
  case (Cons c bs)
  show ?case
  proof (cases "b = c")
    case True
    then show ?thesis using Cons.prems(1)
      by (subst bind_regs_Cons) (auto intro: bind_regs_keep bind_regs_self)
  next
    case False
    then show ?thesis using Cons by (subst bind_regs_Cons) auto
  qed
qed

section \<open>Runs\<close>

lemma run_finished: "finished P st \<Longrightarrow> run ex P es st tr = Some (st, tr)"
  by (cases es) simp_all

lemma run_append:
  "run ex P (es @ fs) st tr =
     (case run ex P es st tr of None \<Rightarrow> None | Some (st', tr') \<Rightarrow> run ex P fs st' tr')"
  by (induction ex P es st tr rule: run.induct)
     (auto split: event.splits option.splits simp: run_finished)

text \<open>
  An assertion that holds on entry, is kept by every own instruction (which then cannot
  fault), and is stable under the environment, holds wherever the run gets to.
\<close>

lemma run_invariant:
  assumes "A st tr" and "legal_run I R ex P es st"
    and own: "\<And>st tr. A st tr \<Longrightarrow> \<not> finished P st \<Longrightarrow>
      \<exists>st' w. step ex P st = Some (st', w) \<and> A st' (tr @ [(mem st, w)])"
    and irq: "\<And>st st' tr. A st tr \<Longrightarrow> \<not> finished P st \<Longrightarrow> I st st' \<Longrightarrow> A st' tr"
    and par: "\<And>st m' tr. A st tr \<Longrightarrow> \<not> finished P st \<Longrightarrow> R (mem st) m' \<Longrightarrow>
      A (st\<lparr>mem := m'\<rparr>) tr"
  shows "\<exists>st' tr'. run ex P es st tr = Some (st', tr') \<and> A st' tr'"
  using assms(1,2)
proof (induction es arbitrary: st tr)
  case Nil
  then show ?case by simp
next
  case (Cons e es)
  show ?case
  proof (cases "finished P st")
    case True
    then show ?thesis using Cons.prems by simp
  next
    case False
    show ?thesis
    proof (cases e)
      case Go
      obtain st' w where "step ex P st = Some (st', w)" "A st' (tr @ [(mem st, w)])"
        using own [OF Cons.prems(1) False] by blast
      then show ?thesis using Cons False Go by simp
    next
      case (Irq f)
      then have "A (f st) tr" using Cons.prems False irq by simp
      then show ?thesis using Cons Irq False by simp
    next
      case (Par f)
      then have "A (st\<lparr>mem := f (mem st)\<rparr>) tr" using Cons.prems False par by simp
      then show ?thesis using Cons Par False by simp
    qed
  qed
qed

text \<open>
  Where every own instruction moves forward, as many instructions in a row as the block has
  slots reach its end.
\<close>

lemma run_go_finishes:
  assumes "A st tr" and "length (slots P) \<le> pc st + n"
    and own: "\<And>st tr. A st tr \<Longrightarrow> \<not> finished P st \<Longrightarrow>
      \<exists>st' w. step ex P st = Some (st', w) \<and> A st' (tr @ [(mem st, w)]) \<and> pc st < pc st'"
  shows "\<exists>st' tr'. run ex P (replicate n Go) st tr = Some (st', tr') \<and> finished P st'"
  using assms(1,2)
proof (induction n arbitrary: st tr)
  case 0
  then show ?case by (simp add: finished_def)
next
  case (Suc n)
  show ?case
  proof (cases "finished P st")
    case True
    then show ?thesis by simp
  next
    case False
    obtain st' w where "step ex P st = Some (st', w)" "A st' (tr @ [(mem st, w)])" "pc st < pc st'"
      using own [OF Suc.prems(1) False] by blast
    then show ?thesis using Suc False by simp
  qed
qed

end
