(* ===== verification/Cs_Spec.thy ===== *)
theory Cs_Spec
  imports Asm
begin

text \<open>
  What a critical section promises, independently of the target: the six word operations as
  atomic steps on memory, the memory each reads and writes, the conditions on the environment
  under which a call is specified, the promise itself, and the interfaces: what a module with
  critical sections provides to \<open>src/thread.rs\<close>.
\<close>

section \<open>Calls\<close>

datatype cs_op =
    Compare_exchange u64 usize usize
  | Fetch_add u64 usize
  | Store_if u64 usize usize u64 usize
  | Compare_exchange_if u64 usize usize u64 usize
  | Load_if_ne u64 usize isize
  | Fetch_add_at u64 isize usize

record cs_call =
  off :: nat
  ar :: u64
  ident :: u32
  oper :: cs_op

text \<open>The thread's index is the one the word was picked with.\<close>

definition matches :: "cs_call \<Rightarrow> mem \<Rightarrow> bool" where
  "matches c m \<longleftrightarrow> load32 m (ar c + of_nat (off c)) = ident c"

section \<open>The atomic operations\<close>

text \<open>The outcome and the one committing store, for an index that matches.\<close>

fun op_spec :: "cs_op \<Rightarrow> mem \<Rightarrow> attempt \<times> store option" where
  "op_spec (Compare_exchange w e n) m =
     (let v = load64 m w in if v \<noteq> e then (AMiss v, None) else (AOk v, Some (w, n)))"
| "op_spec (Fetch_add w k) m = (let v = load64 m w in (AOk v, Some (w, v + k)))"
| "op_spec (Store_if w e n s sn) m =
     (let v = load64 m w in if v \<noteq> e then (AMiss v, None) else (AOk v, Some (w, n)))"
| "op_spec (Compare_exchange_if w e n x xe) m =
     (let v = load64 m w; y = load64 m x in
      if v \<noteq> e then (AMiss v, None) else if y \<noteq> xe then (AMiss y, None)
      else (AOk v, Some (w, n)))"
| "op_spec (Load_if_ne w en d) m =
     (let v = load64 m w in
      if v = en then (AMiss v, None) else (AOk v, Some (w, load64 m (v + d))))"
| "op_spec (Fetch_add_at p d k) m =
     (let s = load64 m (load64 m p + d); v = load64 m s in (AOk v, Some (s, v + k)))"

definition cs_spec :: "cs_call \<Rightarrow> mem \<Rightarrow> attempt \<times> store option" where
  "cs_spec c m = (if matches c m then op_spec (oper c) m else (AAbort, None))"

text \<open>The scratch store a section may make before it commits.\<close>

fun scratch :: "cs_op \<Rightarrow> store option" where
  "scratch (Store_if w e n s sn) = Some (s, sn)"
| "scratch _ = None"

text \<open>A commit happens in a memory in which the scratch store is there already.\<close>

fun prepared :: "cs_op \<Rightarrow> mem \<Rightarrow> bool" where
  "prepared (Store_if w e n s sn) m \<longleftrightarrow> load64 m s = sn"
| "prepared _ m \<longleftrightarrow> True"

text \<open>The words an operation reads or writes when the index matches.\<close>

fun footprint :: "cs_op \<Rightarrow> mem \<Rightarrow> u64 list" where
  "footprint (Compare_exchange w e n) m = [w]"
| "footprint (Fetch_add w k) m = [w]"
| "footprint (Store_if w e n s sn) m = [w, s]"
| "footprint (Compare_exchange_if w e n x xe) m = [w, x]"
| "footprint (Load_if_ne w en d) m =
     (if load64 m w = en then [w] else [w, load64 m w + d])"
| "footprint (Fetch_add_at p d k) m =
     [p, load64 m p + d, load64 m (load64 m p + d)]"

fun side_apart :: "cs_op \<Rightarrow> bool" where
  "side_apart (Store_if w e n s sn) \<longleftrightarrow> separate s 8 w 8"
| "side_apart _ \<longleftrightarrow> True"

section \<open>The environment\<close>

text \<open>
  The safety condition of a call: the words it touches are not in the thread's own area, and
  \<open>side\<close> does not overlap \<open>word\<close>. It is only needed while the index matches.
\<close>

definition valid :: "cs_call \<Rightarrow> mem \<Rightarrow> bool" where
  "valid c m \<longleftrightarrow> (matches c m \<longrightarrow>
     (\<forall>a \<in> set (footprint (oper c) m). separate (ar c) 32 a 8) \<and> side_apart (oper c))"

text \<open>
  What other CPUs may do while the thread runs: its area is its own and the kernel's, and the
  words of its index are left alone. The words of another index may change at any time.
\<close>

definition par_ok :: "cs_call \<Rightarrow> mem \<Rightarrow> mem \<Rightarrow> bool" where
  "par_ok c m m' \<longleftrightarrow> (\<forall>i<32. m' (ar c + of_nat i) = m (ar c + of_nat i)) \<and>
     (matches c m \<longrightarrow> (\<forall>a \<in> set (footprint (oper c) m). load64 m' a = load64 m a))"

text \<open>
  What an interruption may do: the thread is resumed as the kernel promises, and everything
  in memory may have changed, the index included, as long as the call is still safe.
\<close>

definition irq_ok :: "'j prog \<Rightarrow> u32 \<Rightarrow> u64 \<Rightarrow> cs_call \<Rightarrow> mstate \<Rightarrow> mstate \<Rightarrow> bool" where
  "irq_ok P sig cs c st st' \<longleftrightarrow> kernel_resume P sig cs (ar c) st st' \<and> valid c (mem st')"

definition legal_block ::
  "((opnd \<Rightarrow> nat) \<Rightarrow> u64 \<Rightarrow> 'j exec) \<Rightarrow> ((lref \<Rightarrow> loc) \<Rightarrow> 'i \<Rightarrow> 'j) \<Rightarrow> 'i item list \<Rightarrow> bind list \<Rightarrow>
   u32 \<Rightarrow> cs_call \<Rightarrow> asm_env \<Rightarrow> mem \<Rightarrow> bool" where
  "legal_block ex mp tmpl binds sig c env m \<longleftrightarrow>
     id_off_ok (off c) \<and> alloc_ok (alloc env) binds \<and> valid c m \<and>
     (case link mp tmpl of None \<Rightarrow> True
      | Some P \<Rightarrow> legal_run (irq_ok P sig (cs_addr env) c) (par_ok c)
          (ex (alloc env) (cs_addr env)) P (events env) (entry binds env m))"

text \<open>From some point on the thread is left alone for \<open>n\<close> instructions.\<close>

definition quiet :: "nat \<Rightarrow> asm_env \<Rightarrow> bool" where
  "quiet n env \<longleftrightarrow> n \<le> length (events env) \<and>
     drop (length (events env) - n) (events env) = replicate n Go"

section \<open>The promise\<close>

text \<open>The stores of a trace that are neither the descriptor install nor scratch.\<close>

definition commits :: "cs_call \<Rightarrow> trace \<Rightarrow> store list" where
  "commits c tr = filter (\<lambda>x. fst x \<noteq> ar c + of_nat CS_OFF \<and> Some x \<noteq> scratch (oper c))
     (List.map_filter snd tr)"

text \<open>
  The call took effect at one instant: at one of its instructions the memory was such that the
  atomic operation gives this outcome; if that includes a store, it is the store of that very
  instruction, made when the scratch store is in place, and no other store commits.
\<close>

definition linearized :: "cs_call \<Rightarrow> trace \<Rightarrow> attempt \<Rightarrow> bool" where
  "linearized c tr a \<longleftrightarrow> (\<exists>(m, w) \<in> set tr. \<exists>s. cs_spec c m = (a, s) \<and>
     (s \<noteq> None \<longrightarrow> w = s \<and> prepared (oper c) m) \<and> commits c tr = (case s of None \<Rightarrow> [] | Some x \<Rightarrow> [x]))"

lemma commits_Nil [simp]: "commits c [] = []"
  by (simp add: commits_def List.map_filter_def)

lemma commits_None [simp]: "commits c (tr @ [(m, None)]) = commits c tr"
  by (simp add: commits_def List.map_filter_def)

lemma commits_install [simp]:
  "commits c (tr @ [(m, Some (ar c + of_nat CS_OFF, v))]) = commits c tr"
  by (simp add: commits_def List.map_filter_def)

lemma commits_scratch [asm_simps]:
  "scratch (oper c) = Some x \<Longrightarrow> commits c (tr @ [(m, Some x)]) = commits c tr"
  by (simp add: commits_def List.map_filter_def)

lemma commits_store:
  "fst x \<noteq> ar c + of_nat CS_OFF \<Longrightarrow> Some x \<noteq> scratch (oper c) \<Longrightarrow>
    commits c (tr @ [(m, Some x)]) = commits c tr @ [x]"
  by (simp add: commits_def List.map_filter_def)

lemma linearized_None [simp]: "linearized c tr a \<Longrightarrow> linearized c (tr @ [(m, None)]) a"
  by (auto simp: linearized_def)

lemma linearized_read:
  "commits c tr = [] \<Longrightarrow> cs_spec c m = (a, None) \<Longrightarrow> linearized c (tr @ [(m, None)]) a"
  by (auto simp: linearized_def)

lemma linearized_commit:
  "commits c tr = [] \<Longrightarrow> cs_spec c m = (a, Some x) \<Longrightarrow> prepared (oper c) m \<Longrightarrow> fst x \<noteq> ar c + of_nat CS_OFF \<Longrightarrow>
    Some x \<noteq> scratch (oper c) \<Longrightarrow> linearized c (tr @ [(m, Some x)]) a"
  by (auto simp: linearized_def commits_store)

section \<open>The interface\<close>

text \<open>
  What \<open>src/thread.rs\<close> imports as \<open>crate::cs\<close>: \<open>src/lib.rs\<close> binds the name to one of the
  three modules. The functions take \<open>ID_OFF\<close> (a const generic), the area, the word, the index
  and the operands of the operation.
\<close>

record cs_module =
  cs_compare_exchange :: "nat \<Rightarrow> u64 \<Rightarrow> u64 \<Rightarrow> u32 \<Rightarrow> usize \<Rightarrow> usize \<Rightarrow> asm_env \<Rightarrow> mem \<Rightarrow> attempt call"
  cs_fetch_add :: "nat \<Rightarrow> u64 \<Rightarrow> u64 \<Rightarrow> u32 \<Rightarrow> usize \<Rightarrow> asm_env \<Rightarrow> mem \<Rightarrow> attempt call"
  cs_store_if :: "nat \<Rightarrow> u64 \<Rightarrow> u64 \<Rightarrow> u32 \<Rightarrow> usize \<Rightarrow> usize \<Rightarrow> u64 \<Rightarrow> usize \<Rightarrow> asm_env \<Rightarrow> mem \<Rightarrow>
    attempt call"
  cs_compare_exchange_if :: "nat \<Rightarrow> u64 \<Rightarrow> u64 \<Rightarrow> u32 \<Rightarrow> usize \<Rightarrow> usize \<Rightarrow> u64 \<Rightarrow> usize \<Rightarrow>
    asm_env \<Rightarrow> mem \<Rightarrow> attempt call"
  cs_load_if_ne :: "nat \<Rightarrow> u64 \<Rightarrow> u64 \<Rightarrow> u32 \<Rightarrow> usize \<Rightarrow> isize \<Rightarrow> asm_env \<Rightarrow> mem \<Rightarrow> attempt call"
  cs_fetch_add_at :: "nat \<Rightarrow> u64 \<Rightarrow> u64 \<Rightarrow> u32 \<Rightarrow> isize \<Rightarrow> usize \<Rightarrow> asm_env \<Rightarrow> mem \<Rightarrow> attempt call"

fun run_op :: "cs_module \<Rightarrow> cs_op \<Rightarrow> nat \<Rightarrow> u64 \<Rightarrow> u32 \<Rightarrow> asm_env \<Rightarrow> mem \<Rightarrow> attempt call" where
  "run_op M (Compare_exchange w e n) k a i = cs_compare_exchange M k a w i e n"
| "run_op M (Fetch_add w n) k a i = cs_fetch_add M k a w i n"
| "run_op M (Store_if w e n s sn) k a i = cs_store_if M k a w i e n s sn"
| "run_op M (Compare_exchange_if w e n x xe) k a i = cs_compare_exchange_if M k a w i e n x xe"
| "run_op M (Load_if_ne w en d) k a i = cs_load_if_ne M k a w i en d"
| "run_op M (Fetch_add_at p d n) k a i = cs_fetch_add_at M k a p i d n"

definition call_of :: "cs_module \<Rightarrow> cs_call \<Rightarrow> asm_env \<Rightarrow> mem \<Rightarrow> attempt call" where
  "call_of M c = run_op M (oper c) (off c) (ar c) (ident c)"

text \<open>An upper bound on the length of the blocks, in instructions.\<close>

definition BLOCK_MAX :: nat where "BLOCK_MAX = 22"

text \<open>The weakest promise, which the stub for other targets keeps as well.\<close>

locale cs_safe =
  fixes M :: cs_module and legal :: "cs_call \<Rightarrow> asm_env \<Rightarrow> mem \<Rightarrow> bool"
  assumes no_fault: "legal c env m \<Longrightarrow> call_of M c env m \<noteq> Fault"
    and no_torn: "legal c env m \<Longrightarrow> call_of M c env m = Returned a tr m' \<Longrightarrow>
      linearized c tr a \<or> a = AAbort \<and> commits c tr = []"
begin

text \<open>Only a success commits, and it commits once.\<close>

lemma commits_of_return:
  assumes "legal c env m" "call_of M c env m = Returned a tr m'"
  shows "if \<exists>v. a = AOk v then length (commits c tr) = 1 else commits c tr = []"
  using no_torn [OF assms]
  by (cases "oper c")
     (auto simp: linearized_def cs_spec_def Let_def split: if_splits option.splits)

end

text \<open>The promise of the two targets with a critical section.\<close>

locale cs_atomic =
  fixes M :: cs_module and legal :: "cs_call \<Rightarrow> asm_env \<Rightarrow> mem \<Rightarrow> bool"
  assumes faultless: "legal c env m \<Longrightarrow> call_of M c env m \<noteq> Fault"
    and atomic: "legal c env m \<Longrightarrow> call_of M c env m = Returned a tr m' \<Longrightarrow> linearized c tr a"
    and returns: "legal c env m \<Longrightarrow> quiet BLOCK_MAX env \<Longrightarrow> call_of M c env m \<noteq> Running"
begin

text \<open>An abort is an index mismatch, and nothing else.\<close>

lemma abort_is_mismatch:
  assumes "legal c env m" "call_of M c env m = Returned AAbort tr m'"
  shows "\<exists>(m, w) \<in> set tr. \<not> matches c m"
proof -
  have "fst (op_spec (oper c) m) \<noteq> AAbort" for m by (cases "oper c") (auto simp: Let_def)
  then have "cs_spec c m = (AAbort, s) \<Longrightarrow> \<not> matches c m" for m s
    by (metis cs_spec_def fst_conv)
  then show ?thesis using atomic [OF assms] unfolding linearized_def by blast
qed

lemma total:
  assumes "legal c env m" "quiet BLOCK_MAX env"
  shows "\<exists>a tr m'. call_of M c env m = Returned a tr m' \<and> linearized c tr a"
  using faultless [OF assms(1)] returns [OF assms] atomic [OF assms(1)]
  by (cases "call_of M c env m") auto

end

sublocale cs_atomic \<subseteq> cs_safe
proof
  fix c env m assume l: "legal c env m"
  then show "call_of M c env m \<noteq> Fault" by (rule faultless)
  fix a tr m' assume "call_of M c env m = Returned a tr m'"
  with l show "linearized c tr a \<or> a = AAbort \<and> commits c tr = []" by (blast intro: atomic)
qed

end
