(* ===== verification/Outline.thy ===== *)
theory Outline
  imports Cs_Spec
begin

text \<open>
  Proof outlines of the assembly blocks: one assertion per program point, the verification
  conditions (each instruction leads forward to a point whose assertion holds; the assertions
  survive interruptions and the writes of other CPUs), and the rule that derives the promise of
  \<open>Cs_Spec\<close> from them. The assertions common to both targets are collected at the end.
\<close>

section \<open>Program outlines\<close>

text \<open>Outside the section, before it: the inputs are live and nothing is committed.\<close>

definition ready :: "cs_call \<Rightarrow> bind list \<Rightarrow> asm_env \<Rightarrow> mstate \<Rightarrow> trace \<Rightarrow> bool" where
  "ready c binds env st tr \<longleftrightarrow> list_all (bound (alloc env) (regs st)) binds \<and>
     valid c (mem st) \<and> commits c tr = []"

text \<open>Inside the section: moreover the descriptor is installed.\<close>

definition inside :: "cs_call \<Rightarrow> bind list \<Rightarrow> asm_env \<Rightarrow> mstate \<Rightarrow> trace \<Rightarrow> bool" where
  "inside c binds env st tr \<longleftrightarrow> ready c binds env st tr \<and>
     load64 (mem st) (ar c + of_nat CS_OFF) = cs_addr env"

type_synonym outline = "(mstate \<Rightarrow> trace \<Rightarrow> bool) list"

definition holds :: "outline \<Rightarrow> mstate \<Rightarrow> trace \<Rightarrow> bool" where
  "holds T st tr \<longleftrightarrow> pc st < length T \<and> (T ! pc st) st tr"

text \<open>What a write of another CPU leaves visible to the call.\<close>

definition same_view :: "cs_call \<Rightarrow> mem \<Rightarrow> mem \<Rightarrow> bool" where
  "same_view c m m' \<longleftrightarrow> matches c m' = matches c m \<and>
     (matches c m \<longrightarrow> (\<forall>a \<in> set (footprint (oper c) m). load64 m' a = load64 m a))"

text \<open>
  A store of an instruction, as an update of the memory, and the stores a section may make: the
  install of the descriptor, and, while the index matches, the scratch store of the operation
  and the store of the atomic operation on the memory as it is, after the scratch store.
\<close>

definition put :: "store option \<Rightarrow> mem \<Rightarrow> mem" where
  "put s m = (case s of None \<Rightarrow> m | Some (a, v) \<Rightarrow> store64 m a v)"

definition store_ok :: "cs_call \<Rightarrow> mem \<Rightarrow> store option \<Rightarrow> bool" where
  "store_ok c m w \<longleftrightarrow> (case w of None \<Rightarrow> True | Some x \<Rightarrow> fst x = ar c + of_nat CS_OFF \<or>
     matches c m \<and> (scratch (oper c) = Some x \<or>
       snd (op_spec (oper c) m) = Some x \<and> prepared (oper c) m))"

text \<open>
  The verification conditions of one program point: the instruction there runs, makes only
  stores it may make, and leads forward to a point whose assertion holds; inside the section the inputs are live and the
  descriptor is installed, outside it the assertion depends on the registers, the flag and the
  safety of the call only; and other CPUs cannot break it.
\<close>

definition slot_ok ::
  "outline \<Rightarrow> 'j exec \<Rightarrow> 'j prog \<Rightarrow> cs_call \<Rightarrow> bind list \<Rightarrow> asm_env \<Rightarrow> nat \<Rightarrow> bool" where
  "slot_ok T ex P c binds env k \<longleftrightarrow>
     (\<forall>st tr. (T ! k) st tr \<longrightarrow> pc st = k \<longrightarrow> (\<exists>st' w. step ex P st = Some (st', w) \<and>
        k < pc st' \<and> holds T st' (tr @ [(mem st, w)]) \<and> store_ok c (mem st) w \<and>
        mem st' = put w (mem st))) \<and>
     (if in_cs P k then \<forall>st tr. (T ! k) st tr \<longrightarrow> inside c binds env st tr
      else \<forall>st st' tr. (T ! k) st tr \<longrightarrow> regs st' = regs st \<longrightarrow> zf st' = zf st \<longrightarrow>
        valid c (mem st') \<longrightarrow> (T ! k) st' tr) \<and>
     (\<forall>st m' tr. (T ! k) st tr \<longrightarrow> same_view c (mem st) m' \<longrightarrow>
        (ready c binds env st tr \<longrightarrow> ready c binds env (st\<lparr>mem := m'\<rparr>) tr) \<longrightarrow>
        (inside c binds env st tr \<longrightarrow> inside c binds env (st\<lparr>mem := m'\<rparr>) tr) \<longrightarrow>
        (T ! k) (st\<lparr>mem := m'\<rparr>) tr)"

text \<open>The verification conditions of an outline.\<close>

definition outline_ok ::
  "outline \<Rightarrow> 'j exec \<Rightarrow> 'j prog \<Rightarrow> u32 \<Rightarrow> cs_call \<Rightarrow> bind list \<Rightarrow> opnd \<Rightarrow> asm_env \<Rightarrow> bool" where
  "outline_ok T ex P sig c binds res env \<longleftrightarrow>
     length T = Suc (length (slots P)) \<and> desc_valid P sig \<and>
     (\<forall>st tr. ready c binds env st tr \<longrightarrow> (T ! 0) st tr \<and> (T ! unat (abort_ip P)) st tr) \<and>
     (\<forall>st tr. (T ! length (slots P)) st tr \<longrightarrow>
        linearized c tr (from_status (regs st (alloc env O_status)) (regs st (alloc env res)))) \<and>
     list_all (slot_ok T ex P c binds env) [0..<length (slots P)]"

section \<open>Stability\<close>

lemma footprint_cong:
  "\<forall>a \<in> set (footprint p m). load64 m' a = load64 m a \<Longrightarrow> footprint p m' = footprint p m"
  by (cases p) auto

lemma par_matches: "id_off_ok (off c) \<Longrightarrow> par_ok c m m' \<Longrightarrow> matches c m' = matches c m"
  using load_id_cong [of "off c" m' "ar c" m] by (simp add: matches_def par_ok_def)

lemma par_footprint:
  "par_ok c m m' \<Longrightarrow> matches c m \<Longrightarrow> footprint (oper c) m' = footprint (oper c) m"
  by (rule footprint_cong) (simp add: par_ok_def)

lemma par_load:
  "par_ok c m m' \<Longrightarrow> matches c m \<Longrightarrow> a \<in> set (footprint (oper c) m) \<Longrightarrow>
    load64 m' a = load64 m a"
  by (simp add: par_ok_def)

lemma par_same_view: "id_off_ok (off c) \<Longrightarrow> par_ok c m m' \<Longrightarrow> same_view c m m'"
  by (simp add: same_view_def par_matches par_load)

lemma par_valid: "id_off_ok (off c) \<Longrightarrow> par_ok c m m' \<Longrightarrow> valid c m \<Longrightarrow> valid c m'"
  by (auto simp: valid_def par_matches par_footprint)

lemma par_cs:
  "par_ok c m m' \<Longrightarrow> load64 m' (ar c + of_nat CS_OFF) = load64 m (ar c + of_nat CS_OFF)"
  by (simp add: par_ok_def load_cs_cong)

lemma matches_store_cs [simp]:
  "id_off_ok (off c) \<Longrightarrow> matches c (store64 m (ar c + of_nat CS_OFF) v) = matches c m"
  by (simp add: matches_def mem_simps)

lemma footprint_store_cs:
  "id_off_ok (off c) \<Longrightarrow> valid c m \<Longrightarrow> matches c m \<Longrightarrow>
    footprint (oper c) (store64 m (ar c + of_nat CS_OFF) v) = footprint (oper c) m"
  by (rule footprint_cong) (simp add: valid_def mem_simps)

lemma valid_store_cs [simp]:
  "id_off_ok (off c) \<Longrightarrow> valid c m \<Longrightarrow> valid c (store64 m (ar c + of_nat CS_OFF) v)"
  by (auto simp: valid_def footprint_store_cs [unfolded valid_def])

lemma ready_par:
  "id_off_ok (off c) \<Longrightarrow> ready c bs env st tr \<Longrightarrow> par_ok c (mem st) m' \<Longrightarrow>
    ready c bs env (st\<lparr>mem := m'\<rparr>) tr"
  by (auto simp: ready_def par_valid)

lemma inside_par:
  "id_off_ok (off c) \<Longrightarrow> inside c bs env st tr \<Longrightarrow> par_ok c (mem st) m' \<Longrightarrow>
    inside c bs env (st\<lparr>mem := m'\<rparr>) tr"
  by (auto simp: inside_def ready_par par_cs)

section \<open>Facts for symbolic execution\<close>

lemma separate_cs: "separate a 32 w 8 \<Longrightarrow> w \<noteq> a + of_nat CS_OFF"
proof -
  assume "separate a 32 w 8"
  then have h: "\<forall>i<32. \<forall>j<8. a + of_nat i \<noteq> w + of_nat j" by (simp only: separate_def)
  show ?thesis using h [rule_format, of 8 0] by (auto simp: CS_OFF_def)
qed

lemma matches_fold [asm_simps]:
  "load32 m (ar c + of_nat (off c)) = ident c \<longleftrightarrow> matches c m"
  by (simp add: matches_def)

lemma separate_neq: "separate a 8 b 8 \<Longrightarrow> a \<noteq> b"
proof -
  assume "separate a 8 b 8"
  then have h: "\<forall>i<8. \<forall>j<8. a + of_nat i \<noteq> b + of_nat j" by (simp only: separate_def)
  show ?thesis using h [rule_format, of 0 0] by auto
qed

lemma spec_store_commits:
  "valid c m \<Longrightarrow> cs_spec c m = (a, Some x) \<Longrightarrow>
    fst x \<noteq> ar c + of_nat CS_OFF \<and> Some x \<noteq> scratch (oper c)"
  by (cases "oper c")
     (auto simp: valid_def cs_spec_def Let_def dest: separate_cs separate_neq split: if_splits)

lemma linearized_store [asm_simps]:
  "commits c tr = [] \<Longrightarrow> valid c m \<Longrightarrow> cs_spec c m = (a, Some x) \<Longrightarrow> prepared (oper c) m \<Longrightarrow>
    linearized c (tr @ [(m, Some x)]) a"
  by (simp add: linearized_commit spec_store_commits)

lemmas cs_spec_simps = cs_spec_def Let_def linearized_read linearized_store

lemma linearized_abort [asm_simps]:
  "commits c tr = [] \<Longrightarrow> \<not> matches c m \<Longrightarrow> linearized c (tr @ [(m, None)]) AAbort"
  by (simp add: linearized_read cs_spec_def)

text \<open>The distinctness of registers that \<open>alloc_ok\<close> gives, without the sharing of inputs.\<close>

fun apart1 :: "(opnd \<Rightarrow> nat) \<Rightarrow> bind \<Rightarrow> bind \<Rightarrow> bool" where
  "apart1 al (Out p) (In q w) \<longleftrightarrow> al p \<noteq> al q"
| "apart1 al (Out p) (In32 q w) \<longleftrightarrow> al p \<noteq> al q"
| "apart1 al (Out p) (Out q) \<longleftrightarrow> al p \<noteq> al q"
| "apart1 al (Out p) (Lateout q) \<longleftrightarrow> al p \<noteq> al q"
| "apart1 al (In p v) (Out q) \<longleftrightarrow> al p \<noteq> al q"
| "apart1 al (In32 p v) (Out q) \<longleftrightarrow> al p \<noteq> al q"
| "apart1 al (Lateout p) (Out q) \<longleftrightarrow> al p \<noteq> al q"
| "apart1 al _ _ \<longleftrightarrow> True"

fun apart :: "(opnd \<Rightarrow> nat) \<Rightarrow> bind list \<Rightarrow> bool" where
  "apart al [] \<longleftrightarrow> True"
| "apart al (b # bs) \<longleftrightarrow> list_all (apart1 al b) bs \<and> apart al bs"

lemma compat_apart1: "compat al b c \<Longrightarrow> apart1 al b c"
  by (cases b; cases c) auto

lemma alloc_apart: "alloc_ok al bs \<Longrightarrow> apart al bs"
  by (induction bs) (auto simp: list_all_iff compat_apart1)

lemma outline_okI:
  assumes "length T = Suc (length (slots P))" "desc_valid P sig"
    "\<And>st tr. ready c binds env st tr \<Longrightarrow> (T ! 0) st tr"
    "\<And>st tr. ready c binds env st tr \<Longrightarrow> (T ! unat (abort_ip P)) st tr"
    "\<And>st tr. (T ! length (slots P)) st tr \<Longrightarrow>
        linearized c tr (from_status (regs st (alloc env O_status)) (regs st (alloc env res)))"
    "list_all (slot_ok T ex P c binds env) [0..<length (slots P)]"
  shows "outline_ok T ex P sig c binds res env"
  using assms unfolding outline_ok_def by blast

lemmas outline_simps = put_def store_ok_def Let_def desc_valid_def in_cs_def slot_ok_def same_view_def step_def
  holds_def ready_def inside_def

text \<open>The scratch store of \<open>store_if\<close> changes nothing that the rest of the section reads.\<close>

lemma side_store [asm_simps]:
  assumes "id_off_ok (off c)" "oper c = Store_if w e n s sn" "valid c m" "matches c m"
  shows "matches c (store64 m s sn)" "valid c (store64 m s sn)"
    "load64 (store64 m s sn) w = load64 m w"
    "load64 (store64 m s sn) (ar c + of_nat CS_OFF) = load64 m (ar c + of_nat CS_OFF)"
proof -
  have s: "separate (ar c) 32 s 8" "separate s 8 w 8"
    using assms(2,3,4) by (auto simp: valid_def)
  show "matches c (store64 m s sn)"
    using assms(1,4) s by (simp add: matches_def mem_simps)
  then show "valid c (store64 m s sn)" using assms by (auto simp: valid_def)
  show "load64 (store64 m s sn) w = load64 m w" using s by (simp add: mem_simps)
  show "load64 (store64 m s sn) (ar c + of_nat CS_OFF) = load64 m (ar c + of_nat CS_OFF)"
    using s by (simp add: mem_simps)
qed

section \<open>Assertions common to both targets\<close>

text \<open>The descriptor is installed and the index has been confirmed.\<close>

definition confirmed :: "cs_call \<Rightarrow> bind list \<Rightarrow> asm_env \<Rightarrow> (mstate \<Rightarrow> bool) \<Rightarrow> mstate \<Rightarrow> trace \<Rightarrow> bool"
where
  "confirmed c bs env Q st tr \<longleftrightarrow> inside c bs env st tr \<and> matches c (mem st) \<and> Q st"

text \<open>From the load of the index to the branch on its comparison.\<close>

definition confirm_outline :: "cs_call \<Rightarrow> bind list \<Rightarrow> asm_env \<Rightarrow> outline" where
  "confirm_outline c bs env = (let al = alloc env in
    [inside c bs env,
     \<lambda>st tr. inside c bs env st tr \<and>
       (low32 (regs st (al O_got)) = ident c \<longleftrightarrow> matches c (mem st)) \<and>
       (\<not> matches c (mem st) \<longrightarrow> linearized c tr AAbort),
     \<lambda>st tr. inside c bs env st tr \<and>
       (if zf st then matches c (mem st) else linearized c tr AAbort)])"

text \<open>From the load of \<open>w\<close> to the branch on its comparison with \<open>e\<close>.\<close>

definition compare_outline :: "cs_call \<Rightarrow> bind list \<Rightarrow> asm_env \<Rightarrow> u64 \<Rightarrow> u64 \<Rightarrow> outline" where
  "compare_outline c bs env w e = (let cur = (\<lambda>st. regs st (alloc env O_current)) in
    [confirmed c bs env (\<lambda>st. True),
     \<lambda>st tr. confirmed c bs env (\<lambda>st. cur st = load64 (mem st) w) st tr \<and>
       (cur st \<noteq> e \<longrightarrow> linearized c tr (AMiss (cur st))),
     \<lambda>st tr. confirmed c bs env (\<lambda>st. cur st = load64 (mem st) w \<and> zf st = (cur st = e)) st tr \<and>
       (cur st \<noteq> e \<longrightarrow> linearized c tr (AMiss (cur st)))])"

text \<open>After the commit, to the end of the block, with and without a compare miss.\<close>

definition outcome :: "cs_call \<Rightarrow> asm_env \<Rightarrow> opnd \<Rightarrow> (usize \<Rightarrow> attempt) \<Rightarrow> mstate \<Rightarrow> trace \<Rightarrow> bool" where
  "outcome c env r f st tr \<longleftrightarrow> linearized c tr (f (regs st (alloc env r)))"

definition ok_outline :: "cs_call \<Rightarrow> asm_env \<Rightarrow> opnd \<Rightarrow> outline" where
  "ok_outline c env r =
    [outcome c env r AOk,
     \<lambda>st tr. outcome c env r AOk st tr \<and> regs st (alloc env O_status) = 0]"

definition miss_outline :: "cs_call \<Rightarrow> asm_env \<Rightarrow> opnd \<Rightarrow> outline" where
  "miss_outline c env r =
    [outcome c env r AMiss,
     \<lambda>st tr. outcome c env r AMiss st tr \<and> regs st (alloc env O_status) = 1]"

definition abort_outline :: "cs_call \<Rightarrow> asm_env \<Rightarrow> opnd \<Rightarrow> outline" where
  "abort_outline c env r =
    [outcome c env r (\<lambda>_. AAbort),
     outcome c env r (\<lambda>_. AAbort),
     \<lambda>st tr. outcome c env r (from_status (regs st (alloc env O_status))) st tr]"

definition cas_outline :: "cs_call \<Rightarrow> bind list \<Rightarrow> asm_env \<Rightarrow> u64 \<Rightarrow> u64 \<Rightarrow> outline" where
  "cas_outline c bs env w e = confirm_outline c bs env @ compare_outline c bs env w e @
    [confirmed c bs env (\<lambda>st. regs st (alloc env O_current) = e \<and> load64 (mem st) w = e)] @
    ok_outline c env O_current @ miss_outline c env O_current @ abort_outline c env O_current"

definition store_if_outline :: "cs_call \<Rightarrow> bind list \<Rightarrow> asm_env \<Rightarrow> u64 \<Rightarrow> u64 \<Rightarrow> outline" where
  "store_if_outline c bs env w e = confirm_outline c bs env @ compare_outline c bs env w e @
    [confirmed c bs env (\<lambda>st. regs st (alloc env O_current) = e \<and> load64 (mem st) w = e),
     confirmed c bs env (\<lambda>st. regs st (alloc env O_current) = e \<and> load64 (mem st) w = e \<and>
       prepared (oper c) (mem st))] @
    ok_outline c env O_current @ miss_outline c env O_current @ abort_outline c env O_current"

definition cas_if_outline ::
  "cs_call \<Rightarrow> bind list \<Rightarrow> asm_env \<Rightarrow> u64 \<Rightarrow> u64 \<Rightarrow> u64 \<Rightarrow> u64 \<Rightarrow> outline" where
  "cas_if_outline c bs env w e x xe = (let cur = (\<lambda>st. regs st (alloc env O_current));
      oth = (\<lambda>st. regs st (alloc env O_other_val)) in
    confirm_outline c bs env @ compare_outline c bs env w e @
    [confirmed c bs env (\<lambda>st. cur st = e \<and> load64 (mem st) w = e),
     \<lambda>st tr. confirmed c bs env (\<lambda>st. cur st = e \<and> load64 (mem st) w = e \<and>
         oth st = load64 (mem st) x) st tr \<and>
       (oth st \<noteq> xe \<longrightarrow> linearized c tr (AMiss (oth st))),
     \<lambda>st tr. confirmed c bs env (\<lambda>st. cur st = e \<and> load64 (mem st) w = e \<and>
         oth st = load64 (mem st) x \<and> zf st = (oth st = xe)) st tr \<and>
       (oth st \<noteq> xe \<longrightarrow> linearized c tr (AMiss (oth st))),
     confirmed c bs env (\<lambda>st. cur st = e \<and> load64 (mem st) w = e \<and> load64 (mem st) x = xe)] @
    ok_outline c env O_current @ [outcome c env O_other_val AMiss] @
    miss_outline c env O_current @ abort_outline c env O_current)"

text \<open>\<open>load_if_ne\<close>: the compare that must fail, and what is known once it has failed.\<close>

definition skip_outline :: "cs_call \<Rightarrow> bind list \<Rightarrow> asm_env \<Rightarrow> u64 \<Rightarrow> u64 \<Rightarrow> outline" where
  "skip_outline c bs env w en = (let cur = (\<lambda>st. regs st (alloc env O_current)) in
    [confirmed c bs env (\<lambda>st. True),
     \<lambda>st tr. confirmed c bs env (\<lambda>st. cur st = load64 (mem st) w) st tr \<and>
       (cur st = en \<longrightarrow> linearized c tr (AMiss (cur st))),
     \<lambda>st tr. confirmed c bs env (\<lambda>st. cur st = load64 (mem st) w \<and> zf st = (cur st = en)) st tr \<and>
       (cur st = en \<longrightarrow> linearized c tr (AMiss (cur st)))])"

definition new_head :: "asm_env \<Rightarrow> u64 \<Rightarrow> u64 \<Rightarrow> mstate \<Rightarrow> bool" where
  "new_head env w en st \<longleftrightarrow> regs st (alloc env O_current) = load64 (mem st) w \<and>
     load64 (mem st) w \<noteq> en"

lemmas outline_defs = skip_outline_def new_head_def confirmed_def confirm_outline_def compare_outline_def outcome_def
  ok_outline_def miss_outline_def abort_outline_def

section \<open>From an outline to the promise\<close>

lemma kernel_resume_outside:
  "irq_ok P sig cs c st st' \<Longrightarrow> \<not> in_cs P (pc st) \<Longrightarrow>
    regs st' = regs st \<and> zf st' = zf st \<and> pc st' = pc st \<and> valid c (mem st')"
  by (auto simp: irq_ok_def kernel_resume_def)

lemma kernel_resume_inside:
  "irq_ok P sig (cs_addr env) c st st' \<Longrightarrow> in_cs P (pc st) \<Longrightarrow> desc_valid P sig \<Longrightarrow>
    inside c binds env st tr \<Longrightarrow> pc st' = unat (abort_ip P) \<and> ready c binds env st' tr"
  by (auto simp: irq_ok_def kernel_resume_def inside_def ready_def)

lemma outline_length: "outline_ok T ex P sig c binds res env \<Longrightarrow> length T = Suc (length (slots P))"
  by (simp add: outline_ok_def)

lemma outline_desc: "outline_ok T ex P sig c binds res env \<Longrightarrow> desc_valid P sig"
  by (simp add: outline_ok_def)

lemma outline_start:
  "outline_ok T ex P sig c binds res env \<Longrightarrow> ready c binds env st tr \<Longrightarrow> (T ! 0) st tr"
  by (simp add: outline_ok_def)

lemma outline_abort:
  "outline_ok T ex P sig c binds res env \<Longrightarrow> ready c binds env st tr \<Longrightarrow>
    (T ! unat (abort_ip P)) st tr"
  by (simp add: outline_ok_def)

lemma outline_stop:
  "outline_ok T ex P sig c binds res env \<Longrightarrow> (T ! length (slots P)) st tr \<Longrightarrow>
    linearized c tr (from_status (regs st (alloc env O_status)) (regs st (alloc env res)))"
  by (simp add: outline_ok_def)

lemma outline_slot:
  "outline_ok T ex P sig c binds res env \<Longrightarrow> k < length (slots P) \<Longrightarrow> slot_ok T ex P c binds env k"
  by (simp add: outline_ok_def list_all_iff)

lemma outline_step:
  "outline_ok T ex P sig c binds res env \<Longrightarrow> pc st < length (slots P) \<Longrightarrow> (T ! pc st) st tr \<Longrightarrow>
    \<exists>st' w. step ex P st = Some (st', w) \<and> pc st < pc st' \<and> holds T st' (tr @ [(mem st, w)]) \<and>
      store_ok c (mem st) w \<and> mem st' = put w (mem st)"
  by (drule (1) outline_slot) (simp add: slot_ok_def)

lemma outline_inside:
  "outline_ok T ex P sig c binds res env \<Longrightarrow> k < length (slots P) \<Longrightarrow> in_cs P k \<Longrightarrow>
    (T ! k) st tr \<Longrightarrow> inside c binds env st tr"
  by (drule (1) outline_slot) (simp add: slot_ok_def)

lemma outline_outside:
  "outline_ok T ex P sig c binds res env \<Longrightarrow> k < length (slots P) \<Longrightarrow> \<not> in_cs P k \<Longrightarrow>
    (T ! k) st tr \<Longrightarrow> regs st' = regs st \<Longrightarrow> zf st' = zf st \<Longrightarrow> valid c (mem st') \<Longrightarrow>
    (T ! k) st' tr"
  by (drule (1) outline_slot) (auto simp: slot_ok_def)

lemma outline_stable:
  "outline_ok T ex P sig c binds res env \<Longrightarrow> id_off_ok (off c) \<Longrightarrow> k < length (slots P) \<Longrightarrow>
    (T ! k) st tr \<Longrightarrow> par_ok c (mem st) m' \<Longrightarrow> (T ! k) (st\<lparr>mem := m'\<rparr>) tr"
  by (frule (1) outline_slot) (simp add: slot_ok_def par_same_view ready_par inside_par)

lemma outline_irq:
  assumes ok: "outline_ok T ex P sig c binds res env"
    and A: "holds T st tr" and nf: "\<not> finished P st"
    and irq: "irq_ok P sig (cs_addr env) c st st'"
  shows "holds T st' tr"
proof -
  have k: "pc st < length (slots P)" using nf by (simp add: finished_def)
  have T: "(T ! pc st) st tr" using A by (simp add: holds_def)
  note dv = outline_desc [OF ok]
  show ?thesis
  proof (cases "in_cs P (pc st)")
    case True
    from kernel_resume_inside [OF irq True dv outline_inside [OF ok k True T]]
    show ?thesis using outline_abort [OF ok] dv outline_length [OF ok]
      by (simp add: holds_def desc_valid_def)
  next
    case False
    from kernel_resume_outside [OF irq False] outline_outside [OF ok k False T]
    show ?thesis using A by (simp add: holds_def)
  qed
qed

lemma outline_par:
  assumes "outline_ok T ex P sig c binds res env" "id_off_ok (off c)" "holds T st tr"
    "\<not> finished P st" "par_ok c (mem st) m'"
  shows "holds T (st\<lparr>mem := m'\<rparr>) tr"
  using assms outline_stable [OF assms(1,2) _ _ assms(5)] by (simp add: holds_def finished_def)

lemma outline_own:
  assumes "outline_ok T ex P sig c binds res env" "holds T st tr" "\<not> finished P st"
  shows "\<exists>st' w. step ex P st = Some (st', w) \<and> holds T st' (tr @ [(mem st, w)]) \<and> pc st < pc st' \<and>
    store_ok c (mem st) w \<and> mem st' = put w (mem st)"
proof -
  have "pc st < length (slots P)" "(T ! pc st) st tr"
    using assms(2,3) by (auto simp: finished_def holds_def)
  from outline_step [OF assms(1) this] show ?thesis by blast
qed

lemma outline_run:
  assumes ok: "outline_ok T ex P sig c binds res env" and ido: "id_off_ok (off c)"
    and rd: "ready c binds env st []" "pc st = 0"
    and lr: "legal_run (irq_ok P sig (cs_addr env) c) (par_ok c) ex P es st"
  shows "\<exists>st' tr'. run ex P es st [] = Some (st', tr') \<and> holds T st' tr'"
proof (rule run_invariant [where A = "holds T", OF _ lr])
  show "holds T st []"
    using outline_start [OF ok rd(1)] outline_length [OF ok] rd(2) by (simp add: holds_def)
next
  fix st tr assume "holds T st tr" "\<not> finished P st"
  from outline_own [OF ok this]
  show "\<exists>st' w. step ex P st = Some (st', w) \<and> holds T st' (tr @ [(mem st, w)])" by blast
next
  fix st st' tr
  assume "holds T st tr" "\<not> finished P st" "irq_ok P sig (cs_addr env) c st st'"
  then show "holds T st' tr" by (rule outline_irq [OF ok])
next
  fix st m' tr
  assume "holds T st tr" "\<not> finished P st" "par_ok c (mem st) m'"
  then show "holds T (st\<lparr>mem := m'\<rparr>) tr" by (rule outline_par [OF ok ido])
qed

lemma outline_finished:
  assumes ok: "outline_ok T ex P sig c binds res env" and "holds T st tr" "finished P st"
  shows "linearized c tr (from_status (regs st (alloc env O_status)) (regs st (alloc env res)))"
proof -
  have "pc st = length (slots P)"
    using assms outline_length [OF ok] by (simp add: holds_def finished_def)
  then show ?thesis using assms(2) outline_stop [OF ok] by (simp add: holds_def)
qed

lemma outline_go:
  "outline_ok T ex P sig c binds res env \<Longrightarrow> holds T st tr \<Longrightarrow> length (slots P) \<le> n \<Longrightarrow>
    \<exists>st' tr'. run ex P (replicate n Go) st tr = Some (st', tr') \<and> finished P st'"
  by (rule run_go_finishes [where A = "holds T"]) (auto, blast dest: outline_own)

lemma legal_run_append:
  "legal_run I R ex P (es @ fs) st \<Longrightarrow> legal_run I R ex P es st"
  by (induction I R ex P es st rule: legal_run.induct)
     (auto split: event.splits option.splits if_splits)

theorem outline_correct:
  assumes link: "link mp tmpl = Some P"
    and legal: "legal_block ex mp tmpl binds sig c env m"
    and ok: "outline_ok T (ex (alloc env) (cs_addr env)) P sig c binds res env"
  shows "asm_block ex mp tmpl binds res env m \<noteq> Fault \<and>
    (\<forall>a tr m'. asm_block ex mp tmpl binds res env m = Returned a tr m' \<longrightarrow> linearized c tr a) \<and>
    (quiet (length (slots P)) env \<longrightarrow> asm_block ex mp tmpl binds res env m \<noteq> Running)"
proof -
  let ?ex = "ex (alloc env) (cs_addr env)" and ?st = "entry binds env m"
  have lr: "legal_run (irq_ok P sig (cs_addr env) c) (par_ok c) ?ex P (events env) ?st"
    and al: "alloc_ok (alloc env) binds" and v: "valid c m" and ido: "id_off_ok (off c)"
    using legal link by (auto simp: legal_block_def)
  have rd: "ready c binds env ?st []"
    using al v by (auto simp: ready_def entry_def list_all_iff bind_regs_bound)
  have p0: "pc ?st = 0" by (simp add: entry_def)
  obtain st' tr' where run: "run ?ex P (events env) ?st [] = Some (st', tr')" "holds T st' tr'"
    using outline_run [OF ok ido rd p0 lr] by blast
  have "finished P st'" if q: "quiet (length (slots P)) env"
  proof -
    let ?n = "length (slots P)"
    obtain es where es: "events env = es @ replicate ?n Go"
      using q by (metis quiet_def append_take_drop_id)
    obtain s1 t1 where r1: "run ?ex P es ?st [] = Some (s1, t1)" "holds T s1 t1"
      using outline_run [OF ok ido rd p0 legal_run_append] lr es by metis
    obtain s2 t2 where "run ?ex P (replicate ?n Go) s1 t1 = Some (s2, t2)" "finished P s2"
      using outline_go [OF ok r1(2) order_refl] by blast
    then show ?thesis using run(1) r1(1) es by (simp add: run_append)
  qed
  then show ?thesis
    using run link outline_finished [OF ok run(2)] by (auto simp: asm_block_def)
qed

text \<open>
  The promise of a block for one call, in the form in which the modules state it, and how an
  outline gives it.
\<close>

definition keeps :: "cs_call \<Rightarrow> asm_env \<Rightarrow> attempt call \<Rightarrow> bool" where
  "keeps c env r \<longleftrightarrow> r \<noteq> Fault \<and> (\<forall>a tr m'. r = Returned a tr m' \<longrightarrow> linearized c tr a) \<and>
     (quiet BLOCK_MAX env \<longrightarrow> r \<noteq> Running)"

lemma quiet_mono:
  assumes "quiet k env" "n \<le> k"
  shows "quiet n env"
proof -
  obtain es where "events env = es @ replicate (k - n) Go @ replicate n Go"
    using assms unfolding quiet_def
    by (metis append_take_drop_id le_add_diff_inverse2 replicate_add)
  then show ?thesis by (simp add: quiet_def)
qed

definition links :: "((lref \<Rightarrow> loc) \<Rightarrow> 'i \<Rightarrow> 'j) \<Rightarrow> 'i item list \<Rightarrow> bool" where
  "links mp tmpl \<longleftrightarrow> (case link mp tmpl of None \<Rightarrow> False | Some P \<Rightarrow> length (slots P) \<le> BLOCK_MAX)"

lemma outline_keeps:
  assumes "links mp tmpl" "legal_block ex mp tmpl binds sig c env m"
    and "\<And>P. link mp tmpl = Some P \<Longrightarrow> id_off_ok (off c) \<Longrightarrow> alloc_ok (alloc env) binds \<Longrightarrow>
      outline_ok T (ex (alloc env) (cs_addr env)) P sig c binds res env"
  shows "keeps c env (asm_block ex mp tmpl binds res env m)"
proof -
  obtain P where P: "link mp tmpl = Some P" "length (slots P) \<le> BLOCK_MAX"
    using assms(1) by (auto simp: links_def split: option.splits)
  have "id_off_ok (off c)" "alloc_ok (alloc env) binds" using assms(2) by (auto simp: legal_block_def)
  from outline_correct [OF P(1) assms(2) assms(3) [OF P(1) this]] show ?thesis
    unfolding keeps_def using quiet_mono [OF _ P(2)] by blast
qed

end
