(* ===== verification/X86_64.thy ===== *)
theory X86_64
  imports Outline
begin

text \<open>
  \<open>src/x86_64.rs\<close>: the subset of the instruction set that the six blocks use, the six
  templates line by line, and the six functions. Each function is shown to keep the promise of
  its atomic operation under every legal schedule.
\<close>

section \<open>Instructions\<close>

text \<open>\<open>'l\<close> is the type of label references: \<open>lref\<close> in a template, \<open>loc\<close> once linked.\<close>

datatype 'l x86 =
    JMP 'l
  | JNE 'l
  | JE 'l
  | LEA opnd 'l             \<comment> \<open>\<open>lea d, [rip + label]\<close>\<close>
  | MOV_ST opnd nat opnd    \<comment> \<open>\<open>mov qword ptr [b + off], s\<close>\<close>
  | MOV_LD opnd opnd        \<comment> \<open>\<open>mov d, qword ptr [b]\<close>\<close>
  | MOV_LD32 opnd opnd nat  \<comment> \<open>\<open>mov d:e, dword ptr [b + off]\<close>\<close>
  | MOV opnd opnd
  | MOV32_IMM opnd u32      \<comment> \<open>\<open>mov d:e, imm\<close>\<close>
  | CMP opnd opnd
  | CMP32 opnd opnd
  | XOR32 opnd opnd
  | ADD opnd opnd
  | XADD opnd opnd          \<comment> \<open>\<open>xadd qword ptr [b], s\<close>\<close>

abbreviation setr :: "opnd \<Rightarrow> (opnd \<Rightarrow> nat) \<Rightarrow> u64 \<Rightarrow> mstate \<Rightarrow> mstate" where
  "setr d al v st \<equiv> st\<lparr>regs := (regs st)(al d := v), pc := Suc (pc st)\<rparr>"

text \<open>
  One instruction. A write to a 32-bit register clears the upper half; \<open>cmp\<close>, \<open>xor\<close>, \<open>add\<close>
  and \<open>xadd\<close> set the zero flag.
\<close>

fun x86_exec :: "(opnd \<Rightarrow> nat) \<Rightarrow> u64 \<Rightarrow> loc x86 exec" where
  "x86_exec al cs (JMP (Loc TEXT k)) st = Some (st\<lparr>pc := k\<rparr>, None)"
| "x86_exec al cs (JNE (Loc TEXT k)) st =
     Some (st\<lparr>pc := (if zf st then Suc (pc st) else k)\<rparr>, None)"
| "x86_exec al cs (JE (Loc TEXT k)) st =
     Some (st\<lparr>pc := (if zf st then k else Suc (pc st))\<rparr>, None)"
| "x86_exec al cs (LEA d (Loc RSEQ_CS k)) st = Some (setr d al (cs + of_nat k) st, None)"
| "x86_exec al cs (MOV_ST b k s) st =
     (let a = regs st (al b) + of_nat k; v = regs st (al s) in
      Some (st\<lparr>mem := store64 (mem st) a v, pc := Suc (pc st)\<rparr>, Some (a, v)))"
| "x86_exec al cs (MOV_LD d b) st = Some (setr d al (load64 (mem st) (regs st (al b))) st, None)"
| "x86_exec al cs (MOV_LD32 d b k) st =
     Some (setr d al (ucast (load32 (mem st) (regs st (al b) + of_nat k))) st, None)"
| "x86_exec al cs (MOV d s) st = Some (setr d al (regs st (al s)) st, None)"
| "x86_exec al cs (MOV32_IMM d n) st = Some (setr d al (ucast n) st, None)"
| "x86_exec al cs (CMP x y) st =
     Some (st\<lparr>zf := (regs st (al x) = regs st (al y)), pc := Suc (pc st)\<rparr>, None)"
| "x86_exec al cs (CMP32 x y) st =
     Some (st\<lparr>zf := (low32 (regs st (al x)) = low32 (regs st (al y))), pc := Suc (pc st)\<rparr>, None)"
| "x86_exec al cs (XOR32 d s) st =
     (let v = xor (low32 (regs st (al d))) (low32 (regs st (al s))) in
      Some ((setr d al (ucast v) st)\<lparr>zf := (v = 0)\<rparr>, None))"
| "x86_exec al cs (ADD d s) st =
     (let v = regs st (al d) + regs st (al s) in
      Some ((setr d al v st)\<lparr>zf := (v = 0)\<rparr>, None))"
| "x86_exec al cs (XADD b s) st =
     (let a = regs st (al b); old = load64 (mem st) a; v = old + regs st (al s) in
      Some ((setr s al old st)\<lparr>mem := store64 (mem st) a v, zf := (v = 0)\<rparr>, Some (a, v)))"
| "x86_exec al cs _ st = None"

definition x86_map :: "(lref \<Rightarrow> loc) \<Rightarrow> lref x86 \<Rightarrow> loc x86" where
  "x86_map = map_x86"

section \<open>The six blocks\<close>

text \<open>
  For each function of the module: the template, line by line and in its order, the operand
  list, and the function, which decodes the status register.
\<close>

definition x86_compare_exchange_asm :: "nat \<Rightarrow> lref x86 item list" where
  "x86_compare_exchange_asm ID_OFF =
    [Pushsection,
     Balign 32,
     Label 99,
     Long 0,
     Long 0,
     Quad (QLabel (Fwd 12)),
     Quad (QDiff (Fwd 16) (Fwd 12)),
     Quad (QLabel (Fwd 17)),
     Popsection,
     Ins (JMP (Fwd 17)),
     Long SIG_x86_64,
     Label 17,
     Ins (LEA O_tmp (Bwd 99)),
     Ins (MOV_ST O_rseq CS_OFF O_tmp),
     Label 12,
     Ins (MOV_LD32 O_got O_rseq ID_OFF),
     Ins (CMP32 O_got O_id),
     Ins (JNE (Fwd 19)),
     Ins (MOV_LD O_current O_word),
     Ins (CMP O_current O_expect),
     Ins (JNE (Fwd 18)),
     Ins (MOV_ST O_word 0 O_new),
     Label 16,
     Ins (XOR32 O_status O_status),
     Ins (JMP (Fwd 30)),
     Label 18,
     Ins (MOV32_IMM O_status 1),
     Ins (JMP (Fwd 30)),
     Label 19,
     Ins (XOR32 O_current O_current),
     Ins (MOV32_IMM O_status 2),
     Label 30]"

definition x86_compare_exchange_binds :: "u64 \<Rightarrow> u64 \<Rightarrow> u32 \<Rightarrow> usize \<Rightarrow> usize \<Rightarrow> bind list" where
  "x86_compare_exchange_binds area word idx expect new =
    [In O_rseq area, In O_word word, In32 O_id idx, In O_expect expect, In O_new new, Out O_got,
     Out O_tmp, Out O_current, Out O_status]"

definition x86_compare_exchange ::
  "nat \<Rightarrow> u64 \<Rightarrow> u64 \<Rightarrow> u32 \<Rightarrow> usize \<Rightarrow> usize \<Rightarrow> asm_env \<Rightarrow> mem \<Rightarrow> attempt call" where
  "x86_compare_exchange ID_OFF area word idx expect new =
     asm_block x86_exec x86_map (x86_compare_exchange_asm ID_OFF)
       (x86_compare_exchange_binds area word idx expect new) O_current"

definition x86_fetch_add_asm :: "nat \<Rightarrow> lref x86 item list" where
  "x86_fetch_add_asm ID_OFF =
    [Pushsection,
     Balign 32,
     Label 89,
     Long 0,
     Long 0,
     Quad (QLabel (Fwd 22)),
     Quad (QDiff (Fwd 26) (Fwd 22)),
     Quad (QLabel (Fwd 27)),
     Popsection,
     Ins (JMP (Fwd 27)),
     Long SIG_x86_64,
     Label 27,
     Ins (LEA O_tmp (Bwd 89)),
     Ins (MOV_ST O_rseq CS_OFF O_tmp),
     Label 22,
     Ins (MOV_LD32 O_got O_rseq ID_OFF),
     Ins (CMP32 O_got O_id),
     Ins (JNE (Fwd 29)),
     Ins (MOV O_prev O_count),
     Ins (XADD O_word O_prev),
     Label 26,
     Ins (XOR32 O_status O_status),
     Ins (JMP (Fwd 20)),
     Label 29,
     Ins (XOR32 O_prev O_prev),
     Ins (MOV32_IMM O_status 2),
     Label 20]"

definition x86_fetch_add_binds :: "u64 \<Rightarrow> u64 \<Rightarrow> u32 \<Rightarrow> usize \<Rightarrow> bind list" where
  "x86_fetch_add_binds area word idx count =
    [In O_rseq area, In O_word word, In32 O_id idx, In O_count count, Out O_got, Out O_tmp,
     Out O_prev, Out O_status]"

definition x86_fetch_add ::
  "nat \<Rightarrow> u64 \<Rightarrow> u64 \<Rightarrow> u32 \<Rightarrow> usize \<Rightarrow> asm_env \<Rightarrow> mem \<Rightarrow> attempt call" where
  "x86_fetch_add ID_OFF area word idx count =
     asm_block x86_exec x86_map (x86_fetch_add_asm ID_OFF)
       (x86_fetch_add_binds area word idx count) O_prev"

definition x86_store_if_asm :: "nat \<Rightarrow> lref x86 item list" where
  "x86_store_if_asm ID_OFF =
    [Pushsection,
     Balign 32,
     Label 79,
     Long 0,
     Long 0,
     Quad (QLabel (Fwd 32)),
     Quad (QDiff (Fwd 36) (Fwd 32)),
     Quad (QLabel (Fwd 37)),
     Popsection,
     Ins (JMP (Fwd 37)),
     Long SIG_x86_64,
     Label 37,
     Ins (LEA O_tmp (Bwd 79)),
     Ins (MOV_ST O_rseq CS_OFF O_tmp),
     Label 32,
     Ins (MOV_LD32 O_got O_rseq ID_OFF),
     Ins (CMP32 O_got O_id),
     Ins (JNE (Fwd 39)),
     Ins (MOV_LD O_current O_word),
     Ins (CMP O_current O_expect),
     Ins (JNE (Fwd 38)),
     Ins (MOV_ST O_side 0 O_side_new),
     Ins (MOV_ST O_word 0 O_new),
     Label 36,
     Ins (XOR32 O_status O_status),
     Ins (JMP (Fwd 40)),
     Label 38,
     Ins (MOV32_IMM O_status 1),
     Ins (JMP (Fwd 40)),
     Label 39,
     Ins (XOR32 O_current O_current),
     Ins (MOV32_IMM O_status 2),
     Label 40]"

definition x86_store_if_binds :: "u64 \<Rightarrow> u64 \<Rightarrow> u32 \<Rightarrow> usize \<Rightarrow> usize \<Rightarrow> u64 \<Rightarrow> usize \<Rightarrow> bind list" where
  "x86_store_if_binds area word idx expect new side side_new =
    [In O_rseq area, In O_word word, In32 O_id idx, In O_expect expect, In O_new new,
     In O_side side, In O_side_new side_new, Out O_got, Out O_tmp, Out O_current, Out O_status]"

definition x86_store_if ::
  "nat \<Rightarrow> u64 \<Rightarrow> u64 \<Rightarrow> u32 \<Rightarrow> usize \<Rightarrow> usize \<Rightarrow> u64 \<Rightarrow> usize \<Rightarrow> asm_env \<Rightarrow> mem \<Rightarrow> attempt call" where
  "x86_store_if ID_OFF area word idx expect new side side_new =
     asm_block x86_exec x86_map (x86_store_if_asm ID_OFF)
       (x86_store_if_binds area word idx expect new side side_new) O_current"

definition x86_compare_exchange_if_asm :: "nat \<Rightarrow> lref x86 item list" where
  "x86_compare_exchange_if_asm ID_OFF =
    [Pushsection,
     Balign 32,
     Label 59,
     Long 0,
     Long 0,
     Quad (QLabel (Fwd 52)),
     Quad (QDiff (Fwd 56) (Fwd 52)),
     Quad (QLabel (Fwd 57)),
     Popsection,
     Ins (JMP (Fwd 57)),
     Long SIG_x86_64,
     Label 57,
     Ins (LEA O_tmp (Bwd 59)),
     Ins (MOV_ST O_rseq CS_OFF O_tmp),
     Label 52,
     Ins (MOV_LD32 O_got O_rseq ID_OFF),
     Ins (CMP32 O_got O_id),
     Ins (JNE (Fwd 55)),
     Ins (MOV_LD O_current O_word),
     Ins (CMP O_current O_expect),
     Ins (JNE (Fwd 54)),
     Ins (MOV_LD O_other_val O_other),
     Ins (CMP O_other_val O_other_expect),
     Ins (JNE (Fwd 53)),
     Ins (MOV_ST O_word 0 O_new),
     Label 56,
     Ins (XOR32 O_status O_status),
     Ins (JMP (Fwd 50)),
     Label 53,
     Ins (MOV O_current O_other_val),
     Label 54,
     Ins (MOV32_IMM O_status 1),
     Ins (JMP (Fwd 50)),
     Label 55,
     Ins (XOR32 O_current O_current),
     Ins (MOV32_IMM O_status 2),
     Label 50]"

definition x86_compare_exchange_if_binds :: "u64 \<Rightarrow> u64 \<Rightarrow> u32 \<Rightarrow> usize \<Rightarrow> usize \<Rightarrow> u64 \<Rightarrow> usize \<Rightarrow> bind list" where
  "x86_compare_exchange_if_binds area word idx expect new other other_expect =
    [In O_rseq area, In O_word word, In32 O_id idx, In O_expect expect, In O_new new,
     In O_other other, In O_other_expect other_expect, Out O_got, Out O_tmp, Out O_other_val,
     Out O_current, Out O_status]"

definition x86_compare_exchange_if ::
  "nat \<Rightarrow> u64 \<Rightarrow> u64 \<Rightarrow> u32 \<Rightarrow> usize \<Rightarrow> usize \<Rightarrow> u64 \<Rightarrow> usize \<Rightarrow> asm_env \<Rightarrow> mem \<Rightarrow> attempt call" where
  "x86_compare_exchange_if ID_OFF area word idx expect new other other_expect =
     asm_block x86_exec x86_map (x86_compare_exchange_if_asm ID_OFF)
       (x86_compare_exchange_if_binds area word idx expect new other other_expect) O_current"

definition x86_load_if_ne_asm :: "nat \<Rightarrow> lref x86 item list" where
  "x86_load_if_ne_asm ID_OFF =
    [Pushsection,
     Balign 32,
     Label 49,
     Long 0,
     Long 0,
     Quad (QLabel (Fwd 42)),
     Quad (QDiff (Fwd 46) (Fwd 42)),
     Quad (QLabel (Fwd 47)),
     Popsection,
     Ins (JMP (Fwd 47)),
     Long SIG_x86_64,
     Label 47,
     Ins (LEA O_tmp (Bwd 49)),
     Ins (MOV_ST O_rseq CS_OFF O_tmp),
     Label 42,
     Ins (MOV_LD32 O_got O_rseq ID_OFF),
     Ins (CMP32 O_got O_id),
     Ins (JNE (Fwd 45)),
     Ins (MOV_LD O_current O_word),
     Ins (CMP O_current O_expect_not),
     Ins (JE (Fwd 44)),
     Ins (MOV O_chase O_current),
     Ins (ADD O_chase O_offset),
     Ins (MOV_LD O_chase O_chase),
     Ins (MOV_ST O_word 0 O_chase),
     Label 46,
     Ins (XOR32 O_status O_status),
     Ins (JMP (Fwd 41)),
     Label 44,
     Ins (MOV32_IMM O_status 1),
     Ins (JMP (Fwd 41)),
     Label 45,
     Ins (XOR32 O_current O_current),
     Ins (MOV32_IMM O_status 2),
     Label 41]"

definition x86_load_if_ne_binds :: "u64 \<Rightarrow> u64 \<Rightarrow> u32 \<Rightarrow> usize \<Rightarrow> isize \<Rightarrow> bind list" where
  "x86_load_if_ne_binds area word idx expect_not offset =
    [In O_rseq area, In O_word word, In32 O_id idx, In O_expect_not expect_not,
     In O_offset offset, Out O_got, Out O_tmp, Out O_chase, Out O_current, Out O_status]"

definition x86_load_if_ne ::
  "nat \<Rightarrow> u64 \<Rightarrow> u64 \<Rightarrow> u32 \<Rightarrow> usize \<Rightarrow> isize \<Rightarrow> asm_env \<Rightarrow> mem \<Rightarrow> attempt call" where
  "x86_load_if_ne ID_OFF area word idx expect_not offset =
     asm_block x86_exec x86_map (x86_load_if_ne_asm ID_OFF)
       (x86_load_if_ne_binds area word idx expect_not offset) O_current"

definition x86_fetch_add_at_asm :: "nat \<Rightarrow> lref x86 item list" where
  "x86_fetch_add_at_asm ID_OFF =
    [Pushsection,
     Balign 32,
     Label 69,
     Long 0,
     Long 0,
     Quad (QLabel (Fwd 62)),
     Quad (QDiff (Fwd 66) (Fwd 62)),
     Quad (QLabel (Fwd 67)),
     Popsection,
     Ins (JMP (Fwd 67)),
     Long SIG_x86_64,
     Label 67,
     Ins (LEA O_tmp (Bwd 69)),
     Ins (MOV_ST O_rseq CS_OFF O_tmp),
     Label 62,
     Ins (MOV_LD32 O_got O_rseq ID_OFF),
     Ins (CMP32 O_got O_id),
     Ins (JNE (Fwd 65)),
     Ins (MOV_LD O_base O_ptr),
     Ins (ADD O_base O_offset),
     Ins (MOV_LD O_slot O_base),
     Ins (MOV O_prev O_count),
     Ins (XADD O_slot O_prev),
     Label 66,
     Ins (XOR32 O_status O_status),
     Ins (JMP (Fwd 61)),
     Label 65,
     Ins (XOR32 O_prev O_prev),
     Ins (MOV32_IMM O_status 2),
     Label 61]"

definition x86_fetch_add_at_binds :: "u64 \<Rightarrow> u64 \<Rightarrow> u32 \<Rightarrow> isize \<Rightarrow> usize \<Rightarrow> bind list" where
  "x86_fetch_add_at_binds area ptr idx offset count =
    [In O_rseq area, In O_ptr ptr, In32 O_id idx, In O_offset offset, In O_count count,
     Out O_got, Out O_tmp, Out O_base, Out O_slot, Out O_prev, Out O_status]"

definition x86_fetch_add_at ::
  "nat \<Rightarrow> u64 \<Rightarrow> u64 \<Rightarrow> u32 \<Rightarrow> isize \<Rightarrow> usize \<Rightarrow> asm_env \<Rightarrow> mem \<Rightarrow> attempt call" where
  "x86_fetch_add_at ID_OFF area ptr idx offset count =
     asm_block x86_exec x86_map (x86_fetch_add_at_asm ID_OFF)
       (x86_fetch_add_at_binds area ptr idx offset count) O_prev"

section \<open>Outlines\<close>

text \<open>The install of the descriptor, up to the critical section.\<close>

definition x86_install :: "cs_call \<Rightarrow> bind list \<Rightarrow> asm_env \<Rightarrow> outline" where
  "x86_install c bs env =
    [ready c bs env, \<lambda>st tr. False, ready c bs env,
     \<lambda>st tr. ready c bs env st tr \<and> regs st (alloc env O_tmp) = cs_addr env]"

lemmas x86_simps = x86_install_def outline_defs

lemma x86_compare_exchange_outline:
  assumes "link x86_map (x86_compare_exchange_asm (off c)) = Some P" "id_off_ok (off c)"
    "oper c = Compare_exchange w e n" "bs = x86_compare_exchange_binds (ar c) w (ident c) e n"
    "alloc_ok (alloc env) bs"
  shows "outline_ok (x86_install c bs env @ cas_outline c bs env w e)
    (x86_exec (alloc env) (cs_addr env)) P SIG_x86_64 c bs O_current env"
  using assms(1-3) alloc_apart [OF assms(5)] unfolding assms(4)
  by (clarsimp simp: link_def x86_compare_exchange_asm_def x86_map_def,
      (intro outline_okI; simp add: cas_outline_def x86_simps outline_simps x86_compare_exchange_binds_def;
       safe; simp add: x86_simps asm_simps mem_simps outline_simps cs_spec_simps))

lemma x86_fetch_add_outline:
  assumes "link x86_map (x86_fetch_add_asm (off c)) = Some P" "id_off_ok (off c)"
    "oper c = Fetch_add w k" "bs = x86_fetch_add_binds (ar c) w (ident c) k"
    "alloc_ok (alloc env) bs"
  shows "outline_ok (x86_install c bs env @ confirm_outline c bs env @
      [confirmed c bs env (\<lambda>st. True), confirmed c bs env (\<lambda>st. regs st (alloc env O_prev) = k)] @
      ok_outline c env O_prev @ abort_outline c env O_prev)
    (x86_exec (alloc env) (cs_addr env)) P SIG_x86_64 c bs O_prev env"
  using assms(1-3) alloc_apart [OF assms(5)] unfolding assms(4)
  by (clarsimp simp: link_def x86_fetch_add_asm_def x86_map_def,
      (intro outline_okI; simp add: x86_simps outline_simps x86_fetch_add_binds_def;
       safe; simp add: x86_simps asm_simps mem_simps outline_simps cs_spec_simps))

lemma x86_store_if_outline:
  assumes "link x86_map (x86_store_if_asm (off c)) = Some P" "id_off_ok (off c)"
    "oper c = Store_if w e n s sn" "bs = x86_store_if_binds (ar c) w (ident c) e n s sn"
    "alloc_ok (alloc env) bs"
  shows "outline_ok (x86_install c bs env @ store_if_outline c bs env w e)
    (x86_exec (alloc env) (cs_addr env)) P SIG_x86_64 c bs O_current env"
  using assms(1-3) alloc_apart [OF assms(5)] unfolding assms(4)
  by (clarsimp simp: link_def x86_store_if_asm_def x86_map_def,
      (intro outline_okI; simp add: store_if_outline_def x86_simps outline_simps x86_store_if_binds_def;
       safe; simp add: x86_simps asm_simps mem_simps outline_simps cs_spec_simps))

lemma x86_compare_exchange_if_outline:
  assumes "link x86_map (x86_compare_exchange_if_asm (off c)) = Some P" "id_off_ok (off c)"
    "oper c = Compare_exchange_if w e n x xe" "bs = x86_compare_exchange_if_binds (ar c) w (ident c) e n x xe"
    "alloc_ok (alloc env) bs"
  shows "outline_ok (x86_install c bs env @ cas_if_outline c bs env w e x xe)
    (x86_exec (alloc env) (cs_addr env)) P SIG_x86_64 c bs O_current env"
  using assms(1-3) alloc_apart [OF assms(5)] unfolding assms(4)
  by (clarsimp simp: link_def x86_compare_exchange_if_asm_def x86_map_def,
      (intro outline_okI; simp add: cas_if_outline_def x86_simps outline_simps x86_compare_exchange_if_binds_def;
       safe; simp add: x86_simps asm_simps mem_simps outline_simps cs_spec_simps))

lemma x86_load_if_ne_outline:
  assumes "link x86_map (x86_load_if_ne_asm (off c)) = Some P" "id_off_ok (off c)"
    "oper c = Load_if_ne w en d" "bs = x86_load_if_ne_binds (ar c) w (ident c) en d"
    "alloc_ok (alloc env) bs"
  shows "outline_ok (x86_install c bs env @ confirm_outline c bs env @
      skip_outline c bs env w en @
      [confirmed c bs env (\<lambda>st. new_head env w en st),
       confirmed c bs env (\<lambda>st. new_head env w en st \<and>
         regs st (alloc env O_chase) = load64 (mem st) w),
       confirmed c bs env (\<lambda>st. new_head env w en st \<and>
         regs st (alloc env O_chase) = load64 (mem st) w + d),
       confirmed c bs env (\<lambda>st. new_head env w en st \<and>
         regs st (alloc env O_chase) = load64 (mem st) (load64 (mem st) w + d))] @
      ok_outline c env O_current @ miss_outline c env O_current @ abort_outline c env O_current)
    (x86_exec (alloc env) (cs_addr env)) P SIG_x86_64 c bs O_current env"
  using assms(1-3) alloc_apart [OF assms(5)] unfolding assms(4)
  by (clarsimp simp: link_def x86_load_if_ne_asm_def x86_map_def,
      (intro outline_okI; simp add: x86_simps outline_simps x86_load_if_ne_binds_def;
       safe; simp add: x86_simps asm_simps mem_simps outline_simps cs_spec_simps))

lemma x86_fetch_add_at_outline:
  assumes "link x86_map (x86_fetch_add_at_asm (off c)) = Some P" "id_off_ok (off c)"
    "oper c = Fetch_add_at p d k" "bs = x86_fetch_add_at_binds (ar c) p (ident c) d k"
    "alloc_ok (alloc env) bs"
  shows "outline_ok (x86_install c bs env @ confirm_outline c bs env @
      [confirmed c bs env (\<lambda>st. True),
       confirmed c bs env (\<lambda>st. regs st (alloc env O_base) = load64 (mem st) p),
       confirmed c bs env (\<lambda>st. regs st (alloc env O_base) = load64 (mem st) p + d),
       confirmed c bs env (\<lambda>st. regs st (alloc env O_slot) = load64 (mem st) (load64 (mem st) p + d)),
       confirmed c bs env (\<lambda>st. regs st (alloc env O_slot) = load64 (mem st) (load64 (mem st) p + d) \<and>
         regs st (alloc env O_prev) = k)] @
      ok_outline c env O_prev @ abort_outline c env O_prev)
    (x86_exec (alloc env) (cs_addr env)) P SIG_x86_64 c bs O_prev env"
  using assms(1-3) alloc_apart [OF assms(5)] unfolding assms(4)
  by (clarsimp simp: link_def x86_fetch_add_at_asm_def x86_map_def,
      (intro outline_okI; simp add: x86_simps outline_simps x86_fetch_add_at_binds_def;
       safe; simp add: x86_simps asm_simps mem_simps outline_simps cs_spec_simps))

section \<open>The module\<close>

definition x86_64_cs :: cs_module where
  "x86_64_cs = \<lparr>cs_compare_exchange = x86_compare_exchange, cs_fetch_add = x86_fetch_add,
     cs_store_if = x86_store_if, cs_compare_exchange_if = x86_compare_exchange_if,
     cs_load_if_ne = x86_load_if_ne, cs_fetch_add_at = x86_fetch_add_at\<rparr>"

text \<open>The calls whose environment the module relies on.\<close>

fun x86_legal_op :: "cs_op \<Rightarrow> cs_call \<Rightarrow> asm_env \<Rightarrow> mem \<Rightarrow> bool" where
  "x86_legal_op (Compare_exchange w e n) c =
     legal_block x86_exec x86_map (x86_compare_exchange_asm (off c))
       (x86_compare_exchange_binds (ar c) w (ident c) e n) SIG_x86_64 c"
| "x86_legal_op (Fetch_add w k) c =
     legal_block x86_exec x86_map (x86_fetch_add_asm (off c))
       (x86_fetch_add_binds (ar c) w (ident c) k) SIG_x86_64 c"
| "x86_legal_op (Store_if w e n s sn) c =
     legal_block x86_exec x86_map (x86_store_if_asm (off c))
       (x86_store_if_binds (ar c) w (ident c) e n s sn) SIG_x86_64 c"
| "x86_legal_op (Compare_exchange_if w e n x xe) c =
     legal_block x86_exec x86_map (x86_compare_exchange_if_asm (off c))
       (x86_compare_exchange_if_binds (ar c) w (ident c) e n x xe) SIG_x86_64 c"
| "x86_legal_op (Load_if_ne w en d) c =
     legal_block x86_exec x86_map (x86_load_if_ne_asm (off c))
       (x86_load_if_ne_binds (ar c) w (ident c) en d) SIG_x86_64 c"
| "x86_legal_op (Fetch_add_at p d k) c =
     legal_block x86_exec x86_map (x86_fetch_add_at_asm (off c))
       (x86_fetch_add_at_binds (ar c) p (ident c) d k) SIG_x86_64 c"

definition x86_legal :: "cs_call \<Rightarrow> asm_env \<Rightarrow> mem \<Rightarrow> bool" where
  "x86_legal c = x86_legal_op (oper c) c"

lemma x86_compare_exchange_links: "links x86_map (x86_compare_exchange_asm k)"
  by (simp add: links_def link_def x86_compare_exchange_asm_def x86_map_def BLOCK_MAX_def)

lemma x86_fetch_add_links: "links x86_map (x86_fetch_add_asm k)"
  by (simp add: links_def link_def x86_fetch_add_asm_def x86_map_def BLOCK_MAX_def)

lemma x86_store_if_links: "links x86_map (x86_store_if_asm k)"
  by (simp add: links_def link_def x86_store_if_asm_def x86_map_def BLOCK_MAX_def)

lemma x86_compare_exchange_if_links: "links x86_map (x86_compare_exchange_if_asm k)"
  by (simp add: links_def link_def x86_compare_exchange_if_asm_def x86_map_def BLOCK_MAX_def)

lemma x86_load_if_ne_links: "links x86_map (x86_load_if_ne_asm k)"
  by (simp add: links_def link_def x86_load_if_ne_asm_def x86_map_def BLOCK_MAX_def)

lemma x86_fetch_add_at_links: "links x86_map (x86_fetch_add_at_asm k)"
  by (simp add: links_def link_def x86_fetch_add_at_asm_def x86_map_def BLOCK_MAX_def)

lemmas x86_functions = x86_compare_exchange_def x86_fetch_add_def x86_store_if_def x86_compare_exchange_if_def x86_load_if_ne_def x86_fetch_add_at_def

lemma x86_keeps:
  assumes "x86_legal c env m"
  shows "keeps c env (call_of x86_64_cs c env m)"
proof (cases "oper c")
  case (Compare_exchange w e n)
  show ?thesis using assms
    by (simp add: Compare_exchange x86_legal_def call_of_def x86_64_cs_def x86_functions)
       (erule outline_keeps [OF x86_compare_exchange_links],
        erule (1) x86_compare_exchange_outline [OF _ _ Compare_exchange refl])
next
  case (Fetch_add w k)
  show ?thesis using assms
    by (simp add: Fetch_add x86_legal_def call_of_def x86_64_cs_def x86_functions)
       (erule outline_keeps [OF x86_fetch_add_links],
        erule (1) x86_fetch_add_outline [OF _ _ Fetch_add refl])
next
  case (Store_if w e n s sn)
  show ?thesis using assms
    by (simp add: Store_if x86_legal_def call_of_def x86_64_cs_def x86_functions)
       (erule outline_keeps [OF x86_store_if_links],
        erule (1) x86_store_if_outline [OF _ _ Store_if refl])
next
  case (Compare_exchange_if w e n x xe)
  show ?thesis using assms
    by (simp add: Compare_exchange_if x86_legal_def call_of_def x86_64_cs_def x86_functions)
       (erule outline_keeps [OF x86_compare_exchange_if_links],
        erule (1) x86_compare_exchange_if_outline [OF _ _ Compare_exchange_if refl])
next
  case (Load_if_ne w en d)
  show ?thesis using assms
    by (simp add: Load_if_ne x86_legal_def call_of_def x86_64_cs_def x86_functions)
       (erule outline_keeps [OF x86_load_if_ne_links],
        erule (1) x86_load_if_ne_outline [OF _ _ Load_if_ne refl])
next
  case (Fetch_add_at p d k)
  show ?thesis using assms
    by (simp add: Fetch_add_at x86_legal_def call_of_def x86_64_cs_def x86_functions)
       (erule outline_keeps [OF x86_fetch_add_at_links],
        erule (1) x86_fetch_add_at_outline [OF _ _ Fetch_add_at refl])
qed

text \<open>The module keeps the contract that \<open>src/thread.rs\<close> relies on.\<close>

interpretation x86: cs_atomic x86_64_cs x86_legal
  using x86_keeps unfolding keeps_def by unfold_locales blast+

end
