(* ===== verification/Aarch64.thy ===== *)
theory Aarch64
  imports Outline
begin

text \<open>
  \<open>src/aarch64.rs\<close>: the subset of the A64 instruction set that the six blocks use, the six
  templates line by line, and the six functions, with the same promise as on x86-64. The
  status is a \<open>lateout\<close> here, so it may live in the register of an input.
\<close>

section \<open>Instructions\<close>

datatype 'l a64 =
    BR 'l
  | BNE 'l
  | BEQ 'l
  | ADRP opnd 'l            \<comment> \<open>the page of a label\<close>
  | ADD_LO12 opnd opnd 'l   \<comment> \<open>\<open>add d, s, :lo12:label\<close>\<close>
  | STR_X opnd opnd nat       \<comment> \<open>\<open>str s, [b, #off]\<close>\<close>
  | LDR opnd opnd           \<comment> \<open>\<open>ldr d, [b]\<close>\<close>
  | LDR_W opnd opnd nat     \<comment> \<open>\<open>ldr d:w, [b, #off]\<close>\<close>
  | CMP_X opnd opnd
  | CMP_W opnd opnd
  | MOV_XZR opnd
  | MOV_IMM opnd u64
  | MOV_X opnd opnd
  | ADD_X opnd opnd opnd    \<comment> \<open>\<open>add d, a, b\<close>\<close>

abbreviation setx :: "opnd \<Rightarrow> (opnd \<Rightarrow> nat) \<Rightarrow> u64 \<Rightarrow> mstate \<Rightarrow> mstate" where
  "setx d al v st \<equiv> st\<lparr>regs := (regs st)(al d := v), pc := Suc (pc st)\<rparr>"

text \<open>
  One instruction. A write to a 32-bit register clears the upper half; only the compares set
  the zero flag.
\<close>

fun a64_exec :: "(opnd \<Rightarrow> nat) \<Rightarrow> u64 \<Rightarrow> loc a64 exec" where
  "a64_exec al cs (BR (Loc TEXT k)) st = Some (st\<lparr>pc := k\<rparr>, None)"
| "a64_exec al cs (BNE (Loc TEXT k)) st =
     Some (st\<lparr>pc := (if zf st then Suc (pc st) else k)\<rparr>, None)"
| "a64_exec al cs (BEQ (Loc TEXT k)) st =
     Some (st\<lparr>pc := (if zf st then k else Suc (pc st))\<rparr>, None)"
| "a64_exec al cs (ADRP d (Loc RSEQ_CS k)) st =
     Some (setx d al (and (cs + of_nat k) (not 4095)) st, None)"
| "a64_exec al cs (ADD_LO12 d s (Loc RSEQ_CS k)) st =
     Some (setx d al (regs st (al s) + and (cs + of_nat k) 4095) st, None)"
| "a64_exec al cs (STR_X s b k) st =
     (let a = regs st (al b) + of_nat k; v = regs st (al s) in
      Some (st\<lparr>mem := store64 (mem st) a v, pc := Suc (pc st)\<rparr>, Some (a, v)))"
| "a64_exec al cs (LDR d b) st = Some (setx d al (load64 (mem st) (regs st (al b))) st, None)"
| "a64_exec al cs (LDR_W d b k) st =
     Some (setx d al (ucast (load32 (mem st) (regs st (al b) + of_nat k))) st, None)"
| "a64_exec al cs (CMP_X x y) st =
     Some (st\<lparr>zf := (regs st (al x) = regs st (al y)), pc := Suc (pc st)\<rparr>, None)"
| "a64_exec al cs (CMP_W x y) st =
     Some (st\<lparr>zf := (low32 (regs st (al x)) = low32 (regs st (al y))), pc := Suc (pc st)\<rparr>, None)"
| "a64_exec al cs (MOV_XZR d) st = Some (setx d al 0 st, None)"
| "a64_exec al cs (MOV_IMM d n) st = Some (setx d al n st, None)"
| "a64_exec al cs (MOV_X d s) st = Some (setx d al (regs st (al s)) st, None)"
| "a64_exec al cs (ADD_X d x y) st =
     Some (setx d al (regs st (al x) + regs st (al y)) st, None)"
| "a64_exec al cs _ st = None"

definition a64_map :: "(lref \<Rightarrow> loc) \<Rightarrow> lref a64 \<Rightarrow> loc a64" where
  "a64_map = map_a64"

section \<open>The six blocks\<close>

text \<open>
  For each function of the module: the template, line by line and in its order, the operand
  list, and the function, which decodes the status register. \<open>.inst\<close> puts the 32-bit
  signature into the text, as \<open>.long\<close> does on x86-64.
\<close>

definition a64_compare_exchange_asm :: "nat \<Rightarrow> lref a64 item list" where
  "a64_compare_exchange_asm ID_OFF =
    [Pushsection,
     Balign 32,
     Label 99,
     Long 0,
     Long 0,
     Quad (QLabel (Fwd 12)),
     Quad (QDiff (Fwd 16) (Fwd 12)),
     Quad (QLabel (Fwd 17)),
     Popsection,
     Ins (BR (Fwd 17)),
     Long SIG_aarch64,
     Label 17,
     Ins (ADRP O_tmp (Bwd 99)),
     Ins (ADD_LO12 O_tmp O_tmp (Bwd 99)),
     Ins (STR_X O_tmp O_rseq CS_OFF),
     Label 12,
     Ins (LDR_W O_got O_rseq ID_OFF),
     Ins (CMP_W O_got O_id),
     Ins (BNE (Fwd 19)),
     Ins (LDR O_current O_word),
     Ins (CMP_X O_current O_expect),
     Ins (BNE (Fwd 18)),
     Ins (STR_X O_new O_word 0),
     Label 16,
     Ins (MOV_XZR O_status),
     Ins (BR (Fwd 30)),
     Label 18,
     Ins (MOV_IMM O_status 1),
     Ins (BR (Fwd 30)),
     Label 19,
     Ins (MOV_XZR O_current),
     Ins (MOV_IMM O_status 2),
     Label 30]"

definition a64_compare_exchange_binds :: "u64 \<Rightarrow> u64 \<Rightarrow> u32 \<Rightarrow> usize \<Rightarrow> usize \<Rightarrow> bind list" where
  "a64_compare_exchange_binds area word idx expect new =
    [In O_rseq area, In O_word word, In32 O_id idx, In O_expect expect, In O_new new, Out O_got,
     Out O_tmp, Out O_current, Lateout O_status]"

definition a64_compare_exchange ::
  "nat \<Rightarrow> u64 \<Rightarrow> u64 \<Rightarrow> u32 \<Rightarrow> usize \<Rightarrow> usize \<Rightarrow> asm_env \<Rightarrow> mem \<Rightarrow> attempt call" where
  "a64_compare_exchange ID_OFF area word idx expect new =
     asm_block a64_exec a64_map (a64_compare_exchange_asm ID_OFF)
       (a64_compare_exchange_binds area word idx expect new) O_current"

definition a64_fetch_add_asm :: "nat \<Rightarrow> lref a64 item list" where
  "a64_fetch_add_asm ID_OFF =
    [Pushsection,
     Balign 32,
     Label 89,
     Long 0,
     Long 0,
     Quad (QLabel (Fwd 22)),
     Quad (QDiff (Fwd 26) (Fwd 22)),
     Quad (QLabel (Fwd 27)),
     Popsection,
     Ins (BR (Fwd 27)),
     Long SIG_aarch64,
     Label 27,
     Ins (ADRP O_tmp (Bwd 89)),
     Ins (ADD_LO12 O_tmp O_tmp (Bwd 89)),
     Ins (STR_X O_tmp O_rseq CS_OFF),
     Label 22,
     Ins (LDR_W O_got O_rseq ID_OFF),
     Ins (CMP_W O_got O_id),
     Ins (BNE (Fwd 29)),
     Ins (LDR O_prev O_word),
     Ins (ADD_X O_sum O_prev O_count),
     Ins (STR_X O_sum O_word 0),
     Label 26,
     Ins (MOV_XZR O_status),
     Ins (BR (Fwd 20)),
     Label 29,
     Ins (MOV_XZR O_prev),
     Ins (MOV_IMM O_status 2),
     Label 20]"

definition a64_fetch_add_binds :: "u64 \<Rightarrow> u64 \<Rightarrow> u32 \<Rightarrow> usize \<Rightarrow> bind list" where
  "a64_fetch_add_binds area word idx count =
    [In O_rseq area, In O_word word, In32 O_id idx, In O_count count, Out O_got, Out O_tmp,
     Out O_sum, Out O_prev, Lateout O_status]"

definition a64_fetch_add ::
  "nat \<Rightarrow> u64 \<Rightarrow> u64 \<Rightarrow> u32 \<Rightarrow> usize \<Rightarrow> asm_env \<Rightarrow> mem \<Rightarrow> attempt call" where
  "a64_fetch_add ID_OFF area word idx count =
     asm_block a64_exec a64_map (a64_fetch_add_asm ID_OFF)
       (a64_fetch_add_binds area word idx count) O_prev"

definition a64_store_if_asm :: "nat \<Rightarrow> lref a64 item list" where
  "a64_store_if_asm ID_OFF =
    [Pushsection,
     Balign 32,
     Label 79,
     Long 0,
     Long 0,
     Quad (QLabel (Fwd 32)),
     Quad (QDiff (Fwd 36) (Fwd 32)),
     Quad (QLabel (Fwd 37)),
     Popsection,
     Ins (BR (Fwd 37)),
     Long SIG_aarch64,
     Label 37,
     Ins (ADRP O_tmp (Bwd 79)),
     Ins (ADD_LO12 O_tmp O_tmp (Bwd 79)),
     Ins (STR_X O_tmp O_rseq CS_OFF),
     Label 32,
     Ins (LDR_W O_got O_rseq ID_OFF),
     Ins (CMP_W O_got O_id),
     Ins (BNE (Fwd 39)),
     Ins (LDR O_current O_word),
     Ins (CMP_X O_current O_expect),
     Ins (BNE (Fwd 38)),
     Ins (STR_X O_side_new O_side 0),
     Ins (STR_X O_new O_word 0),
     Label 36,
     Ins (MOV_XZR O_status),
     Ins (BR (Fwd 40)),
     Label 38,
     Ins (MOV_IMM O_status 1),
     Ins (BR (Fwd 40)),
     Label 39,
     Ins (MOV_XZR O_current),
     Ins (MOV_IMM O_status 2),
     Label 40]"

definition a64_store_if_binds :: "u64 \<Rightarrow> u64 \<Rightarrow> u32 \<Rightarrow> usize \<Rightarrow> usize \<Rightarrow> u64 \<Rightarrow> usize \<Rightarrow> bind list" where
  "a64_store_if_binds area word idx expect new side side_new =
    [In O_rseq area, In O_word word, In32 O_id idx, In O_expect expect, In O_new new,
     In O_side side, In O_side_new side_new, Out O_got, Out O_tmp, Out O_current,
     Lateout O_status]"

definition a64_store_if ::
  "nat \<Rightarrow> u64 \<Rightarrow> u64 \<Rightarrow> u32 \<Rightarrow> usize \<Rightarrow> usize \<Rightarrow> u64 \<Rightarrow> usize \<Rightarrow> asm_env \<Rightarrow> mem \<Rightarrow> attempt call" where
  "a64_store_if ID_OFF area word idx expect new side side_new =
     asm_block a64_exec a64_map (a64_store_if_asm ID_OFF)
       (a64_store_if_binds area word idx expect new side side_new) O_current"

definition a64_compare_exchange_if_asm :: "nat \<Rightarrow> lref a64 item list" where
  "a64_compare_exchange_if_asm ID_OFF =
    [Pushsection,
     Balign 32,
     Label 59,
     Long 0,
     Long 0,
     Quad (QLabel (Fwd 52)),
     Quad (QDiff (Fwd 56) (Fwd 52)),
     Quad (QLabel (Fwd 57)),
     Popsection,
     Ins (BR (Fwd 57)),
     Long SIG_aarch64,
     Label 57,
     Ins (ADRP O_tmp (Bwd 59)),
     Ins (ADD_LO12 O_tmp O_tmp (Bwd 59)),
     Ins (STR_X O_tmp O_rseq CS_OFF),
     Label 52,
     Ins (LDR_W O_got O_rseq ID_OFF),
     Ins (CMP_W O_got O_id),
     Ins (BNE (Fwd 55)),
     Ins (LDR O_current O_word),
     Ins (CMP_X O_current O_expect),
     Ins (BNE (Fwd 54)),
     Ins (LDR O_other_val O_other),
     Ins (CMP_X O_other_val O_other_expect),
     Ins (BNE (Fwd 53)),
     Ins (STR_X O_new O_word 0),
     Label 56,
     Ins (MOV_XZR O_status),
     Ins (BR (Fwd 50)),
     Label 53,
     Ins (MOV_X O_current O_other_val),
     Label 54,
     Ins (MOV_IMM O_status 1),
     Ins (BR (Fwd 50)),
     Label 55,
     Ins (MOV_XZR O_current),
     Ins (MOV_IMM O_status 2),
     Label 50]"

definition a64_compare_exchange_if_binds :: "u64 \<Rightarrow> u64 \<Rightarrow> u32 \<Rightarrow> usize \<Rightarrow> usize \<Rightarrow> u64 \<Rightarrow> usize \<Rightarrow> bind list" where
  "a64_compare_exchange_if_binds area word idx expect new other other_expect =
    [In O_rseq area, In O_word word, In32 O_id idx, In O_expect expect, In O_new new,
     In O_other other, In O_other_expect other_expect, Out O_got, Out O_tmp, Out O_other_val,
     Out O_current, Lateout O_status]"

definition a64_compare_exchange_if ::
  "nat \<Rightarrow> u64 \<Rightarrow> u64 \<Rightarrow> u32 \<Rightarrow> usize \<Rightarrow> usize \<Rightarrow> u64 \<Rightarrow> usize \<Rightarrow> asm_env \<Rightarrow> mem \<Rightarrow> attempt call" where
  "a64_compare_exchange_if ID_OFF area word idx expect new other other_expect =
     asm_block a64_exec a64_map (a64_compare_exchange_if_asm ID_OFF)
       (a64_compare_exchange_if_binds area word idx expect new other other_expect) O_current"

definition a64_load_if_ne_asm :: "nat \<Rightarrow> lref a64 item list" where
  "a64_load_if_ne_asm ID_OFF =
    [Pushsection,
     Balign 32,
     Label 49,
     Long 0,
     Long 0,
     Quad (QLabel (Fwd 42)),
     Quad (QDiff (Fwd 46) (Fwd 42)),
     Quad (QLabel (Fwd 47)),
     Popsection,
     Ins (BR (Fwd 47)),
     Long SIG_aarch64,
     Label 47,
     Ins (ADRP O_tmp (Bwd 49)),
     Ins (ADD_LO12 O_tmp O_tmp (Bwd 49)),
     Ins (STR_X O_tmp O_rseq CS_OFF),
     Label 42,
     Ins (LDR_W O_got O_rseq ID_OFF),
     Ins (CMP_W O_got O_id),
     Ins (BNE (Fwd 45)),
     Ins (LDR O_current O_word),
     Ins (CMP_X O_current O_expect_not),
     Ins (BEQ (Fwd 44)),
     Ins (ADD_X O_chase O_current O_offset),
     Ins (LDR O_chase O_chase),
     Ins (STR_X O_chase O_word 0),
     Label 46,
     Ins (MOV_XZR O_status),
     Ins (BR (Fwd 41)),
     Label 44,
     Ins (MOV_IMM O_status 1),
     Ins (BR (Fwd 41)),
     Label 45,
     Ins (MOV_XZR O_current),
     Ins (MOV_IMM O_status 2),
     Label 41]"

definition a64_load_if_ne_binds :: "u64 \<Rightarrow> u64 \<Rightarrow> u32 \<Rightarrow> usize \<Rightarrow> isize \<Rightarrow> bind list" where
  "a64_load_if_ne_binds area word idx expect_not offset =
    [In O_rseq area, In O_word word, In32 O_id idx, In O_expect_not expect_not,
     In O_offset offset, Out O_got, Out O_tmp, Out O_chase, Out O_current, Lateout O_status]"

definition a64_load_if_ne ::
  "nat \<Rightarrow> u64 \<Rightarrow> u64 \<Rightarrow> u32 \<Rightarrow> usize \<Rightarrow> isize \<Rightarrow> asm_env \<Rightarrow> mem \<Rightarrow> attempt call" where
  "a64_load_if_ne ID_OFF area word idx expect_not offset =
     asm_block a64_exec a64_map (a64_load_if_ne_asm ID_OFF)
       (a64_load_if_ne_binds area word idx expect_not offset) O_current"

definition a64_fetch_add_at_asm :: "nat \<Rightarrow> lref a64 item list" where
  "a64_fetch_add_at_asm ID_OFF =
    [Pushsection,
     Balign 32,
     Label 69,
     Long 0,
     Long 0,
     Quad (QLabel (Fwd 62)),
     Quad (QDiff (Fwd 66) (Fwd 62)),
     Quad (QLabel (Fwd 67)),
     Popsection,
     Ins (BR (Fwd 67)),
     Long SIG_aarch64,
     Label 67,
     Ins (ADRP O_tmp (Bwd 69)),
     Ins (ADD_LO12 O_tmp O_tmp (Bwd 69)),
     Ins (STR_X O_tmp O_rseq CS_OFF),
     Label 62,
     Ins (LDR_W O_got O_rseq ID_OFF),
     Ins (CMP_W O_got O_id),
     Ins (BNE (Fwd 65)),
     Ins (LDR O_base O_ptr),
     Ins (ADD_X O_base O_base O_offset),
     Ins (LDR O_slot O_base),
     Ins (LDR O_prev O_slot),
     Ins (ADD_X O_sum O_prev O_count),
     Ins (STR_X O_sum O_slot 0),
     Label 66,
     Ins (MOV_XZR O_status),
     Ins (BR (Fwd 61)),
     Label 65,
     Ins (MOV_XZR O_prev),
     Ins (MOV_IMM O_status 2),
     Label 61]"

definition a64_fetch_add_at_binds :: "u64 \<Rightarrow> u64 \<Rightarrow> u32 \<Rightarrow> isize \<Rightarrow> usize \<Rightarrow> bind list" where
  "a64_fetch_add_at_binds area ptr idx offset count =
    [In O_rseq area, In O_ptr ptr, In32 O_id idx, In O_offset offset, In O_count count,
     Out O_got, Out O_tmp, Out O_base, Out O_slot, Out O_sum, Out O_prev, Lateout O_status]"

definition a64_fetch_add_at ::
  "nat \<Rightarrow> u64 \<Rightarrow> u64 \<Rightarrow> u32 \<Rightarrow> isize \<Rightarrow> usize \<Rightarrow> asm_env \<Rightarrow> mem \<Rightarrow> attempt call" where
  "a64_fetch_add_at ID_OFF area ptr idx offset count =
     asm_block a64_exec a64_map (a64_fetch_add_at_asm ID_OFF)
       (a64_fetch_add_at_binds area ptr idx offset count) O_prev"

section \<open>Outlines\<close>

text \<open>\<open>fetch_add_at\<close>: the address of the counter has been loaded.\<close>

definition chased :: "asm_env \<Rightarrow> u64 \<Rightarrow> u64 \<Rightarrow> mstate \<Rightarrow> bool" where
  "chased env p d st \<longleftrightarrow>
     regs st (alloc env O_slot) = load64 (mem st) (load64 (mem st) p + d)"

text \<open>The install of the descriptor, up to the critical section.\<close>

definition a64_install :: "cs_call \<Rightarrow> bind list \<Rightarrow> asm_env \<Rightarrow> outline" where
  "a64_install c bs env =
    [ready c bs env, \<lambda>st tr. False, ready c bs env,
     \<lambda>st tr. ready c bs env st tr \<and> regs st (alloc env O_tmp) = and (cs_addr env) (not 4095),
     \<lambda>st tr. ready c bs env st tr \<and> regs st (alloc env O_tmp) = cs_addr env]"

lemmas a64_simps = a64_install_def outline_defs chased_def page_split page_split_minus

lemma a64_compare_exchange_outline:
  assumes "link a64_map (a64_compare_exchange_asm (off c)) = Some P" "id_off_ok (off c)"
    "oper c = Compare_exchange w e n" "bs = a64_compare_exchange_binds (ar c) w (ident c) e n"
    "alloc_ok (alloc env) bs"
  shows "outline_ok (a64_install c bs env @ cas_outline c bs env w e)
    (a64_exec (alloc env) (cs_addr env)) P SIG_aarch64 c bs O_current env"
  using assms(1-3) alloc_apart [OF assms(5)] unfolding assms(4)
  by (clarsimp simp: link_def a64_compare_exchange_asm_def a64_map_def,
      (intro outline_okI; simp add: cas_outline_def a64_simps outline_simps a64_compare_exchange_binds_def;
       safe; simp add: a64_simps asm_simps mem_simps outline_simps cs_spec_simps))

lemma a64_fetch_add_outline:
  assumes "link a64_map (a64_fetch_add_asm (off c)) = Some P" "id_off_ok (off c)"
    "oper c = Fetch_add w k" "bs = a64_fetch_add_binds (ar c) w (ident c) k"
    "alloc_ok (alloc env) bs"
  shows "outline_ok (a64_install c bs env @ confirm_outline c bs env @
      [confirmed c bs env (\<lambda>st. True),
       confirmed c bs env (\<lambda>st. regs st (alloc env O_prev) = load64 (mem st) w),
       confirmed c bs env (\<lambda>st. regs st (alloc env O_prev) = load64 (mem st) w \<and>
         regs st (alloc env O_sum) = load64 (mem st) w + k)] @
      ok_outline c env O_prev @ abort_outline c env O_prev)
    (a64_exec (alloc env) (cs_addr env)) P SIG_aarch64 c bs O_prev env"
  using assms(1-3) alloc_apart [OF assms(5)] unfolding assms(4)
  by (clarsimp simp: link_def a64_fetch_add_asm_def a64_map_def,
      (intro outline_okI; simp add: a64_simps outline_simps a64_fetch_add_binds_def;
       safe; simp add: a64_simps asm_simps mem_simps outline_simps cs_spec_simps))

lemma a64_store_if_outline:
  assumes "link a64_map (a64_store_if_asm (off c)) = Some P" "id_off_ok (off c)"
    "oper c = Store_if w e n s sn" "bs = a64_store_if_binds (ar c) w (ident c) e n s sn"
    "alloc_ok (alloc env) bs"
  shows "outline_ok (a64_install c bs env @ store_if_outline c bs env w e)
    (a64_exec (alloc env) (cs_addr env)) P SIG_aarch64 c bs O_current env"
  using assms(1-3) alloc_apart [OF assms(5)] unfolding assms(4)
  by (clarsimp simp: link_def a64_store_if_asm_def a64_map_def,
      (intro outline_okI; simp add: store_if_outline_def a64_simps outline_simps a64_store_if_binds_def;
       safe; simp add: a64_simps asm_simps mem_simps outline_simps cs_spec_simps))

lemma a64_compare_exchange_if_outline:
  assumes "link a64_map (a64_compare_exchange_if_asm (off c)) = Some P" "id_off_ok (off c)"
    "oper c = Compare_exchange_if w e n x xe" "bs = a64_compare_exchange_if_binds (ar c) w (ident c) e n x xe"
    "alloc_ok (alloc env) bs"
  shows "outline_ok (a64_install c bs env @ cas_if_outline c bs env w e x xe)
    (a64_exec (alloc env) (cs_addr env)) P SIG_aarch64 c bs O_current env"
  using assms(1-3) alloc_apart [OF assms(5)] unfolding assms(4)
  by (clarsimp simp: link_def a64_compare_exchange_if_asm_def a64_map_def,
      (intro outline_okI; simp add: cas_if_outline_def a64_simps outline_simps a64_compare_exchange_if_binds_def;
       safe; simp add: a64_simps asm_simps mem_simps outline_simps cs_spec_simps))

lemma a64_load_if_ne_outline:
  assumes "link a64_map (a64_load_if_ne_asm (off c)) = Some P" "id_off_ok (off c)"
    "oper c = Load_if_ne w en d" "bs = a64_load_if_ne_binds (ar c) w (ident c) en d"
    "alloc_ok (alloc env) bs"
  shows "outline_ok (a64_install c bs env @ confirm_outline c bs env @
      skip_outline c bs env w en @
      [confirmed c bs env (\<lambda>st. new_head env w en st),
       confirmed c bs env (\<lambda>st. new_head env w en st \<and>
         regs st (alloc env O_chase) = load64 (mem st) w + d),
       confirmed c bs env (\<lambda>st. new_head env w en st \<and>
         regs st (alloc env O_chase) = load64 (mem st) (load64 (mem st) w + d))] @
      ok_outline c env O_current @ miss_outline c env O_current @ abort_outline c env O_current)
    (a64_exec (alloc env) (cs_addr env)) P SIG_aarch64 c bs O_current env"
  using assms(1-3) alloc_apart [OF assms(5)] unfolding assms(4)
  by (clarsimp simp: link_def a64_load_if_ne_asm_def a64_map_def,
      (intro outline_okI; simp add: a64_simps outline_simps a64_load_if_ne_binds_def;
       safe; simp add: a64_simps asm_simps mem_simps outline_simps cs_spec_simps))

lemma a64_fetch_add_at_outline:
  assumes "link a64_map (a64_fetch_add_at_asm (off c)) = Some P" "id_off_ok (off c)"
    "oper c = Fetch_add_at p d k" "bs = a64_fetch_add_at_binds (ar c) p (ident c) d k"
    "alloc_ok (alloc env) bs"
  shows "outline_ok (a64_install c bs env @ confirm_outline c bs env @
      [confirmed c bs env (\<lambda>st. True),
       confirmed c bs env (\<lambda>st. regs st (alloc env O_base) = load64 (mem st) p),
       confirmed c bs env (\<lambda>st. regs st (alloc env O_base) = load64 (mem st) p + d),
       confirmed c bs env (\<lambda>st. chased env p d st),
       confirmed c bs env (\<lambda>st. chased env p d st \<and>
         regs st (alloc env O_prev) = load64 (mem st) (load64 (mem st) (load64 (mem st) p + d))),
       confirmed c bs env (\<lambda>st. chased env p d st \<and>
         regs st (alloc env O_prev) = load64 (mem st) (load64 (mem st) (load64 (mem st) p + d)) \<and>
         regs st (alloc env O_sum) = load64 (mem st) (load64 (mem st) (load64 (mem st) p + d)) + k)] @
      ok_outline c env O_prev @ abort_outline c env O_prev)
    (a64_exec (alloc env) (cs_addr env)) P SIG_aarch64 c bs O_prev env"
  using assms(1-3) alloc_apart [OF assms(5)] unfolding assms(4)
  by (clarsimp simp: link_def a64_fetch_add_at_asm_def a64_map_def,
      (intro outline_okI; simp add: a64_simps outline_simps a64_fetch_add_at_binds_def;
       safe; simp add: a64_simps asm_simps mem_simps outline_simps cs_spec_simps))

section \<open>The module\<close>

definition aarch64_cs :: cs_module where
  "aarch64_cs = \<lparr>cs_compare_exchange = a64_compare_exchange, cs_fetch_add = a64_fetch_add,
     cs_store_if = a64_store_if, cs_compare_exchange_if = a64_compare_exchange_if,
     cs_load_if_ne = a64_load_if_ne, cs_fetch_add_at = a64_fetch_add_at\<rparr>"

text \<open>The calls whose environment the module relies on.\<close>

fun a64_legal_op :: "cs_op \<Rightarrow> cs_call \<Rightarrow> asm_env \<Rightarrow> mem \<Rightarrow> bool" where
  "a64_legal_op (Compare_exchange w e n) c =
     legal_block a64_exec a64_map (a64_compare_exchange_asm (off c))
       (a64_compare_exchange_binds (ar c) w (ident c) e n) SIG_aarch64 c"
| "a64_legal_op (Fetch_add w k) c =
     legal_block a64_exec a64_map (a64_fetch_add_asm (off c))
       (a64_fetch_add_binds (ar c) w (ident c) k) SIG_aarch64 c"
| "a64_legal_op (Store_if w e n s sn) c =
     legal_block a64_exec a64_map (a64_store_if_asm (off c))
       (a64_store_if_binds (ar c) w (ident c) e n s sn) SIG_aarch64 c"
| "a64_legal_op (Compare_exchange_if w e n x xe) c =
     legal_block a64_exec a64_map (a64_compare_exchange_if_asm (off c))
       (a64_compare_exchange_if_binds (ar c) w (ident c) e n x xe) SIG_aarch64 c"
| "a64_legal_op (Load_if_ne w en d) c =
     legal_block a64_exec a64_map (a64_load_if_ne_asm (off c))
       (a64_load_if_ne_binds (ar c) w (ident c) en d) SIG_aarch64 c"
| "a64_legal_op (Fetch_add_at p d k) c =
     legal_block a64_exec a64_map (a64_fetch_add_at_asm (off c))
       (a64_fetch_add_at_binds (ar c) p (ident c) d k) SIG_aarch64 c"

definition a64_legal :: "cs_call \<Rightarrow> asm_env \<Rightarrow> mem \<Rightarrow> bool" where
  "a64_legal c = a64_legal_op (oper c) c"

lemma a64_compare_exchange_links: "links a64_map (a64_compare_exchange_asm k)"
  by (simp add: links_def link_def a64_compare_exchange_asm_def a64_map_def BLOCK_MAX_def)

lemma a64_fetch_add_links: "links a64_map (a64_fetch_add_asm k)"
  by (simp add: links_def link_def a64_fetch_add_asm_def a64_map_def BLOCK_MAX_def)

lemma a64_store_if_links: "links a64_map (a64_store_if_asm k)"
  by (simp add: links_def link_def a64_store_if_asm_def a64_map_def BLOCK_MAX_def)

lemma a64_compare_exchange_if_links: "links a64_map (a64_compare_exchange_if_asm k)"
  by (simp add: links_def link_def a64_compare_exchange_if_asm_def a64_map_def BLOCK_MAX_def)

lemma a64_load_if_ne_links: "links a64_map (a64_load_if_ne_asm k)"
  by (simp add: links_def link_def a64_load_if_ne_asm_def a64_map_def BLOCK_MAX_def)

lemma a64_fetch_add_at_links: "links a64_map (a64_fetch_add_at_asm k)"
  by (simp add: links_def link_def a64_fetch_add_at_asm_def a64_map_def BLOCK_MAX_def)

lemmas a64_functions = a64_compare_exchange_def a64_fetch_add_def a64_store_if_def a64_compare_exchange_if_def a64_load_if_ne_def a64_fetch_add_at_def

lemma a64_keeps:
  assumes "a64_legal c env m"
  shows "keeps c env (call_of aarch64_cs c env m)"
proof (cases "oper c")
  case (Compare_exchange w e n)
  show ?thesis using assms
    by (simp add: Compare_exchange a64_legal_def call_of_def aarch64_cs_def a64_functions)
       (erule outline_keeps [OF a64_compare_exchange_links],
        erule (1) a64_compare_exchange_outline [OF _ _ Compare_exchange refl])
next
  case (Fetch_add w k)
  show ?thesis using assms
    by (simp add: Fetch_add a64_legal_def call_of_def aarch64_cs_def a64_functions)
       (erule outline_keeps [OF a64_fetch_add_links],
        erule (1) a64_fetch_add_outline [OF _ _ Fetch_add refl])
next
  case (Store_if w e n s sn)
  show ?thesis using assms
    by (simp add: Store_if a64_legal_def call_of_def aarch64_cs_def a64_functions)
       (erule outline_keeps [OF a64_store_if_links],
        erule (1) a64_store_if_outline [OF _ _ Store_if refl])
next
  case (Compare_exchange_if w e n x xe)
  show ?thesis using assms
    by (simp add: Compare_exchange_if a64_legal_def call_of_def aarch64_cs_def a64_functions)
       (erule outline_keeps [OF a64_compare_exchange_if_links],
        erule (1) a64_compare_exchange_if_outline [OF _ _ Compare_exchange_if refl])
next
  case (Load_if_ne w en d)
  show ?thesis using assms
    by (simp add: Load_if_ne a64_legal_def call_of_def aarch64_cs_def a64_functions)
       (erule outline_keeps [OF a64_load_if_ne_links],
        erule (1) a64_load_if_ne_outline [OF _ _ Load_if_ne refl])
next
  case (Fetch_add_at p d k)
  show ?thesis using assms
    by (simp add: Fetch_add_at a64_legal_def call_of_def aarch64_cs_def a64_functions)
       (erule outline_keeps [OF a64_fetch_add_at_links],
        erule (1) a64_fetch_add_at_outline [OF _ _ Fetch_add_at refl])
qed

text \<open>The module keeps the contract that \<open>src/thread.rs\<close> relies on.\<close>

interpretation a64: cs_atomic aarch64_cs a64_legal
  using a64_keeps unfolding keeps_def by unfold_locales blast+

end
