(* ===== verification/Solo.thy ===== *)
theory Solo
  imports X86_64 Aarch64
begin

text \<open>
  A call that is left alone: the exact outcome and the exact memory it leaves, on both
  targets, and with it the agreement of the two implementations. Also concrete environments,
  with a register of its own for every operand, in which calls are legal.
\<close>

section \<open>The reference result\<close>

text \<open>
  The descriptor is installed; then the atomic operation happens, preceded by the scratch
  store if it succeeds.
\<close>

definition solo :: "cs_call \<Rightarrow> u64 \<Rightarrow> mem \<Rightarrow> attempt \<times> mem" where
  "solo c cs m = (let m1 = store64 m (ar c + of_nat CS_OFF) cs in
     case cs_spec c m1 of (a, None) \<Rightarrow> (a, m1)
     | (a, Some s) \<Rightarrow> (a, put (Some s) (put (scratch (oper c)) m1)))"

definition solo_ok :: "asm_env \<Rightarrow> cs_call \<Rightarrow> mem \<Rightarrow> attempt call \<Rightarrow> bool" where
  "solo_ok env c m r \<longleftrightarrow>
     (\<exists>tr. r = Returned (fst (solo c (cs_addr env) m)) tr (snd (solo c (cs_addr env) m)))"

lemma cs_spec_store_cs:
  assumes "id_off_ok (off c)" "valid c m"
  shows "cs_spec c (store64 m (ar c + of_nat CS_OFF) v) = cs_spec c m"
  using assms by (cases "oper c") (auto simp: cs_spec_def valid_def mem_simps Let_def)

text \<open>The outcome is that of the operation on the memory before the call.\<close>

lemma solo_outcome:
  "id_off_ok (off c) \<Longrightarrow> valid c m \<Longrightarrow> fst (solo c cs m) = fst (cs_spec c m)"
  by (simp add: solo_def Let_def cs_spec_store_cs split: prod.splits option.splits)

section \<open>Straight runs\<close>

lemma go_block: "replicate BLOCK_MAX Go = [Go, Go, Go, Go, Go, Go, Go, Go, Go, Go, Go, Go, Go, Go,
    Go, Go, Go, Go, Go, Go, Go, Go]"
  by (simp add: BLOCK_MAX_def numeral_eq_Suc)

definition solo_run ::
  "'j exec \<Rightarrow> 'j prog \<Rightarrow> bind list \<Rightarrow> opnd \<Rightarrow> asm_env \<Rightarrow> cs_call \<Rightarrow> mstate \<Rightarrow> bool" where
  "solo_run ex P bs res env c st \<longleftrightarrow> (list_all (bound (alloc env) (regs st)) bs \<longrightarrow> pc st = 0 \<longrightarrow>
     (case run ex P (replicate BLOCK_MAX Go) st [] of None \<Rightarrow> False
      | Some (st', tr) \<Rightarrow> finished P st' \<and>
          (from_status (regs st' (alloc env O_status)) (regs st' (alloc env res)), mem st')
            = solo c (cs_addr env) (mem st)))"

lemma solo_block:
  assumes "links mp tmpl" "legal_block ex mp tmpl bs sig c env m"
    "events env = replicate BLOCK_MAX Go"
    "\<And>P st. link mp tmpl = Some P \<Longrightarrow> id_off_ok (off c) \<Longrightarrow> alloc_ok (alloc env) bs \<Longrightarrow>
      valid c (mem st) \<Longrightarrow> solo_run (ex (alloc env) (cs_addr env)) P bs res env c st"
  shows "solo_ok env c m (asm_block ex mp tmpl bs res env m)"
proof -
  obtain P where P: "link mp tmpl = Some P"
    using assms(1) by (auto simp: links_def split: option.splits)
  have l: "id_off_ok (off c)" "alloc_ok (alloc env) bs" "valid c m"
    using assms(2) by (auto simp: legal_block_def)
  let ?st = "entry bs env m"
  have "solo_run (ex (alloc env) (cs_addr env)) P bs res env c ?st"
    using l by (intro assms(4) [OF P]) (auto simp: entry_def)
  moreover have "list_all (bound (alloc env) (regs ?st)) bs" "pc ?st = 0" "mem ?st = m"
    using bind_regs_bound [OF l(2)] by (auto simp: entry_def list_all_iff)
  ultimately show ?thesis using P assms(3)
    by (auto simp: solo_run_def solo_ok_def asm_block_def split: option.splits)
       (metis fst_conv, metis snd_conv)
qed

lemmas solo_simps = solo_run_def finished_def step_def Let_def go_block solo_def cs_spec_def put_def

lemma x86_compare_exchange_solo:
  assumes "link x86_map (x86_compare_exchange_asm (off c)) = Some P" "id_off_ok (off c)"
    "oper c = Compare_exchange w e n" "bs = x86_compare_exchange_binds (ar c) w (ident c) e n"
    "alloc_ok (alloc env) bs" "valid c (mem st)"
  shows "solo_run (x86_exec (alloc env) (cs_addr env)) P bs O_current env c st"
  using assms(1-3,6) alloc_apart [OF assms(5)] unfolding assms(4)
  by (cases "matches c (mem st)"; cases "load64 (mem st) w = e";
      clarsimp simp: solo_run_def link_def x86_compare_exchange_asm_def x86_compare_exchange_binds_def x86_map_def;
      simp add: solo_simps mem_simps asm_simps valid_def)

lemma x86_fetch_add_solo:
  assumes "link x86_map (x86_fetch_add_asm (off c)) = Some P" "id_off_ok (off c)"
    "oper c = Fetch_add w k" "bs = x86_fetch_add_binds (ar c) w (ident c) k"
    "alloc_ok (alloc env) bs" "valid c (mem st)"
  shows "solo_run (x86_exec (alloc env) (cs_addr env)) P bs O_prev env c st"
  using assms(1-3,6) alloc_apart [OF assms(5)] unfolding assms(4)
  by (cases "matches c (mem st)";
      clarsimp simp: solo_run_def link_def x86_fetch_add_asm_def x86_fetch_add_binds_def x86_map_def;
      simp add: solo_simps mem_simps asm_simps valid_def)

lemma x86_store_if_solo:
  assumes "link x86_map (x86_store_if_asm (off c)) = Some P" "id_off_ok (off c)"
    "oper c = Store_if w e n s sn" "bs = x86_store_if_binds (ar c) w (ident c) e n s sn"
    "alloc_ok (alloc env) bs" "valid c (mem st)"
  shows "solo_run (x86_exec (alloc env) (cs_addr env)) P bs O_current env c st"
  using assms(1-3,6) alloc_apart [OF assms(5)] unfolding assms(4)
  by (cases "matches c (mem st)"; cases "load64 (mem st) w = e";
      clarsimp simp: solo_run_def link_def x86_store_if_asm_def x86_store_if_binds_def x86_map_def;
      simp add: solo_simps mem_simps asm_simps valid_def)

lemma x86_compare_exchange_if_solo:
  assumes "link x86_map (x86_compare_exchange_if_asm (off c)) = Some P" "id_off_ok (off c)"
    "oper c = Compare_exchange_if w e n x xe" "bs = x86_compare_exchange_if_binds (ar c) w (ident c) e n x xe"
    "alloc_ok (alloc env) bs" "valid c (mem st)"
  shows "solo_run (x86_exec (alloc env) (cs_addr env)) P bs O_current env c st"
  using assms(1-3,6) alloc_apart [OF assms(5)] unfolding assms(4)
  by (cases "matches c (mem st)"; cases "load64 (mem st) w = e"; cases "load64 (mem st) x = xe";
      clarsimp simp: solo_run_def link_def x86_compare_exchange_if_asm_def x86_compare_exchange_if_binds_def x86_map_def;
      simp add: solo_simps mem_simps asm_simps valid_def)

lemma x86_load_if_ne_solo:
  assumes "link x86_map (x86_load_if_ne_asm (off c)) = Some P" "id_off_ok (off c)"
    "oper c = Load_if_ne w en d" "bs = x86_load_if_ne_binds (ar c) w (ident c) en d"
    "alloc_ok (alloc env) bs" "valid c (mem st)"
  shows "solo_run (x86_exec (alloc env) (cs_addr env)) P bs O_current env c st"
  using assms(1-3,6) alloc_apart [OF assms(5)] unfolding assms(4)
  by (cases "matches c (mem st)"; cases "load64 (mem st) w = en";
      clarsimp simp: solo_run_def link_def x86_load_if_ne_asm_def x86_load_if_ne_binds_def x86_map_def;
      simp add: solo_simps mem_simps asm_simps valid_def)

lemma x86_fetch_add_at_solo:
  assumes "link x86_map (x86_fetch_add_at_asm (off c)) = Some P" "id_off_ok (off c)"
    "oper c = Fetch_add_at p d k" "bs = x86_fetch_add_at_binds (ar c) p (ident c) d k"
    "alloc_ok (alloc env) bs" "valid c (mem st)"
  shows "solo_run (x86_exec (alloc env) (cs_addr env)) P bs O_prev env c st"
  using assms(1-3,6) alloc_apart [OF assms(5)] unfolding assms(4)
  by (cases "matches c (mem st)";
      clarsimp simp: solo_run_def link_def x86_fetch_add_at_asm_def x86_fetch_add_at_binds_def x86_map_def;
      simp add: solo_simps mem_simps asm_simps valid_def)

lemma a64_compare_exchange_solo:
  assumes "link a64_map (a64_compare_exchange_asm (off c)) = Some P" "id_off_ok (off c)"
    "oper c = Compare_exchange w e n" "bs = a64_compare_exchange_binds (ar c) w (ident c) e n"
    "alloc_ok (alloc env) bs" "valid c (mem st)"
  shows "solo_run (a64_exec (alloc env) (cs_addr env)) P bs O_current env c st"
  using assms(1-3,6) alloc_apart [OF assms(5)] unfolding assms(4)
  by (cases "matches c (mem st)"; cases "load64 (mem st) w = e";
      clarsimp simp: solo_run_def link_def a64_compare_exchange_asm_def a64_compare_exchange_binds_def a64_map_def;
      simp add: solo_simps mem_simps asm_simps valid_def page_split page_split_minus)

lemma a64_fetch_add_solo:
  assumes "link a64_map (a64_fetch_add_asm (off c)) = Some P" "id_off_ok (off c)"
    "oper c = Fetch_add w k" "bs = a64_fetch_add_binds (ar c) w (ident c) k"
    "alloc_ok (alloc env) bs" "valid c (mem st)"
  shows "solo_run (a64_exec (alloc env) (cs_addr env)) P bs O_prev env c st"
  using assms(1-3,6) alloc_apart [OF assms(5)] unfolding assms(4)
  by (cases "matches c (mem st)";
      clarsimp simp: solo_run_def link_def a64_fetch_add_asm_def a64_fetch_add_binds_def a64_map_def;
      simp add: solo_simps mem_simps asm_simps valid_def page_split page_split_minus)

lemma a64_store_if_solo:
  assumes "link a64_map (a64_store_if_asm (off c)) = Some P" "id_off_ok (off c)"
    "oper c = Store_if w e n s sn" "bs = a64_store_if_binds (ar c) w (ident c) e n s sn"
    "alloc_ok (alloc env) bs" "valid c (mem st)"
  shows "solo_run (a64_exec (alloc env) (cs_addr env)) P bs O_current env c st"
  using assms(1-3,6) alloc_apart [OF assms(5)] unfolding assms(4)
  by (cases "matches c (mem st)"; cases "load64 (mem st) w = e";
      clarsimp simp: solo_run_def link_def a64_store_if_asm_def a64_store_if_binds_def a64_map_def;
      simp add: solo_simps mem_simps asm_simps valid_def page_split page_split_minus)

lemma a64_compare_exchange_if_solo:
  assumes "link a64_map (a64_compare_exchange_if_asm (off c)) = Some P" "id_off_ok (off c)"
    "oper c = Compare_exchange_if w e n x xe" "bs = a64_compare_exchange_if_binds (ar c) w (ident c) e n x xe"
    "alloc_ok (alloc env) bs" "valid c (mem st)"
  shows "solo_run (a64_exec (alloc env) (cs_addr env)) P bs O_current env c st"
  using assms(1-3,6) alloc_apart [OF assms(5)] unfolding assms(4)
  by (cases "matches c (mem st)"; cases "load64 (mem st) w = e"; cases "load64 (mem st) x = xe";
      clarsimp simp: solo_run_def link_def a64_compare_exchange_if_asm_def a64_compare_exchange_if_binds_def a64_map_def;
      simp add: solo_simps mem_simps asm_simps valid_def page_split page_split_minus)

lemma a64_load_if_ne_solo:
  assumes "link a64_map (a64_load_if_ne_asm (off c)) = Some P" "id_off_ok (off c)"
    "oper c = Load_if_ne w en d" "bs = a64_load_if_ne_binds (ar c) w (ident c) en d"
    "alloc_ok (alloc env) bs" "valid c (mem st)"
  shows "solo_run (a64_exec (alloc env) (cs_addr env)) P bs O_current env c st"
  using assms(1-3,6) alloc_apart [OF assms(5)] unfolding assms(4)
  by (cases "matches c (mem st)"; cases "load64 (mem st) w = en";
      clarsimp simp: solo_run_def link_def a64_load_if_ne_asm_def a64_load_if_ne_binds_def a64_map_def;
      simp add: solo_simps mem_simps asm_simps valid_def page_split page_split_minus)

lemma a64_fetch_add_at_solo:
  assumes "link a64_map (a64_fetch_add_at_asm (off c)) = Some P" "id_off_ok (off c)"
    "oper c = Fetch_add_at p d k" "bs = a64_fetch_add_at_binds (ar c) p (ident c) d k"
    "alloc_ok (alloc env) bs" "valid c (mem st)"
  shows "solo_run (a64_exec (alloc env) (cs_addr env)) P bs O_prev env c st"
  using assms(1-3,6) alloc_apart [OF assms(5)] unfolding assms(4)
  by (cases "matches c (mem st)";
      clarsimp simp: solo_run_def link_def a64_fetch_add_at_asm_def a64_fetch_add_at_binds_def a64_map_def;
      simp add: solo_simps mem_simps asm_simps valid_def page_split page_split_minus)

lemma x86_solo:
  assumes "x86_legal c env m" "events env = replicate BLOCK_MAX Go"
  shows "solo_ok env c m (call_of x86_64_cs c env m)"
proof (cases "oper c")
  case (Compare_exchange w e n)
  show ?thesis using assms
    by (simp add: Compare_exchange x86_legal_def call_of_def x86_64_cs_def x86_functions)
       (erule solo_block [OF x86_compare_exchange_links], assumption,
        erule (2) x86_compare_exchange_solo [OF _ _ Compare_exchange refl])
next
  case (Fetch_add w k)
  show ?thesis using assms
    by (simp add: Fetch_add x86_legal_def call_of_def x86_64_cs_def x86_functions)
       (erule solo_block [OF x86_fetch_add_links], assumption,
        erule (2) x86_fetch_add_solo [OF _ _ Fetch_add refl])
next
  case (Store_if w e n s sn)
  show ?thesis using assms
    by (simp add: Store_if x86_legal_def call_of_def x86_64_cs_def x86_functions)
       (erule solo_block [OF x86_store_if_links], assumption,
        erule (2) x86_store_if_solo [OF _ _ Store_if refl])
next
  case (Compare_exchange_if w e n x xe)
  show ?thesis using assms
    by (simp add: Compare_exchange_if x86_legal_def call_of_def x86_64_cs_def x86_functions)
       (erule solo_block [OF x86_compare_exchange_if_links], assumption,
        erule (2) x86_compare_exchange_if_solo [OF _ _ Compare_exchange_if refl])
next
  case (Load_if_ne w en d)
  show ?thesis using assms
    by (simp add: Load_if_ne x86_legal_def call_of_def x86_64_cs_def x86_functions)
       (erule solo_block [OF x86_load_if_ne_links], assumption,
        erule (2) x86_load_if_ne_solo [OF _ _ Load_if_ne refl])
next
  case (Fetch_add_at p d k)
  show ?thesis using assms
    by (simp add: Fetch_add_at x86_legal_def call_of_def x86_64_cs_def x86_functions)
       (erule solo_block [OF x86_fetch_add_at_links], assumption,
        erule (2) x86_fetch_add_at_solo [OF _ _ Fetch_add_at refl])
qed

lemma a64_solo:
  assumes "a64_legal c env m" "events env = replicate BLOCK_MAX Go"
  shows "solo_ok env c m (call_of aarch64_cs c env m)"
proof (cases "oper c")
  case (Compare_exchange w e n)
  show ?thesis using assms
    by (simp add: Compare_exchange a64_legal_def call_of_def aarch64_cs_def a64_functions)
       (erule solo_block [OF a64_compare_exchange_links], assumption,
        erule (2) a64_compare_exchange_solo [OF _ _ Compare_exchange refl])
next
  case (Fetch_add w k)
  show ?thesis using assms
    by (simp add: Fetch_add a64_legal_def call_of_def aarch64_cs_def a64_functions)
       (erule solo_block [OF a64_fetch_add_links], assumption,
        erule (2) a64_fetch_add_solo [OF _ _ Fetch_add refl])
next
  case (Store_if w e n s sn)
  show ?thesis using assms
    by (simp add: Store_if a64_legal_def call_of_def aarch64_cs_def a64_functions)
       (erule solo_block [OF a64_store_if_links], assumption,
        erule (2) a64_store_if_solo [OF _ _ Store_if refl])
next
  case (Compare_exchange_if w e n x xe)
  show ?thesis using assms
    by (simp add: Compare_exchange_if a64_legal_def call_of_def aarch64_cs_def a64_functions)
       (erule solo_block [OF a64_compare_exchange_if_links], assumption,
        erule (2) a64_compare_exchange_if_solo [OF _ _ Compare_exchange_if refl])
next
  case (Load_if_ne w en d)
  show ?thesis using assms
    by (simp add: Load_if_ne a64_legal_def call_of_def aarch64_cs_def a64_functions)
       (erule solo_block [OF a64_load_if_ne_links], assumption,
        erule (2) a64_load_if_ne_solo [OF _ _ Load_if_ne refl])
next
  case (Fetch_add_at p d k)
  show ?thesis using assms
    by (simp add: Fetch_add_at a64_legal_def call_of_def aarch64_cs_def a64_functions)
       (erule solo_block [OF a64_fetch_add_at_links], assumption,
        erule (2) a64_fetch_add_at_solo [OF _ _ Fetch_add_at refl])
qed

section \<open>Concrete environments\<close>

text \<open>A register of its own for every operand: an allocation that suits every block.\<close>

primrec reg_of :: "opnd \<Rightarrow> nat" where
  "reg_of O_rseq = 0"
| "reg_of O_word = 1"
| "reg_of O_id = 2"
| "reg_of O_expect = 3"
| "reg_of O_new = 4"
| "reg_of O_got = 5"
| "reg_of O_tmp = 6"
| "reg_of O_current = 7"
| "reg_of O_status = 8"
| "reg_of O_count = 9"
| "reg_of O_prev = 10"
| "reg_of O_sum = 11"
| "reg_of O_side = 12"
| "reg_of O_side_new = 13"
| "reg_of O_other = 14"
| "reg_of O_other_expect = 15"
| "reg_of O_other_val = 16"
| "reg_of O_expect_not = 17"
| "reg_of O_offset = 18"
| "reg_of O_chase = 19"
| "reg_of O_ptr = 20"
| "reg_of O_base = 21"
| "reg_of O_slot = 22"

definition plain_env :: "event list \<Rightarrow> asm_env" where
  "plain_env es = \<lparr>alloc = reg_of, junk = (\<lambda>_. 0), zf_in = False, cs_addr = 0x4000, events = es\<rparr>"

lemma quiet_go [simp]: "quiet BLOCK_MAX (plain_env (replicate BLOCK_MAX Go))"
  by (simp add: quiet_def plain_env_def)

lemma legal_run_go [simp]: "legal_run I R ex P (replicate n Go) st"
  by (induction n arbitrary: st) (auto split: option.splits)

lemma x86_legal_go:
  "id_off_ok (off c) \<Longrightarrow> valid c m \<Longrightarrow> x86_legal c (plain_env (replicate n Go)) m"
  by (cases "oper c")
     (auto simp: x86_legal_def legal_block_def plain_env_def split: option.splits,
      simp_all add: x86_compare_exchange_binds_def x86_fetch_add_binds_def x86_store_if_binds_def
        x86_compare_exchange_if_binds_def x86_load_if_ne_binds_def x86_fetch_add_at_binds_def)

lemma a64_legal_go:
  "id_off_ok (off c) \<Longrightarrow> valid c m \<Longrightarrow> a64_legal c (plain_env (replicate n Go)) m"
  by (cases "oper c")
     (auto simp: a64_legal_def legal_block_def plain_env_def split: option.splits,
      simp_all add: a64_compare_exchange_binds_def a64_fetch_add_binds_def a64_store_if_binds_def
        a64_compare_exchange_if_binds_def a64_load_if_ne_binds_def a64_fetch_add_at_binds_def)

lemma separate_below:
  assumes "unat a + n \<le> unat b" "unat b + k \<le> 2 ^ 64"
  shows "separate a n b k"
  unfolding separate_def
proof (intro allI impI)
  fix i j :: nat assume "i < n" "j < k"
  then have "of_nat (unat a + i) \<noteq> (of_nat (unat b + j) :: u64)"
    using assms by (subst of_nat_inj64) auto
  then show "a + of_nat i \<noteq> b + of_nat j" by simp
qed

lemma read_le_zero: "read_le n (\<lambda>_. 0) a = 0"
  by (induction n arbitrary: a) auto

lemma load_zero [simp]: "load32 (\<lambda>_. 0) a = 0" "load64 (\<lambda>_. 0) a = 0"
  by (simp_all add: load32_def load64_def read_le_zero)

end
