(* ===== verification/Registration.thy ===== *)
theory Registration
  imports Abi
begin

text \<open>
  \<open>src/registration.rs\<close>: the per-thread area that the crate registers itself when glibc did
  not, its registration and release, and the queries of what libc and the kernel offer. The
  platform is an argument: the \<open>rseq\<close> system call, \<open>dlsym\<close>, \<open>getauxval\<close>, the thread pointer
  and the address of the thread-local slot. What \<open>rseq(2)\<close> documents is written down as one
  such system call, for the properties of the whole life of a registration.
\<close>

section \<open>The platform\<close>

text \<open>Memory and the kernel's state for this thread.\<close>

type_synonym 'k world = "mem \<times> 'k"

text \<open>The arguments of the call are the pointer, the length, the flags and the signature.\<close>

type_synonym 'k rseq_call = "u64 \<Rightarrow> u64 \<Rightarrow> u32 \<Rightarrow> u32 \<Rightarrow> 'k world \<Rightarrow> (u64 \<times> errno) \<times> 'k world"

record 'k platform =
  sys_rseq :: "'k rseq_call"
  dlsym :: "string \<Rightarrow> u64"
  getauxval :: "u64 \<Rightarrow> u64"
  thread_pointer :: u64
  tls_slot :: "u64 option" \<comment> \<open>of \<open>SLOT\<close>; none once its destructor has run\<close>

section \<open>The crate's own area\<close>

definition Registration_new :: area where
  "Registration_new = \<lparr>cpu_id_start = 0, cpu_id = CPU_UNINIT, rseq_cs = 0, flags = 0,
     node_id = 0, mm_cid = 0, slice_ctrl = 0\<rparr>"

text \<open>\<open>repr(C, align(32))\<close> around the one field: the address of a slot is a multiple of 32.\<close>

definition Registration_align :: nat where
  "Registration_align = max 32 area_align"

definition Registration_size :: nat where
  "Registration_size = round_up area_size Registration_align"

lemma own_abi: "Registration_size = 32 \<and> Registration_align = 32"
  by (simp add: Registration_size_def Registration_align_def area_size_def area_align_def
      area_fields_def round_up_def)

definition Registration_register ::
  "u32 \<Rightarrow> 'k platform \<Rightarrow> u64 \<Rightarrow> 'k world \<Rightarrow> u64 option \<times> 'k world" where
  "Registration_register sig p slot w =
     (let idx = cpu_id (read_area (fst w) slot) in
      if idx \<noteq> CPU_UNINIT \<and> idx \<noteq> CPU_REG_FAILED then (nonnull slot, w)
      else case sys_rseq p slot (of_nat area_size) 0 sig w of ((rc, err), w') \<Rightarrow>
        (if rc = 0 then nonnull slot else None, w'))"

definition Registration_bind :: "u32 \<Rightarrow> 'k platform \<Rightarrow> 'k world \<Rightarrow> u64 option \<times> 'k world" where
  "Registration_bind sig p w = (case tls_slot p of None \<Rightarrow> (None, w)
     | Some slot \<Rightarrow> Registration_register sig p slot w)"

definition Registration_drop :: "u32 \<Rightarrow> 'k platform \<Rightarrow> u64 \<Rightarrow> 'k world \<Rightarrow> 'k world" where
  "Registration_drop sig p slot w =
     snd (sys_rseq p slot (of_nat area_size) FLAG_UNREGISTER sig w)"

section \<open>Queries\<close>

definition glibc_area_info :: "'k platform \<Rightarrow> mem \<Rightarrow> (isize \<times> usize) option" where
  "glibc_area_info p m =
     (let size_p = dlsym p ''__rseq_size''; offset_p = dlsym p ''__rseq_offset'' in
      if size_p = 0 \<or> offset_p = 0 then None
      else let size = ucast (load32 m size_p) in
        if size < GLIBC_SIZE_MIN then None else Some (load64 m offset_p, size))"

definition node_supported :: "'k platform \<Rightarrow> bool" where
  "node_supported p \<longleftrightarrow> NODE_FEATURE_SIZE \<le> getauxval p AT_RSEQ_FEATURE_SIZE"

definition cid_supported :: "'k platform \<Rightarrow> bool" where
  "cid_supported p \<longleftrightarrow> CID_FEATURE_SIZE \<le> getauxval p AT_RSEQ_FEATURE_SIZE"

definition slice_supported :: "'k platform \<Rightarrow> bool" where
  "slice_supported p \<longleftrightarrow> SLICE_FEATURE_SIZE \<le> getauxval p AT_RSEQ_FEATURE_SIZE"

definition kernel_available :: "'k platform \<Rightarrow> 'k world \<Rightarrow> bool \<times> 'k world" where
  "kernel_available p w = (case sys_rseq p 0 0 0 0 w of ((rc, err), w') \<Rightarrow>
     (rc = - 1 \<and> err = EINVAL, w'))"

definition libc_available :: "'k platform \<Rightarrow> bool" where
  "libc_available p \<longleftrightarrow> dlsym p ''__rseq_size'' \<noteq> 0 \<and> dlsym p ''__rseq_offset'' \<noteq> 0 \<and>
     dlsym p ''__rseq_flags'' \<noteq> 0"

definition glibc_area :: "'k platform \<Rightarrow> isize \<Rightarrow> u64 option" where
  "glibc_area p offset = nonnull (thread_pointer p + offset)"

text \<open>The feature sizes are increasing.\<close>

lemma feature_order:
  "(slice_supported p \<longrightarrow> cid_supported p) \<and> (cid_supported p \<longrightarrow> node_supported p)"
  by (auto simp: slice_supported_def cid_supported_def node_supported_def SLICE_FEATURE_SIZE_def
      CID_FEATURE_SIZE_def NODE_FEATURE_SIZE_def word_le_nat_alt)

section \<open>The module\<close>

text \<open>What \<open>src/rseq.rs\<close> imports as \<open>crate::registration\<close>.\<close>

record 'k registration =
  r_bind :: "'k platform \<Rightarrow> 'k world \<Rightarrow> u64 option \<times> 'k world"
  r_glibc_area_info :: "'k platform \<Rightarrow> mem \<Rightarrow> (isize \<times> usize) option"
  r_node_supported :: "'k platform \<Rightarrow> bool"
  r_cid_supported :: "'k platform \<Rightarrow> bool"
  r_slice_supported :: "'k platform \<Rightarrow> bool"
  r_kernel_available :: "'k platform \<Rightarrow> 'k world \<Rightarrow> bool \<times> 'k world"
  r_libc_available :: "'k platform \<Rightarrow> bool"
  r_glibc_area :: "'k platform \<Rightarrow> isize \<Rightarrow> u64 option"

definition linux_registration :: "u32 \<Rightarrow> 'k registration" where
  "linux_registration sig = \<lparr>r_bind = Registration_bind sig, r_glibc_area_info = glibc_area_info,
     r_node_supported = node_supported, r_cid_supported = cid_supported,
     r_slice_supported = slice_supported, r_kernel_available = kernel_available,
     r_libc_available = libc_available, r_glibc_area = glibc_area\<rparr>"

section \<open>\<open>rseq(2)\<close>\<close>

text \<open>
  The documented system call for one thread that runs on CPU \<open>c\<close>: one registration at a time,
  of an aligned area of 32 bytes; a repeated registration is \<open>EBUSY\<close>, or \<open>EPERM\<close> with another
  signature; only the registered area can be unregistered. Registering writes the CPU into the
  area, unregistering the uninitialised value.
\<close>

type_synonym rseq_state = "(u64 \<times> u64 \<times> u32) option"

definition rseq2 :: "u32 \<Rightarrow> rseq_state rseq_call" where
  "rseq2 c ptr len fl sig w = (case w of (m, k) \<Rightarrow>
     if fl = FLAG_UNREGISTER then
       (case k of None \<Rightarrow> ((- 1, EINVAL), w)
        | Some (p, l, s) \<Rightarrow>
            if p \<noteq> ptr \<or> l \<noteq> len then ((- 1, EINVAL), w)
            else if s \<noteq> sig then ((- 1, EPERM), w)
            else ((0, Other_errno 0),
              (store32 (store32 m ptr 0) (ptr + of_nat CPU_ID_OFF) CPU_UNINIT, None)))
     else if fl \<noteq> 0 then ((- 1, EINVAL), w)
     else (case k of
        Some (p, l, s) \<Rightarrow>
          if p \<noteq> ptr \<or> l \<noteq> len then ((- 1, EINVAL), w)
          else if s \<noteq> sig then ((- 1, EPERM), w) else ((- 1, EBUSY), w)
      | None \<Rightarrow>
          if ptr = 0 \<or> len \<noteq> 32 \<or> \<not> aligned 32 ptr then ((- 1, EINVAL), w)
          else ((0, Other_errno 0),
            (store32 (store32 m ptr c) (ptr + of_nat CPU_ID_OFF) c, Some (ptr, len, sig)))))"

lemma area_size_32: "area_size = 32"
  by (simp add: area_size_def area_align_def area_fields_def round_up_def)

lemma cpu_id_store [simp]: "cpu_id (read_area (store32 m (a + of_nat CPU_ID_OFF) v) a) = v"
  by (simp add: read_area_def mem_simps)

lemma read_area_new: "cpu_id (read_area (write_area m slot Registration_new) slot) = CPU_UNINIT"
  by (simp add: read_write_area Registration_new_def)

section \<open>Properties\<close>

text \<open>A thread starts with the constant area in its slot and nothing registered.\<close>

definition thread_start :: "u64 \<Rightarrow> mem \<Rightarrow> rseq_state world" where
  "thread_start slot m = (write_area m slot Registration_new, None)"

lemma cpu_not_sentinel: "unat (c :: u32) < 2 ^ 32 - 2 \<Longrightarrow> c \<noteq> CPU_UNINIT \<and> c \<noteq> CPU_REG_FAILED"
  by (auto simp: CPU_UNINIT_def CPU_REG_FAILED_def unsigned_minus_1_eq_mask mask_eq_exp_minus_1)

text \<open>The first \<open>bind\<close> of a thread.\<close>

lemma bind_fresh:
  assumes "aligned 32 slot" "slot \<noteq> 0" "sys_rseq p = rseq2 c" "tls_slot p = Some slot"
  shows "Registration_bind sig p (thread_start slot m) = (Some slot,
     (store32 (store32 (write_area m slot Registration_new) slot c) (slot + of_nat CPU_ID_OFF) c,
      Some (slot, 32, sig)))"
  using assms by (simp add: Registration_bind_def Registration_register_def thread_start_def
      read_area_new rseq2_def area_size_32 FLAG_UNREGISTER_def Let_def)

text \<open>
  C35: the life of a registration against \<open>rseq(2)\<close>: in a new thread \<open>bind\<close> registers the slot
  with its full size, no flags and the signature, and returns it; a second \<open>bind\<close> returns the
  same slot without a system call having any effect; the destructor of the slot leaves the
  thread unregistered.
\<close>

theorem registration_lifecycle:
  assumes "aligned 32 slot" "slot \<noteq> 0" "unat c < 2 ^ 32 - 2"
    and "sys_rseq p = rseq2 c" "tls_slot p = Some slot"
  shows "case Registration_bind sig p (thread_start slot m) of (r1, w1) \<Rightarrow>
    r1 = Some slot \<and> snd w1 = Some (slot, 32, sig) \<and> cpu_id (read_area (fst w1) slot) = c \<and>
    Registration_bind sig p w1 = (Some slot, w1) \<and>
    snd (Registration_drop sig p slot w1) = None"
  unfolding bind_fresh [OF assms(1,2,4,5)] using assms cpu_not_sentinel [OF assms(3)]
  by (simp add: Registration_bind_def Registration_register_def rseq2_def area_size_32
      Registration_drop_def FLAG_UNREGISTER_def Let_def)

definition platform0 :: "rseq_state platform" where
  "platform0 = \<lparr>sys_rseq = rseq2 3, dlsym = (\<lambda>_. 0), getauxval = (\<lambda>_. 28), thread_pointer = 0x7000,
     tls_slot = Some 0x1000\<rparr>"

lemma registration_starts:
  "Registration_bind SIG_x86_64 platform0 (thread_start 0x1000 m) = (Some 0x1000,
     (store32 (store32 (write_area m 0x1000 Registration_new) 0x1000 3) (0x1000 + of_nat CPU_ID_OFF) 3,
      Some (0x1000, 32, SIG_x86_64)))"
  by (rule bind_fresh) (simp_all add: platform0_def aligned_def)

theorem registration_lifecycle_witness:
  "\<exists>w. Registration_bind SIG_x86_64 platform0 (thread_start 0x1000 (\<lambda>_. 0)) = (Some 0x1000, w) \<and>
     snd (Registration_drop SIG_x86_64 platform0 0x1000 w) = None"
  using registration_lifecycle [where slot = "0x1000" and c = 3 and p = platform0 and sig = SIG_x86_64
      and m = "\<lambda>_. 0"]
  by (auto simp: platform0_def aligned_def split: prod.splits)

text \<open>
  The size glibc reports is at least the legacy minimum whenever its area is used, and it
  is the 32-bit number glibc publishes.
\<close>

lemma glibc_area_info_size:
  "case glibc_area_info p m of
     None \<Rightarrow> dlsym p ''__rseq_size'' = 0 \<or> dlsym p ''__rseq_offset'' = 0 \<or>
       unat (load32 m (dlsym p ''__rseq_size'')) < 20
   | Some (offset, sz) \<Rightarrow> 20 \<le> unat sz \<and> unat sz = unat (load32 m (dlsym p ''__rseq_size''))
       \<and> offset = load64 m (dlsym p ''__rseq_offset'')"
  by (auto simp: glibc_area_info_def Let_def GLIBC_SIZE_MIN_def unat_ucast_u32 word_less_nat_alt
      word_le_nat_alt not_less)

end
