(* ===== verification/Fallback.thy ===== *)
theory Fallback
  imports Cs_Spec Registration
begin

text \<open>
  \<open>src/fallback.rs\<close>: the module that \<open>src/lib.rs\<close> substitutes on targets without a critical
  section. Every operation is an immediate abort, and nothing is ever registered.
\<close>

definition fb_compare_exchange ::
  "nat \<Rightarrow> u64 \<Rightarrow> u64 \<Rightarrow> u32 \<Rightarrow> usize \<Rightarrow> usize \<Rightarrow> asm_env \<Rightarrow> mem \<Rightarrow> attempt call" where
  "fb_compare_exchange ID_OFF area word idx expect new env m = Returned AAbort [] m"

definition fb_fetch_add ::
  "nat \<Rightarrow> u64 \<Rightarrow> u64 \<Rightarrow> u32 \<Rightarrow> usize \<Rightarrow> asm_env \<Rightarrow> mem \<Rightarrow> attempt call" where
  "fb_fetch_add ID_OFF area word idx count env m = Returned AAbort [] m"

definition fb_store_if ::
  "nat \<Rightarrow> u64 \<Rightarrow> u64 \<Rightarrow> u32 \<Rightarrow> usize \<Rightarrow> usize \<Rightarrow> u64 \<Rightarrow> usize \<Rightarrow> asm_env \<Rightarrow> mem \<Rightarrow> attempt call" where
  "fb_store_if ID_OFF area word idx expect new side side_new env m = Returned AAbort [] m"

definition fb_compare_exchange_if ::
  "nat \<Rightarrow> u64 \<Rightarrow> u64 \<Rightarrow> u32 \<Rightarrow> usize \<Rightarrow> usize \<Rightarrow> u64 \<Rightarrow> usize \<Rightarrow> asm_env \<Rightarrow> mem \<Rightarrow> attempt call" where
  "fb_compare_exchange_if ID_OFF area word idx expect new other other_expect env m =
     Returned AAbort [] m"

definition fb_load_if_ne ::
  "nat \<Rightarrow> u64 \<Rightarrow> u64 \<Rightarrow> u32 \<Rightarrow> usize \<Rightarrow> isize \<Rightarrow> asm_env \<Rightarrow> mem \<Rightarrow> attempt call" where
  "fb_load_if_ne ID_OFF area word idx expect_not offset env m = Returned AAbort [] m"

definition fb_fetch_add_at ::
  "nat \<Rightarrow> u64 \<Rightarrow> u64 \<Rightarrow> u32 \<Rightarrow> isize \<Rightarrow> usize \<Rightarrow> asm_env \<Rightarrow> mem \<Rightarrow> attempt call" where
  "fb_fetch_add_at ID_OFF area ptr idx offset count env m = Returned AAbort [] m"

definition fallback_cs :: cs_module where
  "fallback_cs = \<lparr>cs_compare_exchange = fb_compare_exchange, cs_fetch_add = fb_fetch_add,
     cs_store_if = fb_store_if, cs_compare_exchange_if = fb_compare_exchange_if,
     cs_load_if_ne = fb_load_if_ne, cs_fetch_add_at = fb_fetch_add_at\<rparr>"

lemmas fallback_defs = fallback_cs_def fb_compare_exchange_def fb_fetch_add_def fb_store_if_def
  fb_compare_exchange_if_def fb_load_if_ne_def fb_fetch_add_at_def

lemma fallback_call: "call_of fallback_cs c env m = Returned AAbort [] m"
  by (cases "oper c") (simp_all add: call_of_def fallback_defs)

text \<open>The stub is safe in every environment.\<close>

interpretation fb: cs_safe fallback_cs "\<lambda>c env m. True"
  by unfold_locales (simp_all add: fallback_call)

section \<open>Registration\<close>

text \<open>The stubs of the registration module: no area, no feature, nothing available.\<close>

definition fb_bind :: "'k platform \<Rightarrow> 'k world \<Rightarrow> u64 option \<times> 'k world" where
  "fb_bind p w = (None, w)"

definition fb_glibc_area_info :: "'k platform \<Rightarrow> mem \<Rightarrow> (isize \<times> usize) option" where
  "fb_glibc_area_info p m = None"

definition fb_node_supported :: "'k platform \<Rightarrow> bool" where "fb_node_supported p = False"
definition fb_cid_supported :: "'k platform \<Rightarrow> bool" where "fb_cid_supported p = False"
definition fb_slice_supported :: "'k platform \<Rightarrow> bool" where "fb_slice_supported p = False"

definition fb_kernel_available :: "'k platform \<Rightarrow> 'k world \<Rightarrow> bool \<times> 'k world" where
  "fb_kernel_available p w = (False, w)"

definition fb_libc_available :: "'k platform \<Rightarrow> bool" where "fb_libc_available p = False"

definition fb_glibc_area :: "'k platform \<Rightarrow> isize \<Rightarrow> u64 option" where
  "fb_glibc_area p offset = None"

definition fallback_registration :: "'k registration" where
  "fallback_registration = \<lparr>r_bind = fb_bind, r_glibc_area_info = fb_glibc_area_info,
     r_node_supported = fb_node_supported, r_cid_supported = fb_cid_supported,
     r_slice_supported = fb_slice_supported, r_kernel_available = fb_kernel_available,
     r_libc_available = fb_libc_available, r_glibc_area = fb_glibc_area\<rparr>"

lemmas fallback_registration_defs = fallback_registration_def fb_bind_def fb_glibc_area_info_def
  fb_node_supported_def fb_cid_supported_def fb_slice_supported_def fb_kernel_available_def
  fb_libc_available_def fb_glibc_area_def

end
