(* ===== verification/Thread.thy ===== *)
theory Thread
  imports Index Cs_Spec
begin

text \<open>
  \<open>src/thread.rs\<close>: the bound \<open>Thread\<close>, the readers of its area with their fallbacks, and the
  word operations, which dispatch on the index kind to a critical section of the module
  \<open>crate::cs\<close> and turn its outcome into a \<open>Result\<close>. The module is an argument here; the lemmas
  on the operations are proved in the contract \<open>cs_atomic\<close> that the two targets keep.
\<close>

section \<open>The thread and the readers of its area\<close>

record thread =
  th_area :: u64
  th_node :: bool
  th_cid :: bool
  th_slice :: bool

definition Thread_new :: "u64 \<Rightarrow> bool \<Rightarrow> bool \<Rightarrow> bool \<Rightarrow> thread" where
  "Thread_new area node cid sl =
     \<lparr>th_area = area, th_node = node, th_cid = cid, th_slice = sl\<rparr>"

definition th_cpu_id :: "thread \<Rightarrow> mem \<Rightarrow> CpuId option" where
  "th_cpu_id t m = CpuId_new (cpu_id (read_area m (th_area t)))"

definition th_cpu_id_start :: "thread \<Rightarrow> mem \<Rightarrow> CpuId option" where
  "th_cpu_id_start t m = CpuId_new (cpu_id_start (read_area m (th_area t)))"

text \<open>
  \<open>fallback_cpu\<close>: \<open>sched_getcpu\<close> returns a signed number, negative on failure;
  \<open>u32::try_from\<close> rejects it. \<open>fallback_node\<close>: \<open>getcpu\<close> returns its status and the node.
\<close>

definition fallback_cpu :: "u32 \<Rightarrow> CpuId option" where
  "fallback_cpu n = (if sint n < 0 then None else CpuId_new n)"

definition fallback_node :: "u64 \<times> u32 \<Rightarrow> NodeId option" where
  "fallback_node getcpu = (case getcpu of (rc, node) \<Rightarrow> if rc = 0 then Some (NodeId node) else None)"

definition th_cpu :: "u32 \<Rightarrow> thread \<Rightarrow> mem \<Rightarrow> CpuId option" where
  "th_cpu sched_getcpu t m =
     (case th_cpu_id t m of Some c \<Rightarrow> Some c | None \<Rightarrow> fallback_cpu sched_getcpu)"

definition th_node_id :: "thread \<Rightarrow> mem \<Rightarrow> NodeId option" where
  "th_node_id t m =
     (if \<not> th_node t then None else Some (NodeId (node_id (read_area m (th_area t)))))"

definition th_node_of :: "u64 \<times> u32 \<Rightarrow> thread \<Rightarrow> mem \<Rightarrow> NodeId option" where
  "th_node_of getcpu t m =
     (case th_node_id t m of Some n \<Rightarrow> Some n | None \<Rightarrow> fallback_node getcpu)"

definition th_cid_of :: "thread \<Rightarrow> mem \<Rightarrow> Cid option" where
  "th_cid_of t m = (if \<not> th_cid t then None else Some (Cid (mm_cid (read_area m (th_area t)))))"

definition th_slice_ctrl :: "thread \<Rightarrow> mem \<Rightarrow> u32 option" where
  "th_slice_ctrl t m = (if \<not> th_slice t then None else Some (slice_ctrl (read_area m (th_area t))))"

text \<open>\<open>prepare_unload\<close> writes zero to \<open>rseq_cs\<close>.\<close>

definition prepare_unload :: "thread \<Rightarrow> mem \<Rightarrow> mem" where
  "prepare_unload t m = store64 m (th_area t + of_nat CS_OFF) 0"

lemma sint_neg: "sint (n::u32) < 0 \<longleftrightarrow> 2 ^ 31 \<le> unat n"
proof -
  have "sint n < 0 \<longleftrightarrow> bit n 31" using bit_last_iff [of n] by simp
  also have "\<dots> \<longleftrightarrow> bit (unat n) 31" by (simp add: bit_unsigned_iff)
  also have "\<dots> \<longleftrightarrow> odd (unat n div 2 ^ 31)" by (simp only: bit_iff_odd)
  also have "\<dots> \<longleftrightarrow> 2 ^ 31 \<le> unat n"
  proof -
    have "unat n div 2 ^ 31 < 2" using unat_u32_bound [of n] by (simp add: div_less_iff_less_mult)
    then have "unat n div 2 ^ 31 = 0 \<or> unat n div 2 ^ 31 = 1" by linarith
    then show ?thesis by (auto simp: div_eq_0_iff) 
  qed
  finally show ?thesis .
qed

text \<open>
  The value of \<open>cpu\<close> is the area's CPU while that is not a sentinel, and only then; otherwise it is what
  \<open>sched_getcpu\<close> says, unless that is negative. It is never a sentinel.
\<close>

lemma th_cpu_value:
  "th_cpu n t m = Some c \<longleftrightarrow>
    (let f = cpu_id (read_area m (th_area t)) in
     if unat f < 2 ^ 32 - 2 then c = CpuId f else unat n < 2 ^ 31 \<and> c = CpuId n)"
proof -
  let ?f = "cpu_id (read_area m (th_area t))"
  have n: "unat n < 2 ^ 31 \<Longrightarrow> CpuId_new n = Some (CpuId n)"
    using CpuId_new_below [of n] by (auto simp: CpuId_new_def split: if_splits)
  show ?thesis
    using CpuId_new_below [of ?f] n
    by (auto simp: th_cpu_def th_cpu_id_def fallback_cpu_def sint_neg Let_def CpuId_new_def split: if_splits)
qed

text \<open>
  \<open>prepare_unload\<close> clears the descriptor pointer of the area and no other field.
\<close>

lemma prepare_unload_area:
  "read_area (prepare_unload t m) (th_area t) = (read_area m (th_area t))\<lparr>rseq_cs := 0\<rparr>"
  by (simp add: prepare_unload_def read_area_def mem_simps CPU_ID_OFF_def CS_OFF_def MM_CID_OFF_def separate_area_numeral)

section \<open>The private operations\<close>

text \<open>Each picks the instance of the critical section for the offset of the index kind.\<close>

definition cas ::
  "cs_module \<Rightarrow> 'k index_kind \<Rightarrow> u64 \<Rightarrow> 'k word_ref \<Rightarrow> usize \<Rightarrow> usize \<Rightarrow> asm_env \<Rightarrow> mem \<Rightarrow> attempt call"
where
  "cas cs K area w expect new = (let ptr = word w; idx = get K (key w) in
     if OFF K = CPU_ID_OFF then cs_compare_exchange cs CPU_ID_OFF area ptr idx expect new
     else cs_compare_exchange cs MM_CID_OFF area ptr idx expect new)"

definition cas_if ::
  "cs_module \<Rightarrow> 'k index_kind \<Rightarrow> u64 \<Rightarrow> 'k word_ref \<Rightarrow> usize \<Rightarrow> usize \<Rightarrow> 'k word_ref \<Rightarrow> usize \<Rightarrow>
   asm_env \<Rightarrow> mem \<Rightarrow> attempt call"
where
  "cas_if cs K area w expect new other other_expect =
     (let ptr = word w; idx = get K (key w); other_ptr = word other in
      if OFF K = CPU_ID_OFF
      then cs_compare_exchange_if cs CPU_ID_OFF area ptr idx expect new other_ptr other_expect
      else cs_compare_exchange_if cs MM_CID_OFF area ptr idx expect new other_ptr other_expect)"

definition add ::
  "cs_module \<Rightarrow> 'k index_kind \<Rightarrow> u64 \<Rightarrow> 'k word_ref \<Rightarrow> usize \<Rightarrow> asm_env \<Rightarrow> mem \<Rightarrow> attempt call"
where
  "add cs K area w count = (let ptr = word w; idx = get K (key w) in
     if OFF K = CPU_ID_OFF then cs_fetch_add cs CPU_ID_OFF area ptr idx count
     else cs_fetch_add cs MM_CID_OFF area ptr idx count)"

definition load_ne ::
  "cs_module \<Rightarrow> 'k index_kind \<Rightarrow> u64 \<Rightarrow> 'k word_ref \<Rightarrow> usize \<Rightarrow> isize \<Rightarrow> asm_env \<Rightarrow> mem \<Rightarrow> attempt call"
where
  "load_ne cs K area w expect_not offset = (let ptr = word w; idx = get K (key w) in
     if OFF K = CPU_ID_OFF then cs_load_if_ne cs CPU_ID_OFF area ptr idx expect_not offset
     else cs_load_if_ne cs MM_CID_OFF area ptr idx expect_not offset)"

definition add_at ::
  "cs_module \<Rightarrow> 'k index_kind \<Rightarrow> u64 \<Rightarrow> 'k word_ref \<Rightarrow> isize \<Rightarrow> usize \<Rightarrow> asm_env \<Rightarrow> mem \<Rightarrow> attempt call"
where
  "add_at cs K area ptr offset count = (let w = word ptr; idx = get K (key ptr) in
     if OFF K = CPU_ID_OFF then cs_fetch_add_at cs CPU_ID_OFF area w idx offset count
     else cs_fetch_add_at cs MM_CID_OFF area w idx offset count)"

definition try_store ::
  "cs_module \<Rightarrow> 'k index_kind \<Rightarrow> u64 \<Rightarrow> 'k word_ref \<Rightarrow> usize \<Rightarrow> usize \<Rightarrow> 'k word_ref \<Rightarrow> usize \<Rightarrow>
   asm_env \<Rightarrow> mem \<Rightarrow> attempt call"
where
  "try_store cs K area w expect new side side_new =
     (let ptr = word w; idx = get K (key w); side_ptr = word side in
      if OFF K = CPU_ID_OFF
      then cs_store_if cs CPU_ID_OFF area ptr idx expect new side_ptr side_new
      else cs_store_if cs MM_CID_OFF area ptr idx expect new side_ptr side_new)"

section \<open>The public operations\<close>

type_synonym result = "error + usize"

text \<open>The two \<open>match\<close>es on an outcome: with a compare, and without one.\<close>

fun compare_result :: "attempt \<Rightarrow> result" where
  "compare_result (AOk old) = Inr old"
| "compare_result (AMiss current) = Inl (Miss current)"
| "compare_result AAbort = Inl Abort"

fun add_result :: "attempt \<Rightarrow> result" where
  "add_result (AOk prev) = Inr prev"
| "add_result (AMiss _) = Inl Abort"
| "add_result AAbort = Inl Abort"

definition compare_exchange ::
  "cs_module \<Rightarrow> 'k index_kind \<Rightarrow> thread \<Rightarrow> 'k word_ref \<Rightarrow> usize \<Rightarrow> usize \<Rightarrow> asm_env \<Rightarrow> mem \<Rightarrow> result call"
where
  "compare_exchange cs K t w expect new env m =
     map_call compare_result (cas cs K (th_area t) w expect new env m)"

definition compare_exchange_if ::
  "cs_module \<Rightarrow> 'k index_kind \<Rightarrow> thread \<Rightarrow> 'k word_ref \<Rightarrow> usize \<Rightarrow> usize \<Rightarrow> 'k word_ref \<Rightarrow> usize \<Rightarrow>
   asm_env \<Rightarrow> mem \<Rightarrow> result call"
where
  "compare_exchange_if cs K t w expect new other other_expect env m =
     (if key other \<noteq> key w then Returned (Inl Abort) [] m
      else map_call compare_result
        (cas_if cs K (th_area t) w expect new other other_expect env m))"

definition fetch_add ::
  "cs_module \<Rightarrow> 'k index_kind \<Rightarrow> thread \<Rightarrow> 'k word_ref \<Rightarrow> usize \<Rightarrow> asm_env \<Rightarrow> mem \<Rightarrow> result call"
where
  "fetch_add cs K t w count env m = map_call add_result (add cs K (th_area t) w count env m)"

definition load_if_ne ::
  "cs_module \<Rightarrow> 'k index_kind \<Rightarrow> thread \<Rightarrow> 'k word_ref \<Rightarrow> usize \<Rightarrow> isize \<Rightarrow> asm_env \<Rightarrow> mem \<Rightarrow> result call"
where
  "load_if_ne cs K t w expect_not offset env m =
     map_call compare_result (load_ne cs K (th_area t) w expect_not offset env m)"

definition fetch_add_at ::
  "cs_module \<Rightarrow> 'k index_kind \<Rightarrow> thread \<Rightarrow> 'k word_ref \<Rightarrow> isize \<Rightarrow> usize \<Rightarrow> asm_env \<Rightarrow> mem \<Rightarrow> result call"
where
  "fetch_add_at cs K t ptr offset count env m =
     map_call add_result (add_at cs K (th_area t) ptr offset count env m)"

definition store_if ::
  "cs_module \<Rightarrow> 'k index_kind \<Rightarrow> thread \<Rightarrow> 'k word_ref \<Rightarrow> usize \<Rightarrow> usize \<Rightarrow> 'k word_ref \<Rightarrow> usize \<Rightarrow>
   asm_env \<Rightarrow> mem \<Rightarrow> result call"
where
  "store_if cs K t w expect new side side_new env m =
     (if key side \<noteq> key w then Returned (Inl Abort) [] m
      else map_call compare_result
        (try_store cs K (th_area t) w expect new side side_new env m))"

section \<open>The operations as calls of the module\<close>

definition word_call :: "'k index_kind \<Rightarrow> thread \<Rightarrow> 'k word_ref \<Rightarrow> cs_op \<Rightarrow> cs_call" where
  "word_call K t w p = \<lparr>off = OFF K, ar = th_area t, ident = get K (key w), oper = p\<rparr>"

lemma word_call_simps [simp]:
  "off (word_call K t w p) = OFF K" "ar (word_call K t w p) = th_area t"
  "ident (word_call K t w p) = get K (key w)" "oper (word_call K t w p) = p"
  by (simp_all add: word_call_def)

lemmas private_defs = cas_def cas_if_def add_def load_ne_def add_at_def try_store_def

lemma private_calls:
  assumes "id_off_ok (OFF K)"
  shows
    "cas cs K (th_area t) w e n env m = call_of cs (word_call K t w (Compare_exchange (word w) e n)) env m"
    "cas_if cs K (th_area t) w e n x xe env m =
       call_of cs (word_call K t w (Compare_exchange_if (word w) e n (word x) xe)) env m"
    "add cs K (th_area t) w k env m = call_of cs (word_call K t w (Fetch_add (word w) k)) env m"
    "load_ne cs K (th_area t) w en d env m =
       call_of cs (word_call K t w (Load_if_ne (word w) en d)) env m"
    "add_at cs K (th_area t) w d k env m =
       call_of cs (word_call K t w (Fetch_add_at (word w) d k)) env m"
    "try_store cs K (th_area t) w e n s sn env m =
       call_of cs (word_call K t w (Store_if (word w) e n (word s) sn)) env m"
  using assms by (auto simp: private_defs call_of_def id_off_ok_def Let_def)

text \<open>
  The form of the results on the operations: no fault; a return once the thread is left alone
  for the length of a block; and \<open>Q\<close> of the result and the trace of the instructions executed.
\<close>

definition meets :: "('r \<Rightarrow> trace \<Rightarrow> bool) \<Rightarrow> asm_env \<Rightarrow> 'r call \<Rightarrow> bool" where
  "meets Q env r \<longleftrightarrow> (case r of Fault \<Rightarrow> False | Running \<Rightarrow> \<not> quiet BLOCK_MAX env
     | Returned a tr m' \<Rightarrow> Q a tr)"

text \<open>
  At some instruction, seeing the memory \<open>m\<close> and making the store \<open>s\<close>, the operation happens:
  \<open>Q\<close> holds of \<open>m\<close>, the result and the store that commits, if any; it is \<open>s\<close>, and the only
  committing store of the call.
\<close>

definition happens ::
  "cs_call \<Rightarrow> (mem \<Rightarrow> 'r \<Rightarrow> store option \<Rightarrow> bool) \<Rightarrow> 'r \<Rightarrow> trace \<Rightarrow> bool" where
  "happens c Q r tr \<longleftrightarrow> (\<exists>(m, s) \<in> set tr. \<exists>x. Q m r x \<and> (x \<noteq> None \<longrightarrow> s = x) \<and>
     commits c tr = (case x of None \<Rightarrow> [] | Some y \<Rightarrow> [y]))"

lemma happens_linearized:
  assumes "linearized c tr a"
    and "\<And>m s. cs_spec c m = (a, s) \<Longrightarrow> (s \<noteq> None \<Longrightarrow> prepared (oper c) m) \<Longrightarrow> Q m (f a) s"
  shows "happens c Q (f a) tr"
  using assms unfolding linearized_def happens_def by blast

context cs_atomic
begin

lemma meets_call:
  assumes "legal c env m"
    and "\<And>m a s. cs_spec c m = (a, s) \<Longrightarrow> (s \<noteq> None \<Longrightarrow> prepared (oper c) m) \<Longrightarrow> Q m (f a) s"
  shows "meets (happens c Q) env (map_call f (call_of M c env m))"
proof (cases "call_of M c env m")
  case Fault
  then show ?thesis using faultless [OF assms(1)] by simp
next
  case Running
  then show ?thesis using returns [OF assms(1)] by (auto simp: meets_def)
next
  case (Returned a tr m')
  with atomic [OF assms(1)] have "linearized c tr a" by blast
  from happens_linearized [of c tr a Q f, OF this assms(2)] show ?thesis
    using Returned by (simp add: meets_def)
qed

end

text \<open>What the operations promise of the instant at which they happen.\<close>

definition compare_exchange_happens ::
  "cs_call \<Rightarrow> u64 \<Rightarrow> usize \<Rightarrow> usize \<Rightarrow> mem \<Rightarrow> result \<Rightarrow> store option \<Rightarrow> bool" where
  "compare_exchange_happens c w e n m r s \<longleftrightarrow>
     (if \<not> matches c m then r = Inl Abort \<and> s = None
      else if load64 m w \<noteq> e then r = Inl (Miss (load64 m w)) \<and> s = None
      else r = Inr e \<and> s = Some (w, n))"

definition store_if_happens ::
  "cs_call \<Rightarrow> u64 \<Rightarrow> usize \<Rightarrow> usize \<Rightarrow> u64 \<Rightarrow> usize \<Rightarrow> mem \<Rightarrow> result \<Rightarrow> store option \<Rightarrow> bool" where
  "store_if_happens c w e n d dn m r s \<longleftrightarrow>
     compare_exchange_happens c w e n m r s \<and> (s \<noteq> None \<longrightarrow> load64 m d = dn)"

definition compare_exchange_if_happens ::
  "cs_call \<Rightarrow> u64 \<Rightarrow> usize \<Rightarrow> usize \<Rightarrow> u64 \<Rightarrow> usize \<Rightarrow> mem \<Rightarrow> result \<Rightarrow> store option \<Rightarrow> bool" where
  "compare_exchange_if_happens c w e n x xe m r s \<longleftrightarrow>
     (if \<not> matches c m then r = Inl Abort \<and> s = None
      else if load64 m w \<noteq> e then r = Inl (Miss (load64 m w)) \<and> s = None
      else if load64 m x \<noteq> xe then r = Inl (Miss (load64 m x)) \<and> s = None
      else r = Inr e \<and> s = Some (w, n))"

definition fetch_add_happens ::
  "cs_call \<Rightarrow> u64 \<Rightarrow> usize \<Rightarrow> mem \<Rightarrow> result \<Rightarrow> store option \<Rightarrow> bool" where
  "fetch_add_happens c w k m r s \<longleftrightarrow>
     (if \<not> matches c m then r = Inl Abort \<and> s = None
      else r = Inr (load64 m w) \<and> s = Some (w, load64 m w + k))"

definition load_if_ne_happens ::
  "cs_call \<Rightarrow> u64 \<Rightarrow> usize \<Rightarrow> isize \<Rightarrow> mem \<Rightarrow> result \<Rightarrow> store option \<Rightarrow> bool" where
  "load_if_ne_happens c w en d m r s \<longleftrightarrow>
     (if \<not> matches c m then r = Inl Abort \<and> s = None
      else if load64 m w = en then r = Inl (Miss en) \<and> s = None
      else r = Inr (load64 m w) \<and> s = Some (w, load64 m (load64 m w + d)))"

definition fetch_add_at_happens ::
  "cs_call \<Rightarrow> u64 \<Rightarrow> isize \<Rightarrow> usize \<Rightarrow> mem \<Rightarrow> result \<Rightarrow> store option \<Rightarrow> bool" where
  "fetch_add_at_happens c p d k m r s \<longleftrightarrow> (let w = load64 m (load64 m p + d) in
     if \<not> matches c m then r = Inl Abort \<and> s = None
     else r = Inr (load64 m w) \<and> s = Some (w, load64 m w + k))"

lemmas happens_defs = store_if_happens_def compare_exchange_happens_def compare_exchange_if_happens_def
  fetch_add_happens_def load_if_ne_happens_def fetch_add_at_happens_def

context cs_atomic
begin

lemma compare_exchange_meets:
  assumes "id_off_ok (OFF K)" "c = word_call K t w (Compare_exchange (word w) e n)" "legal c env m"
  shows "meets (happens c (compare_exchange_happens c (word w) e n)) env
    (compare_exchange M K t w e n env m)"
  unfolding compare_exchange_def private_calls [OF assms(1)] assms(2) [symmetric]
  by (rule meets_call [OF assms(3)])
     (auto simp: assms(2) happens_defs cs_spec_def Let_def split: if_splits)

lemma compare_exchange_if_meets:
  assumes "id_off_ok (OFF K)" "c = word_call K t w (Compare_exchange_if (word w) e n (word x) xe)"
    "legal c env m" "key x = key w"
  shows "meets (happens c (compare_exchange_if_happens c (word w) e n (word x) xe)) env
    (compare_exchange_if M K t w e n x xe env m)"
  unfolding compare_exchange_if_def private_calls [OF assms(1)] assms(2) [symmetric]
  using assms(4) by (simp, intro meets_call [OF assms(3)])
     (auto simp: assms(2) happens_defs cs_spec_def Let_def split: if_splits)

lemma fetch_add_meets:
  assumes "id_off_ok (OFF K)" "c = word_call K t w (Fetch_add (word w) k)" "legal c env m"
  shows "meets (happens c (fetch_add_happens c (word w) k)) env (fetch_add M K t w k env m)"
  unfolding fetch_add_def private_calls [OF assms(1)] assms(2) [symmetric]
  by (rule meets_call [OF assms(3)])
     (auto simp: assms(2) happens_defs cs_spec_def Let_def split: if_splits)

lemma load_if_ne_meets:
  assumes "id_off_ok (OFF K)" "c = word_call K t w (Load_if_ne (word w) en d)" "legal c env m"
  shows "meets (happens c (load_if_ne_happens c (word w) en d)) env
    (load_if_ne M K t w en d env m)"
  unfolding load_if_ne_def private_calls [OF assms(1)] assms(2) [symmetric]
  by (rule meets_call [OF assms(3)])
     (auto simp: assms(2) happens_defs cs_spec_def Let_def split: if_splits)

lemma fetch_add_at_meets:
  assumes "id_off_ok (OFF K)" "c = word_call K t w (Fetch_add_at (word w) d k)" "legal c env m"
  shows "meets (happens c (fetch_add_at_happens c (word w) d k)) env
    (fetch_add_at M K t w d k env m)"
  unfolding fetch_add_at_def private_calls [OF assms(1)] assms(2) [symmetric]
  by (rule meets_call [OF assms(3)])
     (auto simp: assms(2) happens_defs cs_spec_def Let_def split: if_splits)

lemma store_if_meets:
  assumes "id_off_ok (OFF K)" "c = word_call K t w (Store_if (word w) e n (word s) sn)"
    "legal c env m" "key s = key w"
  shows "meets (happens c (store_if_happens c (word w) e n (word s) sn)) env
    (store_if M K t w e n s sn env m)"
  unfolding store_if_def private_calls [OF assms(1)] assms(2) [symmetric]
  using assms(4) by (simp, intro meets_call [OF assms(3)])
     (auto simp: assms(2) happens_defs cs_spec_def Let_def split: if_splits)

end

end
