(* ===== verification/Target.thy ===== *)
theory Target
  imports Solo Fallback Thread
begin

text \<open>
  \<open>src/lib.rs\<close>: which module is \<open>crate::cs\<close> on which target, and what the word operations of
  \<open>src/thread.rs\<close> are on each: atomic operations on the two Linux targets with a critical
  section, an immediate abort elsewhere.
\<close>

section \<open>The selection of the module\<close>

datatype target_os = Linux | Other_os
datatype target_arch = Arch_x86_64 | Arch_aarch64 | Arch_other

text \<open>The four \<open>cfg\<close> attributes on the \<open>use\<close> items named \<open>cs\<close>.\<close>

definition cs_of :: "target_os \<Rightarrow> target_arch \<Rightarrow> cs_module" where
  "cs_of os arch =
     (if os = Linux \<and> arch = Arch_aarch64 then aarch64_cs
      else if \<not> (os = Linux \<and> (arch = Arch_x86_64 \<or> arch = Arch_aarch64)) then fallback_cs
      else x86_64_cs)"

definition supported :: "target_os \<Rightarrow> target_arch \<Rightarrow> bool" where
  "supported os arch \<longleftrightarrow> os = Linux \<and> (arch = Arch_x86_64 \<or> arch = Arch_aarch64)"

text \<open>The environments in which the operations of a target are specified.\<close>

definition legal_on :: "target_os \<Rightarrow> target_arch \<Rightarrow> cs_call \<Rightarrow> asm_env \<Rightarrow> mem \<Rightarrow> bool" where
  "legal_on os arch = (if arch = Arch_aarch64 then a64_legal else x86_legal)"

lemma cs_of_atomic: "supported os arch \<Longrightarrow> cs_atomic (cs_of os arch) (legal_on os arch)"
  by (auto simp: supported_def cs_of_def legal_on_def
      intro: x86.cs_atomic_axioms a64.cs_atomic_axioms)

lemma cs_of_unsupported: "\<not> supported os arch \<Longrightarrow> cs_of os arch = fallback_cs"
  by (auto simp: supported_def cs_of_def)

interpretation linux_x86: cs_atomic "cs_of Linux Arch_x86_64" "legal_on Linux Arch_x86_64"
  by (rule cs_of_atomic) (simp add: supported_def)

interpretation linux_a64: cs_atomic "cs_of Linux Arch_aarch64" "legal_on Linux Arch_aarch64"
  by (rule cs_of_atomic) (simp add: supported_def)

lemma legal_on_go:
  "id_off_ok (off c) \<Longrightarrow> valid c m \<Longrightarrow> legal_on os arch c (plain_env (replicate n Go)) m"
  by (simp add: legal_on_def x86_legal_go a64_legal_go)

lemma legal_valid:
  "supported os arch \<Longrightarrow> legal_on os arch c env m \<Longrightarrow> id_off_ok (off c) \<and> valid c m"
  by (cases "oper c"; auto simp: supported_def legal_on_def x86_legal_def a64_legal_def legal_block_def)

lemma solo_on:
  assumes "supported os arch" "legal_on os arch c env m" "events env = replicate BLOCK_MAX Go"
  shows "solo_ok env c m (call_of (cs_of os arch) c env m)"
  using assms by (auto simp: supported_def legal_on_def cs_of_def x86_solo a64_solo)

section \<open>A concrete thread\<close>

definition t0 :: thread where "t0 = Thread_new 0x1000 True True False"
definition w0 :: "CpuId word_ref" where "w0 = Word_new 0x2000 (CpuId 0)"
definition s0 :: "CpuId word_ref" where "s0 = Word_new 0x3000 (CpuId 0)"
definition m0 :: mem where "m0 = (\<lambda>_. 0)"
definition env0 :: asm_env where "env0 = plain_env (replicate BLOCK_MAX Go)"

lemma quiet_env0: "quiet BLOCK_MAX env0"
  by (simp add: env0_def)

lemma CpuId_off_ok: "id_off_ok (OFF CpuId_kind)"
  by (rule cpu_index.off_ok)

lemmas concrete_simps = t0_def w0_def s0_def m0_def env0_def Thread_new_def Word_new_def

text \<open>Calls on the concrete words with the concrete thread are legal.\<close>

lemma legal0:
  assumes "\<forall>a \<in> set (footprint p m0). a \<in> {0, 0x2000, 0x3000}" "side_apart p"
  shows "legal_on os arch (word_call CpuId_kind t0 w0 p) env0 m0"
proof -
  have "separate 0x1000 32 a 8" if "a \<in> {0, 0x2000, 0x3000}" for a :: u64
    using that by (auto intro: separate_below separate_sym [OF separate_below])
  then have "valid (word_call CpuId_kind t0 w0 p) m0"
    using assms by (auto simp: valid_def t0_def Thread_new_def)
  then show ?thesis
    unfolding env0_def by (intro legal_on_go) (simp add: CpuId_off_ok)
qed

text \<open>
  A schedule with a migration: the thread is stopped after four instructions, inside the
  critical section; the kernel clears \<open>rseq_cs\<close>, writes the new CPU and resumes at the abort
  handler.
\<close>

definition migrate :: "mstate \<Rightarrow> mstate" where
  "migrate st = st\<lparr>pc := 2,
     mem := store32 (store64 (mem st) (0x1000 + of_nat CS_OFF) 0) (0x1000 + of_nat CPU_ID_OFF) 1\<rparr>"

definition env1 :: asm_env where
  "env1 = plain_env ([Go, Go, Go, Go, Irq migrate] @ replicate BLOCK_MAX Go)"

lemma quiet_env1: "quiet BLOCK_MAX env1"
  by (simp add: env1_def quiet_def plain_env_def)

lemma legal1:
  "legal_on Linux Arch_x86_64 (word_call CpuId_kind t0 w0 (Compare_exchange (word w0) 0 7)) env1 m0"
proof -
  have "separate 0x1000 32 0x2000 8" by (rule separate_below) simp_all
  then have "valid (word_call CpuId_kind t0 w0 (Compare_exchange (word w0) 0 7)) m0"
    by (simp add: valid_def concrete_simps)
  moreover have "valid (word_call CpuId_kind t0 w0 (Compare_exchange (word w0) 0 7))
      (store32 m (0x1000 + of_nat CPU_ID_OFF) 1)" for m
    by (simp add: valid_def matches_def concrete_simps CpuId_kind_def mem_simps)
  ultimately show ?thesis
    by (simp add: legal_on_def x86_legal_def legal_block_def env1_def plain_env_def CpuId_off_ok
        x86_compare_exchange_binds_def link_def x86_compare_exchange_asm_def x86_map_def
        finished_def step_def Let_def irq_ok_def kernel_resume_def migrate_def in_cs_def entry_def
        split: option.splits)
qed

lemma meets_returns: "meets Q env r \<Longrightarrow> quiet BLOCK_MAX env \<Longrightarrow> \<exists>a tr m'. r = Returned a tr m' \<and> Q a tr"
  by (cases r) (auto simp: meets_def)

section \<open>The word operations\<close>

text \<open>
  C1: \<open>compare_exchange\<close>, on every supported target, for both index kinds, whatever the
  registers chosen and however the thread is interrupted, migrated and resumed: it does not
  fault, it returns once it is left alone for the length of the block, and what it returns is
  the atomic compare-and-store at one of its instructions. There, if the index is not the key
  of the word, the result is \<open>Abort\<close>; if the word is not \<open>expect\<close>, it is \<open>Miss\<close> with the value
  seen; otherwise it is \<open>expect\<close> and that instruction stores \<open>new\<close>, the only committing store
  of the call.
\<close>

theorem compare_exchange_atomic:
  assumes "supported os arch" "id_off_ok (OFF K)"
    and "c = word_call K t w (Compare_exchange (word w) e n)" "legal_on os arch c env m"
  shows "meets (happens c (compare_exchange_happens c (word w) e n)) env
    (compare_exchange (cs_of os arch) K t w e n env m)"
  using cs_atomic.compare_exchange_meets [OF cs_of_atomic] assms by blast

theorem compare_exchange_atomic_witness:
  "\<exists>a tr m'. compare_exchange (cs_of Linux Arch_x86_64) CpuId_kind t0 w0 0 7 env1 m0 =
     Returned a tr m'"
  using meets_returns [OF compare_exchange_atomic [OF _ CpuId_off_ok refl legal1] quiet_env1]
  by (auto simp: supported_def)

text \<open>
  C3: \<open>compare_exchange_if\<close> with two words of one key: the same for two compares in order. The
  word is compared first; only when it is \<open>expect\<close> is the other compared, and \<open>Miss\<close> carries
  the value of the compare that failed.
\<close>

theorem compare_exchange_if_atomic:
  assumes "supported os arch" "id_off_ok (OFF K)" "key x = key w"
    and "c = word_call K t w (Compare_exchange_if (word w) e n (word x) xe)"
    and "legal_on os arch c env m"
  shows "meets (happens c (compare_exchange_if_happens c (word w) e n (word x) xe)) env
    (compare_exchange_if (cs_of os arch) K t w e n x xe env m)"
  using cs_atomic.compare_exchange_if_meets [OF cs_of_atomic] assms by blast

theorem compare_exchange_if_atomic_witness:
  "\<exists>a tr m'. compare_exchange_if (cs_of Linux Arch_aarch64) CpuId_kind t0 w0 0 7 s0 0 env0 m0 =
     Returned a tr m'"
proof -
  have "legal_on Linux Arch_aarch64
      (word_call CpuId_kind t0 w0 (Compare_exchange_if (word w0) 0 7 (word s0) 0)) env0 m0"
    by (rule legal0) (simp_all add: concrete_simps)
  from meets_returns [OF compare_exchange_if_atomic [OF _ CpuId_off_ok _ refl this] quiet_env0]
  show ?thesis by (auto simp: supported_def concrete_simps)
qed

text \<open>
  C2: \<open>store_if\<close> with two words of one key commits like \<open>compare_exchange\<close>: besides the
  scratch store of \<open>side_new\<close> to \<open>side\<close>, the store of \<open>new\<close> to the word is the only one, and
  it happens at an instant when the index matches, the word is \<open>expect\<close> and \<open>side\<close> already
  holds \<open>side_new\<close>.
\<close>

theorem store_if_atomic:
  assumes "supported os arch" "id_off_ok (OFF K)" "key s = key w"
    and "c = word_call K t w (Store_if (word w) e n (word s) sn)" "legal_on os arch c env m"
  shows "meets (happens c (store_if_happens c (word w) e n (word s) sn)) env
    (store_if (cs_of os arch) K t w e n s sn env m)"
  using cs_atomic.store_if_meets [OF cs_of_atomic] assms by blast

theorem store_if_atomic_witness:
  "\<exists>a tr m'. store_if (cs_of Linux Arch_aarch64) CpuId_kind t0 w0 0 7 s0 9 env0 m0 =
     Returned a tr m'"
proof -
  have "legal_on Linux Arch_aarch64
      (word_call CpuId_kind t0 w0 (Store_if (word w0) 0 7 (word s0) 9)) env0 m0"
    by (rule legal0) (simp_all add: concrete_simps separate_sym [OF separate_below])
  from meets_returns [OF store_if_atomic [OF _ CpuId_off_ok _ refl this] quiet_env0]
  show ?thesis by (auto simp: supported_def concrete_simps)
qed

text \<open>
  C4: \<open>fetch_add\<close> returns the value the word had at the instant of its store and stores the
  sum there (modulo the word size); it aborts only at an instant when the index is not the key.
\<close>

theorem fetch_add_atomic:
  assumes "supported os arch" "id_off_ok (OFF K)"
    and "c = word_call K t w (Fetch_add (word w) k)" "legal_on os arch c env m"
  shows "meets (happens c (fetch_add_happens c (word w) k)) env
    (fetch_add (cs_of os arch) K t w k env m)"
  using cs_atomic.fetch_add_meets [OF cs_of_atomic] assms by blast

theorem fetch_add_atomic_witness:
  "\<exists>a tr m'. fetch_add (cs_of Linux Arch_x86_64) CpuId_kind t0 w0 3 env0 m0 = Returned a tr m'"
proof -
  have "legal_on Linux Arch_x86_64 (word_call CpuId_kind t0 w0 (Fetch_add (word w0) 3)) env0 m0"
    by (rule legal0) (simp_all add: concrete_simps)
  from meets_returns [OF fetch_add_atomic [OF _ CpuId_off_ok refl this] quiet_env0]
  show ?thesis by (auto simp: supported_def)
qed

text \<open>
  C5: \<open>load_if_ne\<close> replaces the word by the word found at the byte offset from it, in one
  instant in which the word is not \<open>expect_not\<close>, and returns the old word; otherwise it is
  \<open>Miss\<close> and nothing is stored. The chase is done in that instant.
\<close>

theorem load_if_ne_atomic:
  assumes "supported os arch" "id_off_ok (OFF K)"
    and "c = word_call K t w (Load_if_ne (word w) en d)" "legal_on os arch c env m"
  shows "meets (happens c (load_if_ne_happens c (word w) en d)) env
    (load_if_ne (cs_of os arch) K t w en d env m)"
  using cs_atomic.load_if_ne_meets [OF cs_of_atomic] assms by blast

theorem load_if_ne_atomic_witness:
  "\<exists>a tr m'. load_if_ne (cs_of Linux Arch_x86_64) CpuId_kind t0 w0 5 0x3000 env0 m0 =
     Returned a tr m'"
proof -
  have "legal_on Linux Arch_x86_64
      (word_call CpuId_kind t0 w0 (Load_if_ne (word w0) 5 0x3000)) env0 m0"
    by (rule legal0) (simp_all add: concrete_simps)
  from meets_returns [OF load_if_ne_atomic [OF _ CpuId_off_ok refl this] quiet_env0]
  show ?thesis by (auto simp: supported_def)
qed

text \<open>
  C6: \<open>fetch_add_at\<close> adds to the word whose address is read at the byte offset from the
  pointer in the word \<open>ptr\<close>: pointer, address and old value are those of one instant.
\<close>

theorem fetch_add_at_atomic:
  assumes "supported os arch" "id_off_ok (OFF K)"
    and "c = word_call K t p (Fetch_add_at (word p) d k)" "legal_on os arch c env m"
  shows "meets (happens c (fetch_add_at_happens c (word p) d k)) env
    (fetch_add_at (cs_of os arch) K t p d k env m)"
  using cs_atomic.fetch_add_at_meets [OF cs_of_atomic] assms by blast

theorem fetch_add_at_atomic_witness:
  "\<exists>a tr m'. fetch_add_at (cs_of Linux Arch_aarch64) CpuId_kind t0 w0 0x3000 3 env0 m0 =
     Returned a tr m'"
proof -
  have "legal_on Linux Arch_aarch64
      (word_call CpuId_kind t0 w0 (Fetch_add_at (word w0) 0x3000 3)) env0 m0"
    by (rule legal0) (simp_all add: concrete_simps)
  from meets_returns [OF fetch_add_at_atomic [OF _ CpuId_off_ok refl this] quiet_env0]
  show ?thesis by (auto simp: supported_def)
qed

section \<open>Calls left alone\<close>

text \<open>
  C21: a call that nothing interrupts returns, with the outcome of the atomic operation on the
  memory before the call, and leaves exactly this memory: the descriptor's address in
  \<open>rseq_cs\<close> and, on success, the scratch store followed by the committing store.
\<close>

theorem uninterrupted_exact:
  assumes "supported os arch" "legal_on os arch c env m" "events env = replicate BLOCK_MAX Go"
  shows "\<exists>tr. call_of (cs_of os arch) c env m =
    Returned (fst (cs_spec c m)) tr
      (put (snd (cs_spec c m)) (put (if snd (cs_spec c m) = None then None else scratch (oper c))
         (store64 m (ar c + of_nat CS_OFF) (cs_addr env))))"
proof -
  have "id_off_ok (off c)" "valid c m" using legal_valid [OF assms(1,2)] by blast+
  then have "solo c (cs_addr env) m = (fst (cs_spec c m),
      put (snd (cs_spec c m)) (put (if snd (cs_spec c m) = None then None else scratch (oper c))
         (store64 m (ar c + of_nat CS_OFF) (cs_addr env))))"
    by (simp add: solo_def cs_spec_store_cs Let_def put_def split: prod.splits option.splits)
  then show ?thesis using solo_on [OF assms] by (simp add: solo_ok_def)
qed

theorem uninterrupted_exact_witness:
  "\<exists>tr. call_of (cs_of Linux Arch_x86_64) (word_call CpuId_kind t0 w0 (Fetch_add (word w0) 3)) env0 m0
     = Returned (AOk 0) tr (store64 (store64 m0 (0x1000 + of_nat CS_OFF) 0x4000) 0x2000 3)"
proof -
  have "legal_on Linux Arch_x86_64 (word_call CpuId_kind t0 w0 (Fetch_add (word w0) 3)) env0 m0"
    by (rule legal0) (simp_all add: concrete_simps)
  from uninterrupted_exact [OF _ this] show ?thesis
    by (simp add: supported_def concrete_simps plain_env_def cs_spec_def matches_def
        CpuId_kind_def put_def Let_def)
qed

text \<open>
  The two implementations agree: left alone, with the descriptor at the same address, a
  call returns the same outcome and leaves the same memory on x86-64 and on aarch64.
\<close>

lemma targets_agree:
  assumes "legal_on Linux Arch_x86_64 c env m" "legal_on Linux Arch_aarch64 c env' m"
    and "events env = replicate BLOCK_MAX Go" "events env' = replicate BLOCK_MAX Go"
    and "cs_addr env = cs_addr env'"
  shows "\<exists>a tr tr' m'. call_of (cs_of Linux Arch_x86_64) c env m = Returned a tr m' \<and>
    call_of (cs_of Linux Arch_aarch64) c env' m = Returned a tr' m'"
  using solo_on [OF _ assms(1,3)] solo_on [OF _ assms(2,4)] assms(5)
  by (auto simp: solo_ok_def supported_def)

section \<open>Targets without a critical section\<close>

text \<open>
  On every other target each word operation returns \<open>Abort\<close> at once and leaves the memory
  alone, whatever its arguments.
\<close>

lemma unsupported_aborts:
  assumes "\<not> supported os arch"
  shows "compare_exchange (cs_of os arch) K t w e n env m = Returned (Inl Abort) [] m \<and>
    compare_exchange_if (cs_of os arch) K t w e n x xe env m = Returned (Inl Abort) [] m \<and>
    fetch_add (cs_of os arch) K t w k env m = Returned (Inl Abort) [] m \<and>
    load_if_ne (cs_of os arch) K t w en d env m = Returned (Inl Abort) [] m \<and>
    fetch_add_at (cs_of os arch) K t w d k env m = Returned (Inl Abort) [] m \<and>
    store_if (cs_of os arch) K t w e n x xe env m = Returned (Inl Abort) [] m"
  by (simp add: cs_of_unsupported [OF assms] fallback_defs private_defs Let_def
      compare_exchange_def compare_exchange_if_def fetch_add_def load_if_ne_def fetch_add_at_def
      store_if_def)

section \<open>The descriptors\<close>

text \<open>
  A linked block whose descriptor the kernel accepts, whose section starts right after the
  store that installs the descriptor and ends right after a store, with \<open>k\<close> stores in the
  section and no other store in the block.
\<close>

definition section_ok :: "('j \<Rightarrow> bool) \<Rightarrow> u32 \<Rightarrow> nat \<Rightarrow> 'j prog option \<Rightarrow> bool" where
  "section_ok stores sig k P \<longleftrightarrow> (case P of None \<Rightarrow> False | Some P \<Rightarrow>
     (let s = unat (start_ip P); n = unat (post_commit_offset P);
          st = (\<lambda>x. case x of Exec i \<Rightarrow> stores i | Raw w \<Rightarrow> False) in
      desc_valid P sig \<and> 0 < s \<and> 0 < n \<and> s + n < length (slots P) \<and>
      st (slots P ! (s - 1)) \<and> st (slots P ! (s + n - 1)) \<and>
      length (filter st (take n (drop s (slots P)))) = k \<and>
      length (filter st (slots P)) = k + 1))"

fun x86_stores :: "loc x86 \<Rightarrow> bool" where
  "x86_stores (MOV_ST b k s) \<longleftrightarrow> True"
| "x86_stores (XADD b s) \<longleftrightarrow> True"
| "x86_stores _ \<longleftrightarrow> False"

fun a64_stores :: "loc a64 \<Rightarrow> bool" where
  "a64_stores (STR_X s b k) \<longleftrightarrow> True"
| "a64_stores _ \<longleftrightarrow> False"

text \<open>
  The twelve descriptors of \<open>src/x86_64.rs\<close> and \<open>src/aarch64.rs\<close>: each is one the kernel
  accepts under the signature the area is registered with; its section starts right after a
  store and ends right after its last one, which is its only store but for the scratch store of
  \<open>store_if\<close>. That the first of them is the install and the last the commit is what the outlines
  show (theory \<open>Fence\<close>).
\<close>

lemma x86_sections:
  "list_all (\<lambda>(n, asm). section_ok x86_stores SIG_x86_64 n (link x86_map (asm k)))
     [(1, x86_compare_exchange_asm), (1, x86_fetch_add_asm), (2, x86_store_if_asm),
      (1, x86_compare_exchange_if_asm), (1, x86_load_if_ne_asm), (1, x86_fetch_add_at_asm)]"
  unfolding list.pred_inject prod.case
  by (intro conjI TrueI; simp add: section_ok_def link_def x86_compare_exchange_asm_def x86_fetch_add_asm_def
    x86_store_if_asm_def x86_compare_exchange_if_asm_def x86_load_if_ne_asm_def x86_fetch_add_at_asm_def
    x86_map_def Let_def desc_valid_def in_cs_def)

lemma a64_sections:
  "list_all (\<lambda>(n, asm). section_ok a64_stores SIG_aarch64 n (link a64_map (asm k)))
     [(1, a64_compare_exchange_asm), (1, a64_fetch_add_asm), (2, a64_store_if_asm),
      (1, a64_compare_exchange_if_asm), (1, a64_load_if_ne_asm), (1, a64_fetch_add_at_asm)]"
  unfolding list.pred_inject prod.case
  by (intro conjI TrueI; simp add: section_ok_def link_def a64_compare_exchange_asm_def a64_fetch_add_asm_def
    a64_store_if_asm_def a64_compare_exchange_if_asm_def a64_load_if_ne_asm_def a64_fetch_add_at_asm_def
    a64_map_def Let_def desc_valid_def in_cs_def)

section \<open>The scratch store of a miss\<close>

text \<open>
  A schedule that stops \<open>store_if\<close> between its scratch store and its commit; before the thread
  is resumed, the word changes.
\<close>

definition overtake :: "mstate \<Rightarrow> mstate" where
  "overtake st = st\<lparr>pc := 2,
     mem := store64 (store64 (mem st) (0x1000 + of_nat CS_OFF) 0) 0x2000 5\<rparr>"

definition env2 :: asm_env where
  "env2 = plain_env ([Go, Go, Go, Go, Go, Go, Go, Go, Go, Go, Irq overtake] @
     [Go, Go, Go, Go, Go, Go, Go, Go, Go, Go, Go, Go, Go])"

lemma separate_concrete:
  "separate 0x1000 32 0x2000 8" "separate 0x1000 32 0x3000 8" "separate 0x3000 8 0x2000 8"
  "separate 0x2000 8 0x3000 8" "separate 0x1008 8 0x2000 8" "separate 0x1008 8 0x3000 8"
  "separate 0x1008 8 0x1004 4" "separate 0x2000 8 0x1004 4" "separate 0x3000 8 0x1004 4"
  "separate 0x2000 8 0x1008 8" "separate 0x3000 8 0x1008 8"
  by (auto intro: separate_below separate_sym [OF separate_below])

lemma legal2:
  "legal_on Linux Arch_x86_64 (word_call CpuId_kind t0 w0 (Store_if (word w0) 0 7 (word s0) 9)) env2 m0"
proof -
  have v: "valid (word_call CpuId_kind t0 w0 (Store_if (word w0) 0 7 (word s0) 9)) m" for m
    using separate_concrete by (simp add: valid_def concrete_simps)
  show ?thesis
    by (simp add: legal_on_def x86_legal_def legal_block_def env2_def plain_env_def CpuId_off_ok v
        x86_store_if_binds_def link_def x86_store_if_asm_def x86_map_def
        finished_def step_def Let_def irq_ok_def kernel_resume_def overtake_def in_cs_def entry_def
        split: option.splits)
       (simp add: concrete_simps CpuId_kind_def CPU_ID_OFF_def CS_OFF_def mem_simps separate_concrete)
qed

text \<open>
  C33: a \<open>store_if\<close> that returns \<open>Miss\<close> may have written \<open>side\<close>: in a legal schedule with one
  interruption the scratch store is made, the section restarts, and the compare then fails.
\<close>

theorem store_if_miss_side:
  "\<exists>env tr m'. legal_on Linux Arch_x86_64
      (word_call CpuId_kind t0 w0 (Store_if (word w0) 0 7 (word s0) 9)) env m0 \<and>
    store_if (cs_of Linux Arch_x86_64) CpuId_kind t0 w0 0 7 s0 9 env m0 =
      Returned (Inl (Miss 5)) tr m' \<and>
    load64 m0 (word s0) = 0 \<and> load64 m' (word s0) = 9"
proof -
  have "\<exists>tr m'. store_if (cs_of Linux Arch_x86_64) CpuId_kind t0 w0 0 7 s0 9 env2 m0 =
      Returned (Inl (Miss 5)) tr m' \<and> load64 m0 (word s0) = 0 \<and> load64 m' (word s0) = 9"
    by (simp add: store_if_def try_store_def concrete_simps cs_of_def x86_64_cs_def
        x86_store_if_def Let_def CpuId_kind_def CPU_ID_OFF_def CS_OFF_def asm_block_def link_def
        x86_store_if_asm_def x86_map_def x86_store_if_binds_def entry_def env2_def plain_env_def
        finished_def step_def overtake_def mem_simps separate_concrete)
  then show ?thesis using legal2 by blast
qed

end
