(* ===== verification/Blocks.thy ===== *)
theory Blocks
  imports Target
begin

text \<open>
  The blocks of a target as one family over calls: for every call its linked block, operand
  list and result register. This is the form in which \<open>System\<close> runs many threads; the
  outlines of \<open>X86_64\<close> and \<open>Aarch64\<close> give the contract \<open>block_module\<close> that it needs.
\<close>

record 'j blocks =
  b_exec :: "(opnd \<Rightarrow> nat) \<Rightarrow> u64 \<Rightarrow> 'j exec"
  b_prog :: "cs_call \<Rightarrow> 'j prog"
  b_binds :: "cs_call \<Rightarrow> bind list"
  b_sig :: u32

text \<open>A template that does not link has no block; none of the templates is of that kind.\<close>

fun the_prog :: "'j prog option \<Rightarrow> 'j prog" where
  "the_prog (Some P) = P"
| "the_prog None = \<lparr>slots = [], version = 0, cs_flags = 0, start_ip = 0, post_commit_offset = 0,
     abort_ip = 0\<rparr>"

text \<open>The operand that holds the value of the outcome.\<close>

fun result_op :: "cs_op \<Rightarrow> opnd" where
  "result_op (Fetch_add w k) = O_prev"
| "result_op (Fetch_add_at p d k) = O_prev"
| "result_op _ = O_current"

locale block_module =
  fixes B :: "'j blocks" and T :: "cs_call \<Rightarrow> asm_env \<Rightarrow> outline"
  assumes outlined: "id_off_ok (off c) \<Longrightarrow> alloc_ok (alloc env) (b_binds B c) \<Longrightarrow>
    outline_ok (T c env) (b_exec B (alloc env) (cs_addr env)) (b_prog B c) (b_sig B) c
      (b_binds B c) (result_op (oper c)) env"
    and left: "\<not> in_cs (b_prog B c) (length (slots (b_prog B c)))"

text \<open>The end of a block is outside its critical section.\<close>

definition ends_outside :: "'j prog option \<Rightarrow> bool" where
  "ends_outside x \<longleftrightarrow> (case x of None \<Rightarrow> False | Some P \<Rightarrow> \<not> in_cs P (length (slots P)))"

section \<open>x86-64\<close>

fun x86_op_asm :: "cs_op \<Rightarrow> nat \<Rightarrow> lref x86 item list" where
  "x86_op_asm (Compare_exchange w e n) j = x86_compare_exchange_asm j"
| "x86_op_asm (Fetch_add w k) j = x86_fetch_add_asm j"
| "x86_op_asm (Store_if w e n s sn) j = x86_store_if_asm j"
| "x86_op_asm (Compare_exchange_if w e n x xe) j = x86_compare_exchange_if_asm j"
| "x86_op_asm (Load_if_ne w en d) j = x86_load_if_ne_asm j"
| "x86_op_asm (Fetch_add_at p d k) j = x86_fetch_add_at_asm j"

fun x86_op_binds :: "cs_op \<Rightarrow> cs_call \<Rightarrow> bind list" where
  "x86_op_binds (Compare_exchange w e n) c = x86_compare_exchange_binds (ar c) w (ident c) e n"
| "x86_op_binds (Fetch_add w k) c = x86_fetch_add_binds (ar c) w (ident c) k"
| "x86_op_binds (Store_if w e n s sn) c = x86_store_if_binds (ar c) w (ident c) e n s sn"
| "x86_op_binds (Compare_exchange_if w e n x xe) c = x86_compare_exchange_if_binds (ar c) w (ident c) e n x xe"
| "x86_op_binds (Load_if_ne w en d) c = x86_load_if_ne_binds (ar c) w (ident c) en d"
| "x86_op_binds (Fetch_add_at p d k) c = x86_fetch_add_at_binds (ar c) p (ident c) d k"

definition x86_blocks :: "loc x86 blocks" where
  "x86_blocks = \<lparr>b_exec = x86_exec,
     b_prog = (\<lambda>c. the_prog (link x86_map (x86_op_asm (oper c) (off c)))),
     b_binds = (\<lambda>c. x86_op_binds (oper c) c), b_sig = SIG_x86_64\<rparr>"

fun x86_op_outline :: "cs_op \<Rightarrow> cs_call \<Rightarrow> bind list \<Rightarrow> asm_env \<Rightarrow> outline" where
  "x86_op_outline (Compare_exchange w e n) c bs env =
     x86_install c bs env @ cas_outline c bs env w e"
| "x86_op_outline (Fetch_add w k) c bs env =
     x86_install c bs env @ confirm_outline c bs env @
      [confirmed c bs env (\<lambda>st. True), confirmed c bs env (\<lambda>st. regs st (alloc env O_prev) = k)] @
      ok_outline c env O_prev @ abort_outline c env O_prev"
| "x86_op_outline (Store_if w e n s sn) c bs env =
     x86_install c bs env @ store_if_outline c bs env w e"
| "x86_op_outline (Compare_exchange_if w e n x xe) c bs env =
     x86_install c bs env @ cas_if_outline c bs env w e x xe"
| "x86_op_outline (Load_if_ne w en d) c bs env =
     x86_install c bs env @ confirm_outline c bs env @
      skip_outline c bs env w en @
      [confirmed c bs env (\<lambda>st. new_head env w en st),
       confirmed c bs env (\<lambda>st. new_head env w en st \<and>
         regs st (alloc env O_chase) = load64 (mem st) w),
       confirmed c bs env (\<lambda>st. new_head env w en st \<and>
         regs st (alloc env O_chase) = load64 (mem st) w + d),
       confirmed c bs env (\<lambda>st. new_head env w en st \<and>
         regs st (alloc env O_chase) = load64 (mem st) (load64 (mem st) w + d))] @
      ok_outline c env O_current @ miss_outline c env O_current @ abort_outline c env O_current"
| "x86_op_outline (Fetch_add_at p d k) c bs env =
     x86_install c bs env @ confirm_outline c bs env @
      [confirmed c bs env (\<lambda>st. True),
       confirmed c bs env (\<lambda>st. regs st (alloc env O_base) = load64 (mem st) p),
       confirmed c bs env (\<lambda>st. regs st (alloc env O_base) = load64 (mem st) p + d),
       confirmed c bs env (\<lambda>st. regs st (alloc env O_slot) = load64 (mem st) (load64 (mem st) p + d)),
       confirmed c bs env (\<lambda>st. regs st (alloc env O_slot) = load64 (mem st) (load64 (mem st) p + d) \<and>
         regs st (alloc env O_prev) = k)] @
      ok_outline c env O_prev @ abort_outline c env O_prev"

definition x86_outline :: "cs_call \<Rightarrow> asm_env \<Rightarrow> outline" where
  "x86_outline c env = x86_op_outline (oper c) c (x86_op_binds (oper c) c) env"

lemma x86_op_links: "links x86_map (x86_op_asm p k)"
  by (cases p) (simp_all add: x86_compare_exchange_links x86_fetch_add_links x86_store_if_links x86_compare_exchange_if_links x86_load_if_ne_links x86_fetch_add_at_links)

lemma x86_ends_outside: "ends_outside (link x86_map (x86_op_asm p j))"
  by (cases p) (simp_all add: ends_outside_def in_cs_def link_def x86_map_def Let_def x86_compare_exchange_asm_def x86_fetch_add_asm_def x86_store_if_asm_def x86_compare_exchange_if_asm_def x86_load_if_ne_asm_def x86_fetch_add_at_asm_def)

lemma x86_call_block:
  "call_of x86_64_cs c env m = asm_block x86_exec x86_map (x86_op_asm (oper c) (off c))
     (x86_op_binds (oper c) c) (result_op (oper c)) env m"
  by (cases "oper c") (simp_all add: call_of_def x86_64_cs_def x86_functions)

lemma x86_op_outline_ok:
  assumes "id_off_ok (off c)" "alloc_ok (alloc env) (x86_op_binds (oper c) c)"
    "link x86_map (x86_op_asm (oper c) (off c)) = Some P"
  shows "outline_ok (x86_outline c env) (x86_exec (alloc env) (cs_addr env)) P SIG_x86_64 c
    (x86_op_binds (oper c) c) (result_op (oper c)) env"
proof (cases "oper c")
  case (Compare_exchange w e n)
  show ?thesis using assms
    unfolding x86_outline_def Compare_exchange x86_op_asm.simps x86_op_binds.simps
      x86_op_outline.simps result_op.simps
    by (intro x86_compare_exchange_outline [OF _ _ Compare_exchange refl])
next
  case (Fetch_add w k)
  show ?thesis using assms
    unfolding x86_outline_def Fetch_add x86_op_asm.simps x86_op_binds.simps
      x86_op_outline.simps result_op.simps
    by (intro x86_fetch_add_outline [OF _ _ Fetch_add refl])
next
  case (Store_if w e n s sn)
  show ?thesis using assms
    unfolding x86_outline_def Store_if x86_op_asm.simps x86_op_binds.simps
      x86_op_outline.simps result_op.simps
    by (intro x86_store_if_outline [OF _ _ Store_if refl])
next
  case (Compare_exchange_if w e n x xe)
  show ?thesis using assms
    unfolding x86_outline_def Compare_exchange_if x86_op_asm.simps x86_op_binds.simps
      x86_op_outline.simps result_op.simps
    by (intro x86_compare_exchange_if_outline [OF _ _ Compare_exchange_if refl])
next
  case (Load_if_ne w en d)
  show ?thesis using assms
    unfolding x86_outline_def Load_if_ne x86_op_asm.simps x86_op_binds.simps
      x86_op_outline.simps result_op.simps
    by (intro x86_load_if_ne_outline [OF _ _ Load_if_ne refl])
next
  case (Fetch_add_at p d k)
  show ?thesis using assms
    unfolding x86_outline_def Fetch_add_at x86_op_asm.simps x86_op_binds.simps
      x86_op_outline.simps result_op.simps
    by (intro x86_fetch_add_at_outline [OF _ _ Fetch_add_at refl])
qed

interpretation x86_sys: block_module x86_blocks x86_outline
proof
  fix c and env :: asm_env
  assume a: "id_off_ok (off c)" "alloc_ok (alloc env) (b_binds x86_blocks c)"
  obtain P where P: "link x86_map (x86_op_asm (oper c) (off c)) = Some P"
    using x86_op_links [of "oper c" "off c"] by (auto simp: links_def split: option.splits)
  show "outline_ok (x86_outline c env) (b_exec x86_blocks (alloc env) (cs_addr env))
      (b_prog x86_blocks c) (b_sig x86_blocks) c (b_binds x86_blocks c) (result_op (oper c)) env"
    using x86_op_outline_ok [OF a(1) _ P] a(2) P by (simp add: x86_blocks_def)
next
  fix c
  show "\<not> in_cs (b_prog x86_blocks c) (length (slots (b_prog x86_blocks c)))"
    using x86_ends_outside [of "oper c" "off c"]
    by (auto simp: ends_outside_def x86_blocks_def split: option.splits)
qed

section \<open>aarch64\<close>

fun a64_op_asm :: "cs_op \<Rightarrow> nat \<Rightarrow> lref a64 item list" where
  "a64_op_asm (Compare_exchange w e n) j = a64_compare_exchange_asm j"
| "a64_op_asm (Fetch_add w k) j = a64_fetch_add_asm j"
| "a64_op_asm (Store_if w e n s sn) j = a64_store_if_asm j"
| "a64_op_asm (Compare_exchange_if w e n x xe) j = a64_compare_exchange_if_asm j"
| "a64_op_asm (Load_if_ne w en d) j = a64_load_if_ne_asm j"
| "a64_op_asm (Fetch_add_at p d k) j = a64_fetch_add_at_asm j"

fun a64_op_binds :: "cs_op \<Rightarrow> cs_call \<Rightarrow> bind list" where
  "a64_op_binds (Compare_exchange w e n) c = a64_compare_exchange_binds (ar c) w (ident c) e n"
| "a64_op_binds (Fetch_add w k) c = a64_fetch_add_binds (ar c) w (ident c) k"
| "a64_op_binds (Store_if w e n s sn) c = a64_store_if_binds (ar c) w (ident c) e n s sn"
| "a64_op_binds (Compare_exchange_if w e n x xe) c = a64_compare_exchange_if_binds (ar c) w (ident c) e n x xe"
| "a64_op_binds (Load_if_ne w en d) c = a64_load_if_ne_binds (ar c) w (ident c) en d"
| "a64_op_binds (Fetch_add_at p d k) c = a64_fetch_add_at_binds (ar c) p (ident c) d k"

definition a64_blocks :: "loc a64 blocks" where
  "a64_blocks = \<lparr>b_exec = a64_exec,
     b_prog = (\<lambda>c. the_prog (link a64_map (a64_op_asm (oper c) (off c)))),
     b_binds = (\<lambda>c. a64_op_binds (oper c) c), b_sig = SIG_aarch64\<rparr>"

fun a64_op_outline :: "cs_op \<Rightarrow> cs_call \<Rightarrow> bind list \<Rightarrow> asm_env \<Rightarrow> outline" where
  "a64_op_outline (Compare_exchange w e n) c bs env =
     a64_install c bs env @ cas_outline c bs env w e"
| "a64_op_outline (Fetch_add w k) c bs env =
     a64_install c bs env @ confirm_outline c bs env @
      [confirmed c bs env (\<lambda>st. True),
       confirmed c bs env (\<lambda>st. regs st (alloc env O_prev) = load64 (mem st) w),
       confirmed c bs env (\<lambda>st. regs st (alloc env O_prev) = load64 (mem st) w \<and>
         regs st (alloc env O_sum) = load64 (mem st) w + k)] @
      ok_outline c env O_prev @ abort_outline c env O_prev"
| "a64_op_outline (Store_if w e n s sn) c bs env =
     a64_install c bs env @ store_if_outline c bs env w e"
| "a64_op_outline (Compare_exchange_if w e n x xe) c bs env =
     a64_install c bs env @ cas_if_outline c bs env w e x xe"
| "a64_op_outline (Load_if_ne w en d) c bs env =
     a64_install c bs env @ confirm_outline c bs env @
      skip_outline c bs env w en @
      [confirmed c bs env (\<lambda>st. new_head env w en st),
       confirmed c bs env (\<lambda>st. new_head env w en st \<and>
         regs st (alloc env O_chase) = load64 (mem st) w + d),
       confirmed c bs env (\<lambda>st. new_head env w en st \<and>
         regs st (alloc env O_chase) = load64 (mem st) (load64 (mem st) w + d))] @
      ok_outline c env O_current @ miss_outline c env O_current @ abort_outline c env O_current"
| "a64_op_outline (Fetch_add_at p d k) c bs env =
     a64_install c bs env @ confirm_outline c bs env @
      [confirmed c bs env (\<lambda>st. True),
       confirmed c bs env (\<lambda>st. regs st (alloc env O_base) = load64 (mem st) p),
       confirmed c bs env (\<lambda>st. regs st (alloc env O_base) = load64 (mem st) p + d),
       confirmed c bs env (\<lambda>st. chased env p d st),
       confirmed c bs env (\<lambda>st. chased env p d st \<and>
         regs st (alloc env O_prev) = load64 (mem st) (load64 (mem st) (load64 (mem st) p + d))),
       confirmed c bs env (\<lambda>st. chased env p d st \<and>
         regs st (alloc env O_prev) = load64 (mem st) (load64 (mem st) (load64 (mem st) p + d)) \<and>
         regs st (alloc env O_sum) = load64 (mem st) (load64 (mem st) (load64 (mem st) p + d)) + k)] @
      ok_outline c env O_prev @ abort_outline c env O_prev"

definition a64_outline :: "cs_call \<Rightarrow> asm_env \<Rightarrow> outline" where
  "a64_outline c env = a64_op_outline (oper c) c (a64_op_binds (oper c) c) env"

lemma a64_op_links: "links a64_map (a64_op_asm p k)"
  by (cases p) (simp_all add: a64_compare_exchange_links a64_fetch_add_links a64_store_if_links a64_compare_exchange_if_links a64_load_if_ne_links a64_fetch_add_at_links)

lemma a64_ends_outside: "ends_outside (link a64_map (a64_op_asm p j))"
  by (cases p) (simp_all add: ends_outside_def in_cs_def link_def a64_map_def Let_def a64_compare_exchange_asm_def a64_fetch_add_asm_def a64_store_if_asm_def a64_compare_exchange_if_asm_def a64_load_if_ne_asm_def a64_fetch_add_at_asm_def)

lemma a64_call_block:
  "call_of aarch64_cs c env m = asm_block a64_exec a64_map (a64_op_asm (oper c) (off c))
     (a64_op_binds (oper c) c) (result_op (oper c)) env m"
  by (cases "oper c") (simp_all add: call_of_def aarch64_cs_def a64_functions)

lemma a64_op_outline_ok:
  assumes "id_off_ok (off c)" "alloc_ok (alloc env) (a64_op_binds (oper c) c)"
    "link a64_map (a64_op_asm (oper c) (off c)) = Some P"
  shows "outline_ok (a64_outline c env) (a64_exec (alloc env) (cs_addr env)) P SIG_aarch64 c
    (a64_op_binds (oper c) c) (result_op (oper c)) env"
proof (cases "oper c")
  case (Compare_exchange w e n)
  show ?thesis using assms
    unfolding a64_outline_def Compare_exchange a64_op_asm.simps a64_op_binds.simps
      a64_op_outline.simps result_op.simps
    by (intro a64_compare_exchange_outline [OF _ _ Compare_exchange refl])
next
  case (Fetch_add w k)
  show ?thesis using assms
    unfolding a64_outline_def Fetch_add a64_op_asm.simps a64_op_binds.simps
      a64_op_outline.simps result_op.simps
    by (intro a64_fetch_add_outline [OF _ _ Fetch_add refl])
next
  case (Store_if w e n s sn)
  show ?thesis using assms
    unfolding a64_outline_def Store_if a64_op_asm.simps a64_op_binds.simps
      a64_op_outline.simps result_op.simps
    by (intro a64_store_if_outline [OF _ _ Store_if refl])
next
  case (Compare_exchange_if w e n x xe)
  show ?thesis using assms
    unfolding a64_outline_def Compare_exchange_if a64_op_asm.simps a64_op_binds.simps
      a64_op_outline.simps result_op.simps
    by (intro a64_compare_exchange_if_outline [OF _ _ Compare_exchange_if refl])
next
  case (Load_if_ne w en d)
  show ?thesis using assms
    unfolding a64_outline_def Load_if_ne a64_op_asm.simps a64_op_binds.simps
      a64_op_outline.simps result_op.simps
    by (intro a64_load_if_ne_outline [OF _ _ Load_if_ne refl])
next
  case (Fetch_add_at p d k)
  show ?thesis using assms
    unfolding a64_outline_def Fetch_add_at a64_op_asm.simps a64_op_binds.simps
      a64_op_outline.simps result_op.simps
    by (intro a64_fetch_add_at_outline [OF _ _ Fetch_add_at refl])
qed

interpretation a64_sys: block_module a64_blocks a64_outline
proof
  fix c and env :: asm_env
  assume a: "id_off_ok (off c)" "alloc_ok (alloc env) (b_binds a64_blocks c)"
  obtain P where P: "link a64_map (a64_op_asm (oper c) (off c)) = Some P"
    using a64_op_links [of "oper c" "off c"] by (auto simp: links_def split: option.splits)
  show "outline_ok (a64_outline c env) (b_exec a64_blocks (alloc env) (cs_addr env))
      (b_prog a64_blocks c) (b_sig a64_blocks) c (b_binds a64_blocks c) (result_op (oper c)) env"
    using a64_op_outline_ok [OF a(1) _ P] a(2) P by (simp add: a64_blocks_def)
next
  fix c
  show "\<not> in_cs (b_prog a64_blocks c) (length (slots (b_prog a64_blocks c)))"
    using a64_ends_outside [of "oper c" "off c"]
    by (auto simp: ends_outside_def a64_blocks_def split: option.splits)
qed

end
