(* ===== verification/Guard.thy ===== *)
theory Guard
  imports Blocks
begin

text \<open>
  \<open>compare_exchange_if\<close> when other CPUs may write the words at any time: what its block does
  without the assumption that the words of the call are left alone. It never faults, it stores
  only its new value to its word, and only while the index matches; and when the second word is
  known to differ from the expected value (the index is sealed), it does not store at all. The
  outlines here have, for each program point, an assertion for an index that is sealed and one
  for an index that is not.
\<close>

section \<open>Outlines under interference\<close>

type_synonym guard_outline = "(bool \<Rightarrow> mstate \<Rightarrow> bool) list"

definition live :: "bind list \<Rightarrow> asm_env \<Rightarrow> mstate \<Rightarrow> bool" where
  "live bs env st \<longleftrightarrow> list_all (bound (alloc env) (regs st)) bs"

definition armed :: "cs_call \<Rightarrow> bind list \<Rightarrow> asm_env \<Rightarrow> mstate \<Rightarrow> bool" where
  "armed c bs env st \<longleftrightarrow> live bs env st \<and> load64 (mem st) (ar c + of_nat CS_OFF) = cs_addr env"

definition checked :: "cs_call \<Rightarrow> bind list \<Rightarrow> asm_env \<Rightarrow> mstate \<Rightarrow> bool" where
  "checked c bs env st \<longleftrightarrow> armed c bs env st \<and> matches c (mem st)"

text \<open>What a thread's own area shows of a memory.\<close>

definition same_area :: "cs_call \<Rightarrow> mem \<Rightarrow> mem \<Rightarrow> bool" where
  "same_area c m m' \<longleftrightarrow> matches c m' = matches c m \<and>
     load64 m' (ar c + of_nat CS_OFF) = load64 m (ar c + of_nat CS_OFF)"

text \<open>The stores a block makes, \<open>b\<close> telling whether the index is sealed.\<close>

definition guard_store :: "cs_call \<Rightarrow> u64 \<Rightarrow> u64 \<Rightarrow> bool \<Rightarrow> mem \<Rightarrow> store option \<Rightarrow> bool" where
  "guard_store c w n b m s \<longleftrightarrow> (case s of None \<Rightarrow> True | Some p \<Rightarrow>
     fst p = ar c + of_nat CS_OFF \<or> \<not> b \<and> matches c m \<and> p = (w, n))"

definition guard_slot ::
  "guard_outline \<Rightarrow> 'j exec \<Rightarrow> 'j prog \<Rightarrow> cs_call \<Rightarrow> bind list \<Rightarrow> asm_env \<Rightarrow> nat \<Rightarrow> bool" where
  "guard_slot G ex P c bs env k \<longleftrightarrow> (case oper c of Compare_exchange_if w e n x xe \<Rightarrow>
     (\<forall>b st. (G ! k) b st \<longrightarrow> pc st = k \<longrightarrow> (b \<longrightarrow> load64 (mem st) x \<noteq> xe) \<longrightarrow>
        (\<exists>st' s. step ex P st = Some (st', s) \<and> k < pc st' \<and> pc st' < length G \<and>
           (G ! pc st') b st' \<and> mem st' = put s (mem st) \<and> guard_store c w n b (mem st) s)) \<and>
     (if in_cs P k then \<forall>b st. (G ! k) b st \<longrightarrow> armed c bs env st
      else \<forall>b b' st st'. (G ! k) b st \<longrightarrow> regs st' = regs st \<longrightarrow> zf st' = zf st \<longrightarrow> (G ! k) b' st') \<and>
     (\<forall>st. (G ! k) False st \<longrightarrow> \<not> matches c (mem st) \<longrightarrow> (G ! k) True st) \<and>
     (\<forall>b st m'. (G ! k) b st \<longrightarrow> same_area c (mem st) m' \<longrightarrow> (G ! k) b (st\<lparr>mem := m'\<rparr>))
   | _ \<Rightarrow> True)"

definition guard_ok ::
  "guard_outline \<Rightarrow> 'j exec \<Rightarrow> 'j prog \<Rightarrow> u32 \<Rightarrow> cs_call \<Rightarrow> bind list \<Rightarrow> asm_env \<Rightarrow> bool" where
  "guard_ok G ex P sig c bs env \<longleftrightarrow> length G = Suc (length (slots P)) \<and> desc_valid P sig \<and>
     (\<forall>b st. live bs env st \<longrightarrow> (G ! 0) b st \<and> (G ! unat (abort_ip P)) b st) \<and>
     list_all (guard_slot G ex P c bs env) [0..<length (slots P)]"

text \<open>The conditions of a program point, one by one.\<close>

lemma guard_slotD:
  "guard_ok G ex P sig c bs env \<Longrightarrow> k < length (slots P) \<Longrightarrow> guard_slot G ex P c bs env k"
  by (simp add: guard_ok_def list_all_iff)

lemma guard_length: "guard_ok G ex P sig c bs env \<Longrightarrow> length G = Suc (length (slots P))"
  by (simp add: guard_ok_def)

lemma guard_own:
  assumes ok: "guard_ok G ex P sig c bs env" and op: "oper c = Compare_exchange_if w e n x xe"
    and "pc st < length (slots P)" "(G ! pc st) b st" "b \<Longrightarrow> load64 (mem st) x \<noteq> xe"
  shows "\<exists>st' s. step ex P st = Some (st', s) \<and> pc st < pc st' \<and> pc st' < length G \<and>
    (G ! pc st') b st' \<and> mem st' = put s (mem st) \<and> guard_store c w n b (mem st) s"
  using guard_slotD [OF ok assms(3)] assms(4,5) unfolding guard_slot_def op cs_op.case by blast

lemma guard_inside:
  assumes ok: "guard_ok G ex P sig c bs env" and op: "oper c = Compare_exchange_if w e n x xe"
    and "k < length (slots P)" "in_cs P k" "(G ! k) b st"
  shows "armed c bs env st"
  using guard_slotD [OF ok assms(3)] assms(4,5) unfolding guard_slot_def op cs_op.case by meson

lemma guard_outside:
  assumes ok: "guard_ok G ex P sig c bs env" and op: "oper c = Compare_exchange_if w e n x xe"
    and "k < length (slots P)" "\<not> in_cs P k" "(G ! k) b st" "regs st' = regs st" "zf st' = zf st"
  shows "(G ! k) b' st'"
  using guard_slotD [OF ok assms(3)] assms(4-7) unfolding guard_slot_def op cs_op.case by meson

lemma guard_unmatched:
  assumes ok: "guard_ok G ex P sig c bs env" and op: "oper c = Compare_exchange_if w e n x xe"
    and "k < length (slots P)" "(G ! k) False st" "\<not> matches c (mem st)"
  shows "(G ! k) True st"
  using guard_slotD [OF ok assms(3)] assms(4,5) unfolding guard_slot_def op cs_op.case by blast

lemma guard_same:
  assumes ok: "guard_ok G ex P sig c bs env" and op: "oper c = Compare_exchange_if w e n x xe"
    and "k < length (slots P)" "(G ! k) b st" "same_area c (mem st) m'"
  shows "(G ! k) b (st\<lparr>mem := m'\<rparr>)"
  using guard_slotD [OF ok assms(3)] assms(4,5) unfolding guard_slot_def op cs_op.case by blast

section \<open>The outline of \<open>compare_exchange_if\<close>\<close>

text \<open>From the load of the index to the commit, and the way out.\<close>

definition guard_section :: "cs_call \<Rightarrow> bind list \<Rightarrow> asm_env \<Rightarrow> u64 \<Rightarrow> guard_outline" where
  "guard_section c bs env xe =
    [\<lambda>b. armed c bs env,
     \<lambda>b st. armed c bs env st \<and> (low32 (regs st (alloc env O_got)) = ident c \<longleftrightarrow> matches c (mem st)),
     \<lambda>b st. armed c bs env st \<and> (zf st \<longleftrightarrow> matches c (mem st)),
     \<lambda>b. checked c bs env, \<lambda>b. checked c bs env, \<lambda>b. checked c bs env, \<lambda>b. checked c bs env,
     \<lambda>b st. checked c bs env st \<and> (b \<longrightarrow> regs st (alloc env O_other_val) \<noteq> xe),
     \<lambda>b st. checked c bs env st \<and> (b \<longrightarrow> \<not> zf st),
     \<lambda>b st. checked c bs env st \<and> \<not> b] @
    [\<lambda>b st. True, \<lambda>b st. True, \<lambda>b st. True, \<lambda>b st. True,
     \<lambda>b st. True, \<lambda>b st. True, \<lambda>b st. True, \<lambda>b st. True]"

definition x86_guard :: "cs_call \<Rightarrow> bind list \<Rightarrow> asm_env \<Rightarrow> u64 \<Rightarrow> guard_outline" where
  "x86_guard c bs env xe = [\<lambda>b. live bs env, \<lambda>b st. False, \<lambda>b. live bs env,
     \<lambda>b st. live bs env st \<and> regs st (alloc env O_tmp) = cs_addr env] @ guard_section c bs env xe"

definition a64_guard :: "cs_call \<Rightarrow> bind list \<Rightarrow> asm_env \<Rightarrow> u64 \<Rightarrow> guard_outline" where
  "a64_guard c bs env xe = [\<lambda>b. live bs env, \<lambda>b st. False, \<lambda>b. live bs env,
     \<lambda>b st. live bs env st \<and> regs st (alloc env O_tmp) = and (cs_addr env) (not 4095),
     \<lambda>b st. live bs env st \<and> regs st (alloc env O_tmp) = cs_addr env] @ guard_section c bs env xe"

lemma guard_okI:
  assumes "length G = Suc (length (slots P))" "desc_valid P sig"
    "\<And>b st. live bs env st \<Longrightarrow> (G ! 0) b st" "\<And>b st. live bs env st \<Longrightarrow> (G ! unat (abort_ip P)) b st"
    "list_all (guard_slot G ex P c bs env) [0..<length (slots P)]"
  shows "guard_ok G ex P sig c bs env"
  using assms unfolding guard_ok_def by blast

lemmas guard_simps = guard_section_def x86_guard_def a64_guard_def checked_def armed_def live_def
  guard_store_def same_area_def guard_slot_def put_def Let_def desc_valid_def in_cs_def step_def
  page_split page_split_minus

lemma x86_guard_ok:
  assumes "link x86_map (x86_compare_exchange_if_asm (off c)) = Some P" "id_off_ok (off c)"
    "oper c = Compare_exchange_if w e n x xe" "bs = x86_compare_exchange_if_binds (ar c) w (ident c) e n x xe"
    "alloc_ok (alloc env) bs"
  shows "guard_ok (x86_guard c bs env xe) (x86_exec (alloc env) (cs_addr env)) P SIG_x86_64 c bs env"
  using assms(1-3) alloc_apart [OF assms(5)] unfolding assms(4)
  by (clarsimp simp: link_def x86_compare_exchange_if_asm_def x86_map_def,
      (intro guard_okI; simp add: guard_simps x86_compare_exchange_if_binds_def;
       safe; simp add: guard_simps asm_simps mem_simps))

lemma a64_guard_ok:
  assumes "link a64_map (a64_compare_exchange_if_asm (off c)) = Some P" "id_off_ok (off c)"
    "oper c = Compare_exchange_if w e n x xe" "bs = a64_compare_exchange_if_binds (ar c) w (ident c) e n x xe"
    "alloc_ok (alloc env) bs"
  shows "guard_ok (a64_guard c bs env xe) (a64_exec (alloc env) (cs_addr env)) P SIG_aarch64 c bs env"
  using assms(1-3) alloc_apart [OF assms(5)] unfolding assms(4)
  by (clarsimp simp: link_def a64_compare_exchange_if_asm_def a64_map_def,
      (intro guard_okI; simp add: guard_simps a64_compare_exchange_if_binds_def;
       safe; simp add: guard_simps asm_simps mem_simps))

section \<open>The contract\<close>

text \<open>The blocks of a target that keep the guarded outlines, for calls of that one operation.\<close>

locale guard_module =
  fixes B :: "'j blocks" and G :: "cs_call \<Rightarrow> asm_env \<Rightarrow> u64 \<Rightarrow> guard_outline"
  assumes guarded: "id_off_ok (off c) \<Longrightarrow> oper c = Compare_exchange_if w e n x xe \<Longrightarrow>
    alloc_ok (alloc env) (b_binds B c) \<Longrightarrow>
    guard_ok (G c env xe) (b_exec B (alloc env) (cs_addr env)) (b_prog B c) (b_sig B) c (b_binds B c) env"
    and ends: "\<not> in_cs (b_prog B c) (length (slots (b_prog B c)))"

definition x86_guards :: "cs_call \<Rightarrow> asm_env \<Rightarrow> u64 \<Rightarrow> guard_outline" where
  "x86_guards c env xe = x86_guard c (b_binds x86_blocks c) env xe"

definition a64_guards :: "cs_call \<Rightarrow> asm_env \<Rightarrow> u64 \<Rightarrow> guard_outline" where
  "a64_guards c env xe = a64_guard c (b_binds a64_blocks c) env xe"

interpretation x86_guarded: guard_module x86_blocks x86_guards
proof
  fix c w e n x xe and env :: asm_env
  assume a: "id_off_ok (off c)" "oper c = Compare_exchange_if w e n x xe"
    "alloc_ok (alloc env) (b_binds x86_blocks c)"
  obtain P where P: "link x86_map (x86_compare_exchange_if_asm (off c)) = Some P"
    using x86_compare_exchange_if_links [of "off c"] by (auto simp: links_def split: option.splits)
  show "guard_ok (x86_guards c env xe) (b_exec x86_blocks (alloc env) (cs_addr env))
      (b_prog x86_blocks c) (b_sig x86_blocks) c (b_binds x86_blocks c) env"
    using x86_guard_ok [OF P a(1,2) refl] a P by (simp add: x86_blocks_def x86_guards_def)
qed (rule x86_sys.left)

interpretation a64_guarded: guard_module a64_blocks a64_guards
proof
  fix c w e n x xe and env :: asm_env
  assume a: "id_off_ok (off c)" "oper c = Compare_exchange_if w e n x xe"
    "alloc_ok (alloc env) (b_binds a64_blocks c)"
  obtain P where P: "link a64_map (a64_compare_exchange_if_asm (off c)) = Some P"
    using a64_compare_exchange_if_links [of "off c"] by (auto simp: links_def split: option.splits)
  show "guard_ok (a64_guards c env xe) (b_exec a64_blocks (alloc env) (cs_addr env))
      (b_prog a64_blocks c) (b_sig a64_blocks) c (b_binds a64_blocks c) env"
    using a64_guard_ok [OF P a(1,2) refl] a P by (simp add: a64_blocks_def a64_guards_def)
qed (rule a64_sys.left)

end
