(* ===== verification/System.thy ===== *)
theory System
  imports Blocks "HOL-Library.Multiset"
begin

text \<open>
  Many threads on many CPUs: every thread has an area of its own, the kernel moves threads
  between CPUs and keeps the areas up to date, and the threads run blocks on the words of their
  index, one instruction at a time, over one shared memory. What the outlines assume of the
  environment (\<open>irq_ok\<close>, \<open>par_ok\<close>) is derived here from the scheduler and the layout of memory,
  and with it the promise of the library to its callers: the words are changed as if by one
  atomic operation after another, and no update is lost.
\<close>

section \<open>Configurations and states\<close>

text \<open>
  The blocks of the target, the area of each thread, the number of threads, the words that
  belong to an index (by the offset of its kind), the calls the threads make, and what the
  callers keep true of the words, such as that pointers lead to words of the same index.
\<close>

record 'j config =
  c_blocks :: "'j blocks"
  c_area :: "nat \<Rightarrow> u64"
  c_threads :: nat
  c_home :: "nat \<Rightarrow> u32 \<Rightarrow> u64 set"
  c_calls :: "cs_call \<Rightarrow> bool"
  c_inv :: "mem \<Rightarrow> bool"

text \<open>A thread in a call: the memory in its state is the one it saw last.\<close>

record thr =
  t_call :: cs_call
  t_env :: asm_env
  t_st :: mstate
  t_tr :: trace

text \<open>The stores to words, in order, with the calls that made them.\<close>

datatype entry = Scratch cs_call store | Commit cs_call store

fun entry_call :: "entry \<Rightarrow> cs_call" where
  "entry_call (Scratch c x) = c"
| "entry_call (Commit c x) = c"

text \<open>\<open>on\<close> is the CPU and the concurrency id of a thread that runs.\<close>

record sys =
  shared :: mem
  thr :: "nat \<Rightarrow> thr option"
  on :: "nat \<Rightarrow> (u32 \<times> u32) option"
  log :: "entry list"
  rets :: "(cs_call \<times> trace \<times> attempt) list"

definition index_at :: "nat \<Rightarrow> u32 \<times> u32 \<Rightarrow> u32" where
  "index_at k x = (if k = CPU_ID_OFF then fst x else snd x)"

section \<open>Steps\<close>

text \<open>
  The kernel resumes a thread on a CPU: it writes the index fields, clears \<open>rseq_cs\<close>, and if the
  thread was inside the section of the installed descriptor, continues at its abort handler.
\<close>

definition kernel_update :: "u64 \<Rightarrow> u32 \<times> u32 \<Rightarrow> mem \<Rightarrow> mem" where
  "kernel_update a x m = store64 (store32 (store32 (store32 m
     a (fst x)) (a + of_nat CPU_ID_OFF) (fst x)) (a + of_nat MM_CID_OFF) (snd x))
     (a + of_nat CS_OFF) 0"

definition resume_thr :: "'j blocks \<Rightarrow> u64 \<Rightarrow> u32 \<times> u32 \<Rightarrow> mem \<Rightarrow> thr \<Rightarrow> thr" where
  "resume_thr B a x m t = (let P = b_prog B (t_call t); st = t_st t in
     t\<lparr>t_st := st\<lparr>pc := (if in_cs P (pc st) \<and> load64 m (a + of_nat CS_OFF) = cs_addr (t_env t) \<and>
         desc_valid P (b_sig B) then unat (abort_ip P) else pc st),
       mem := kernel_update a x m\<rparr>\<rparr>)"

definition entries :: "cs_call \<Rightarrow> store option \<Rightarrow> entry list" where
  "entries c w = (case w of None \<Rightarrow> [] | Some x \<Rightarrow>
     if fst x = ar c + of_nat CS_OFF then []
     else if scratch (oper c) = Some x then [Scratch c x] else [Commit c x])"

definition outcome_at :: "thr \<Rightarrow> attempt" where
  "outcome_at t = from_status (regs (t_st t) (alloc (t_env t) O_status))
     (regs (t_st t) (alloc (t_env t) (result_op (oper (t_call t)))))"

definition begin_call :: "'j blocks \<Rightarrow> cs_call \<Rightarrow> asm_env \<Rightarrow> mem \<Rightarrow> thr" where
  "begin_call B c env m = \<lparr>t_call = c, t_env = env, t_st = entry (b_binds B c) env m, t_tr = []\<rparr>"

inductive sys_step :: "'j config \<Rightarrow> sys \<Rightarrow> sys \<Rightarrow> bool" where
  stop: "i < c_threads C \<Longrightarrow> on s i = Some x \<Longrightarrow>
    sys_step C s (s\<lparr>on := (on s)(i := None),
      thr := (thr s)(i := map_option (\<lambda>t. t\<lparr>t_st := (t_st t)\<lparr>mem := shared s\<rparr>\<rparr>) (thr s i))\<rparr>)"
| resume: "i < c_threads C \<Longrightarrow> on s i = None \<Longrightarrow>
    (\<forall>j<c_threads C. \<forall>y. on s j = Some y \<longrightarrow> fst y \<noteq> fst x \<and> snd y \<noteq> snd x) \<Longrightarrow>
    sys_step C s (s\<lparr>shared := kernel_update (c_area C i) x (shared s), on := (on s)(i := Some x),
      thr := (thr s)(i := map_option (resume_thr (c_blocks C) (c_area C i) x (shared s)) (thr s i))\<rparr>)"
| call: "i < c_threads C \<Longrightarrow> on s i = Some x \<Longrightarrow> thr s i = None \<Longrightarrow> c_calls C c \<Longrightarrow>
    ar c = c_area C i \<Longrightarrow> alloc_ok (alloc env) (b_binds (c_blocks C) c) \<Longrightarrow>
    sys_step C s (s\<lparr>thr := (thr s)(i := Some (begin_call (c_blocks C) c env (shared s)))\<rparr>)"
| own: "i < c_threads C \<Longrightarrow> on s i = Some x \<Longrightarrow> thr s i = Some t \<Longrightarrow>
    \<not> finished (b_prog (c_blocks C) (t_call t)) (t_st t) \<Longrightarrow>
    step (b_exec (c_blocks C) (alloc (t_env t)) (cs_addr (t_env t))) (b_prog (c_blocks C) (t_call t))
      ((t_st t)\<lparr>mem := shared s\<rparr>) = Some (st', w) \<Longrightarrow>
    sys_step C s (s\<lparr>shared := mem st',
      thr := (thr s)(i := Some (t\<lparr>t_st := st', t_tr := t_tr t @ [(shared s, w)]\<rparr>)),
      log := log s @ entries (t_call t) w\<rparr>)"
| ret: "i < c_threads C \<Longrightarrow> on s i = Some x \<Longrightarrow> thr s i = Some t \<Longrightarrow>
    finished (b_prog (c_blocks C) (t_call t)) (t_st t) \<Longrightarrow>
    sys_step C s (s\<lparr>thr := (thr s)(i := None),
      rets := rets s @ [(t_call t, t_tr t, outcome_at t)]\<rparr>)"

inductive reachable :: "'j config \<Rightarrow> sys \<Rightarrow> sys \<Rightarrow> bool" for C s where
  start: "reachable C s s"
| one: "reachable C s s' \<Longrightarrow> sys_step C s' s'' \<Longrightarrow> reachable C s s''"

definition idle :: "mem \<Rightarrow> sys" where
  "idle m = \<lparr>shared = m, thr = (\<lambda>_. None), on = (\<lambda>_. None), log = [], rets = []\<rparr>"

section \<open>The layout of memory\<close>

text \<open>
  The areas of the threads, the words of the indices: nothing overlaps, and a word has one index.
\<close>

definition layout_ok :: "'j config \<Rightarrow> bool" where
  "layout_ok C \<longleftrightarrow>
     (\<forall>i<c_threads C. \<forall>j<c_threads C. i \<noteq> j \<longrightarrow> separate (c_area C i) 32 (c_area C j) 32) \<and>
     (\<forall>k x. \<forall>a\<in>c_home C k x. \<forall>i<c_threads C. separate (c_area C i) 32 a 8) \<and>
     (\<forall>k x k' x'. \<forall>a\<in>c_home C k x. \<forall>b\<in>c_home C k' x'.
        if a = b then k = k' \<and> x = x' else separate a 8 b 8)"

text \<open>
  The calls use words of their own index only, in any memory with the invariant. The invariant
  is about the words, and no store of a call breaks it.
\<close>

definition calls_ok :: "'j config \<Rightarrow> bool" where
  "calls_ok C \<longleftrightarrow>
     (\<forall>c. c_calls C c \<longrightarrow> id_off_ok (off c) \<and> side_apart (oper c) \<and>
       (\<forall>m. c_inv C m \<longrightarrow> set (footprint (oper c) m) \<subseteq> c_home C (off c) (ident c) \<and>
         (\<forall>x. scratch (oper c) = Some x \<or> snd (op_spec (oper c) m) = Some x \<longrightarrow>
           c_inv C (put (Some x) m)))) \<and>
     (\<forall>m m'. c_inv C m \<longrightarrow> (\<forall>k x. \<forall>a\<in>c_home C k x. load64 m' a = load64 m a) \<longrightarrow> c_inv C m')"

section \<open>Replay\<close>

text \<open>
  The logged stores one after the other; each commit must be the store of its atomic operation
  on the memory that the entries before it have left, with its scratch store in place.
\<close>

fun replay :: "mem \<Rightarrow> entry list \<Rightarrow> mem option" where
  "replay m [] = Some m"
| "replay m (Scratch c x # l) =
     (if scratch (oper c) = Some x then replay (put (Some x) m) l else None)"
| "replay m (Commit c x # l) =
     (if snd (op_spec (oper c) m) = Some x \<and> prepared (oper c) m then replay (put (Some x) m) l else None)"

lemma replay_append:
  "replay m (l @ l') = (case replay m l of None \<Rightarrow> None | Some m' \<Rightarrow> replay m' l')"
  by (induction m l rule: replay.induct) auto

lemma op_spec_cong:
  "\<forall>a \<in> set (footprint p m). load64 m' a = load64 m a \<Longrightarrow> op_spec p m' = op_spec p m"
  by (cases p) (auto simp: Let_def)

lemma prepared_cong:
  "\<forall>a \<in> set (footprint p m). load64 m' a = load64 m a \<Longrightarrow> prepared p m' = prepared p m"
  by (cases p) auto

lemma commit_in_footprint: "snd (op_spec p m) = Some x \<Longrightarrow> fst x \<in> set (footprint p m)"
  by (cases p) (auto simp: Let_def split: if_splits)

lemma scratch_in_footprint: "scratch p = Some x \<Longrightarrow> fst x \<in> set (footprint p m)"
  by (cases p) auto

lemma store_ok_footprint:
  "store_ok c m (Some x) \<Longrightarrow> fst x = ar c + of_nat CS_OFF \<or> matches c m \<and> fst x \<in> set (footprint (oper c) m)"
  by (auto simp: store_ok_def intro: commit_in_footprint scratch_in_footprint)

lemma put_None [simp]: "put None m = m"
  by (simp add: put_def)

lemma put_Some: "put (Some x) m = store64 m (fst x) (snd x)"
  by (cases x) (simp add: put_def)

lemma separate_bytes: "separate a n b 8 \<Longrightarrow> k < n \<Longrightarrow> store64 m b v (a + of_nat k) = m (a + of_nat k)"
  by (rule store64_other) (auto simp: separate_def)

section \<open>What a write leaves alone\<close>

lemma load64_bytes: "\<forall>i<8. m' (w + of_nat i) = m (w + of_nat i) \<Longrightarrow> load64 m' w = load64 m w"
  using load64_cong_range [of 8 m' w m 0] by simp

lemma kernel_update_other:
  assumes "\<forall>k<32. y \<noteq> a + of_nat k"
  shows "kernel_update a x m y = m y"
proof -
  have s: "y \<noteq> a + of_nat k + of_nat i" if "k + i < 32" for k i
    using assms [rule_format, OF that] by (simp add: add.assoc)
  have "\<forall>i<4. y \<noteq> a + of_nat i" using s [of 0] by simp
  moreover have "\<forall>i<4. y \<noteq> a + of_nat CPU_ID_OFF + of_nat i" "\<forall>i<8. y \<noteq> a + of_nat CS_OFF + of_nat i"
    "\<forall>i<4. y \<noteq> a + of_nat MM_CID_OFF + of_nat i"
    by (auto intro!: s simp: CPU_ID_OFF_def CS_OFF_def MM_CID_OFF_def simp del: of_nat_numeral)
  ultimately show ?thesis by (simp add: kernel_update_def store64_other store32_other)
qed

lemma kernel_update_bytes:
  assumes "separate a 32 b n" "k < n"
  shows "kernel_update a x m (b + of_nat k) = m (b + of_nat k)"
proof (rule kernel_update_other, intro allI impI)
  from assms(1) have h: "\<forall>i<32. \<forall>j<n. a + of_nat i \<noteq> b + of_nat j" by (simp only: separate_def)
  fix i :: nat assume "i < 32"
  then have "a + of_nat i \<noteq> b + of_nat k" using h assms(2) by blast
  then show "b + of_nat k \<noteq> a + of_nat i" by (rule not_sym)
qed

lemma kernel_update_word: "separate a 32 w 8 \<Longrightarrow> load64 (kernel_update a x m) w = load64 m w"
  by (rule load64_bytes) (simp add: kernel_update_bytes)

lemma kernel_update_index:
  "load32 (kernel_update a x m) (a + of_nat CPU_ID_OFF) = fst x"
  "load32 (kernel_update a x m) (a + of_nat MM_CID_OFF) = snd x"
  by (simp_all add: kernel_update_def CPU_ID_OFF_def MM_CID_OFF_def CS_OFF_def mem_simps
      separate_area_numeral)

text \<open>The store of an instruction against the area of another thread and a word.\<close>

lemma put_area:
  assumes "store_ok c m w" "separate (ar c) 32 b 32"
    and "\<forall>a \<in> set (footprint (oper c) m). separate b 32 a 8" "k < 32"
  shows "put w m (b + of_nat k) = m (b + of_nat k)"
proof (cases w)
  case (Some x)
  have "separate b 32 (fst x) 8"
    using store_ok_footprint [of c m x] assms(1-3) Some
    by (auto simp: CS_OFF_def intro!: separate_sym [of _ 8] separate_sub [of "ar c" 32 b 32 8 8, simplified]
        intro: separate_sym)
  then show ?thesis using assms(4) Some by (simp add: put_Some separate_bytes)
qed simp

lemma put_word:
  assumes "store_ok c m w" "separate (ar c) 32 b 8"
    and "\<And>a. matches c m \<Longrightarrow> a \<in> set (footprint (oper c) m) \<Longrightarrow> separate a 8 b 8"
  shows "load64 (put w m) b = load64 m b"
proof (cases w)
  case (Some x)
  have "separate (ar c + of_nat CS_OFF) 8 b 8"
    by (rule separate_sub [OF assms(2)]) (simp add: CS_OFF_def)
  then have "separate (fst x) 8 b 8"
    using store_ok_footprint [of c m x] assms(1,3) Some by auto
  then show ?thesis using Some by (simp add: put_Some mem_simps)
qed simp

section \<open>The invariant\<close>

text \<open>
  A thread in a call: its outline holds at its program point, or it has left the block and the
  outcome linearizes the call. While it runs it sees the shared memory; otherwise its own area
  is as it left it.
\<close>

definition thread_holds ::
  "'j prog \<Rightarrow> outline \<Rightarrow> cs_call \<Rightarrow> asm_env \<Rightarrow> mstate \<Rightarrow> trace \<Rightarrow> bool" where
  "thread_holds P T c env st tr \<longleftrightarrow> (if finished P st
     then pc st = length (slots P) \<and> linearized c tr (from_status (regs st (alloc env O_status))
       (regs st (alloc env (result_op (oper c)))))
     else holds T st tr)"

definition thread_ok ::
  "'j config \<Rightarrow> (cs_call \<Rightarrow> asm_env \<Rightarrow> outline) \<Rightarrow> mem \<Rightarrow> bool \<Rightarrow> nat \<Rightarrow> thr \<Rightarrow> bool" where
  "thread_ok C T m runs i t \<longleftrightarrow> c_calls C (t_call t) \<and> ar (t_call t) = c_area C i \<and>
     alloc_ok (alloc (t_env t)) (b_binds (c_blocks C) (t_call t)) \<and>
     (let st = (if runs then (t_st t)\<lparr>mem := m\<rparr> else t_st t) in
      thread_holds (b_prog (c_blocks C) (t_call t)) (T (t_call t) (t_env t)) (t_call t) (t_env t)
        st (t_tr t) \<and>
      (\<forall>k<32. mem st (c_area C i + of_nat k) = m (c_area C i + of_nat k)))"

definition indexed :: "'j config \<Rightarrow> sys \<Rightarrow> bool" where
  "indexed C s \<longleftrightarrow>
     (\<forall>i<c_threads C. \<forall>x. on s i = Some x \<longrightarrow>
        load32 (shared s) (c_area C i + of_nat CPU_ID_OFF) = fst x \<and>
        load32 (shared s) (c_area C i + of_nat MM_CID_OFF) = snd x) \<and>
     (\<forall>i<c_threads C. \<forall>j<c_threads C. \<forall>x y. i \<noteq> j \<longrightarrow> on s i = Some x \<longrightarrow> on s j = Some y \<longrightarrow>
        fst x \<noteq> fst y \<and> snd x \<noteq> snd y)"

definition each_thread :: "'j config \<Rightarrow> (mem \<Rightarrow> bool \<Rightarrow> nat \<Rightarrow> thr \<Rightarrow> bool) \<Rightarrow> sys \<Rightarrow> bool" where
  "each_thread C P s \<longleftrightarrow>
     (\<forall>i<c_threads C. \<forall>t. thr s i = Some t \<longrightarrow> P (shared s) (on s i \<noteq> None) i t)"

lemma each_threadD:
  "each_thread C P s \<Longrightarrow> i < c_threads C \<Longrightarrow> thr s i = Some t \<Longrightarrow> P (shared s) (on s i \<noteq> None) i t"
  unfolding each_thread_def by blast

definition threads_ok :: "'j config \<Rightarrow> (cs_call \<Rightarrow> asm_env \<Rightarrow> outline) \<Rightarrow> sys \<Rightarrow> bool" where
  "threads_ok C T s \<longleftrightarrow> each_thread C (thread_ok C T) s"

lemma threads_okD:
  "threads_ok C T s \<Longrightarrow> i < c_threads C \<Longrightarrow> thr s i = Some t \<Longrightarrow>
    thread_ok C T (shared s) (on s i \<noteq> None) i t"
  unfolding threads_ok_def by (rule each_threadD)

text \<open>
  A property of each thread is kept by a step when each kind of step keeps it for the thread that
  moves, and the stores of the kernel and of the instructions keep it for the others.
\<close>

lemma each_thread_step:
  assumes step: "sys_step C s s'" and each: "each_thread C P s"
    and stop_self: "\<And>i t. P (shared s) True i t \<Longrightarrow> P (shared s) False i (t\<lparr>t_st := (t_st t)\<lparr>mem := shared s\<rparr>\<rparr>)"
    and resume_self: "\<And>i x t. i < c_threads C \<Longrightarrow> P (shared s) False i t \<Longrightarrow>
      P (kernel_update (c_area C i) x (shared s)) True i (resume_thr (c_blocks C) (c_area C i) x (shared s) t)"
    and resume_other: "\<And>i j x t. i < c_threads C \<Longrightarrow> j < c_threads C \<Longrightarrow> j \<noteq> i \<Longrightarrow>
      P (shared s) (on s j \<noteq> None) j t \<Longrightarrow> P (kernel_update (c_area C i) x (shared s)) (on s j \<noteq> None) j t"
    and call_self: "\<And>i c env. i < c_threads C \<Longrightarrow> c_calls C c \<Longrightarrow> ar c = c_area C i \<Longrightarrow>
      alloc_ok (alloc env) (b_binds (c_blocks C) c) \<Longrightarrow>
      P (shared s) True i (begin_call (c_blocks C) c env (shared s))"
    and own_all: "\<And>i x t st' w. i < c_threads C \<Longrightarrow> on s i = Some x \<Longrightarrow> thr s i = Some t \<Longrightarrow>
      \<not> finished (b_prog (c_blocks C) (t_call t)) (t_st t) \<Longrightarrow>
      step (b_exec (c_blocks C) (alloc (t_env t)) (cs_addr (t_env t))) (b_prog (c_blocks C) (t_call t))
        ((t_st t)\<lparr>mem := shared s\<rparr>) = Some (st', w) \<Longrightarrow>
      P (mem st') True i (t\<lparr>t_st := st', t_tr := t_tr t @ [(shared s, w)]\<rparr>) \<and>
      (\<forall>j<c_threads C. \<forall>u. j \<noteq> i \<longrightarrow> P (shared s) (on s j \<noteq> None) j u \<longrightarrow>
        P (mem st') (on s j \<noteq> None) j u)"
  shows "each_thread C P s'"
  unfolding each_thread_def
proof (intro allI impI)
  fix j u assume j: "j < c_threads C" "thr s' j = Some u"
  note u = each_threadD [OF each j(1)]
  show "P (shared s') (on s' j \<noteq> None) j u"
    using step
  proof cases
    case (stop i x)
    then show ?thesis using u stop_self j(2) by (cases "j = i") auto
  next
    case (resume i x)
    show ?thesis
    proof (cases "j = i")
      case True
      then obtain t where t: "thr s j = Some t" "u = resume_thr (c_blocks C) (c_area C i) x (shared s) t"
        using resume(1) j(2) by auto
      have "P (shared s) False i t" using u [OF t(1)] resume(3) True by simp
      from resume_self [OF resume(2) this] show ?thesis using t True resume(1) by simp
    next
      case False
      then have s: "thr s j = Some u" "on s' j = on s j" "shared s' = kernel_update (c_area C i) x (shared s)"
        using resume(1) j(2) by simp_all
      show ?thesis unfolding s(2,3) by (rule resume_other [OF resume(2) j(1) False u [OF s(1)]])
    qed
  next
    case (call i x c env)
    then show ?thesis using u call_self j(2) by (cases "j = i") auto
  next
    case (own i x t st' w)
    then show ?thesis using u own_all [OF own(2-6)] j by (cases "j = i") auto
  next
    case (ret i x t)
    then show ?thesis using j(2) u by (cases "j = i") simp_all
  qed
qed

text \<open>The words are what the log makes of the memory at the start.\<close>

definition logged :: "'j config \<Rightarrow> mem \<Rightarrow> sys \<Rightarrow> bool" where
  "logged C mi s \<longleftrightarrow> (\<exists>m. replay mi (log s) = Some m \<and>
     (\<forall>k x. \<forall>a\<in>c_home C k x. load64 m a = load64 (shared s) a))"

lemma index_matches:
  assumes "id_off_ok (off c)" "load32 m (ar c + of_nat CPU_ID_OFF) = fst x"
    "load32 m (ar c + of_nat MM_CID_OFF) = snd x"
  shows "matches c m \<longleftrightarrow> index_at (off c) x = ident c"
  using assms by (auto simp: matches_def id_off_ok_def index_at_def CPU_ID_OFF_def MM_CID_OFF_def)

lemma indexed_load:
  "indexed C s \<Longrightarrow> i < c_threads C \<Longrightarrow> on s i = Some x \<Longrightarrow>
    load32 (shared s) (c_area C i + of_nat CPU_ID_OFF) = fst x \<and>
    load32 (shared s) (c_area C i + of_nat MM_CID_OFF) = snd x"
  unfolding indexed_def by blast

lemma indexed_apart:
  "indexed C s \<Longrightarrow> i < c_threads C \<Longrightarrow> j < c_threads C \<Longrightarrow> i \<noteq> j \<Longrightarrow> on s i = Some x \<Longrightarrow>
    on s j = Some y \<Longrightarrow> fst x \<noteq> fst y \<and> snd x \<noteq> snd y"
  unfolding indexed_def by blast

lemma indexed_on:
  assumes "indexed C s" "\<And>j y. on s' j = Some y \<Longrightarrow> on s j = Some y"
    and "\<And>j k. j < c_threads C \<Longrightarrow> id_off_ok k \<Longrightarrow>
      load32 (shared s') (c_area C j + of_nat k) = load32 (shared s) (c_area C j + of_nat k)"
  shows "indexed C s'"
  unfolding indexed_def
proof (intro conjI allI impI)
  fix j y assume "j < c_threads C" "on s' j = Some y"
  then show "load32 (shared s') (c_area C j + of_nat CPU_ID_OFF) = fst y"
    "load32 (shared s') (c_area C j + of_nat MM_CID_OFF) = snd y"
    using indexed_load [OF assms(1)] assms(2,3) by (simp_all add: id_off_ok_def)
next
  fix j j' y y' assume j: "j < c_threads C" "j' < c_threads C" "j \<noteq> j'" "on s' j = Some y" "on s' j' = Some y'"
  from indexed_apart [OF assms(1) j(1-3) assms(2) [OF j(4)] assms(2) [OF j(5)]]
  show "fst y \<noteq> fst y'" "snd y \<noteq> snd y'" by blast+
qed

lemma call_valid:
  assumes "layout_ok C" "calls_ok C" "c_calls C c" "ar c = c_area C i" "i < c_threads C" "c_inv C m"
  shows "valid c m"
proof -
  have "set (footprint (oper c) m) \<subseteq> c_home C (off c) (ident c)" "side_apart (oper c)"
    using assms(2,3,6) unfolding calls_ok_def by blast+
  then show ?thesis using assms(1,4,5) by (auto simp: valid_def layout_ok_def)
qed

lemma home_separate:
  assumes "layout_ok C" "a \<in> c_home C k x" "b \<in> c_home C k' x'"
  shows "if a = b then k = k' \<and> x = x' else separate a 8 b 8"
  using assms unfolding layout_ok_def by blast

lemma home_area: "layout_ok C \<Longrightarrow> a \<in> c_home C k x \<Longrightarrow> i < c_threads C \<Longrightarrow> separate (c_area C i) 32 a 8"
  unfolding layout_ok_def by blast

lemma areas_separate:
  "layout_ok C \<Longrightarrow> i < c_threads C \<Longrightarrow> j < c_threads C \<Longrightarrow> i \<noteq> j \<Longrightarrow>
    separate (c_area C i) 32 (c_area C j) 32"
  unfolding layout_ok_def by blast

lemma footprint_home:
  "calls_ok C \<Longrightarrow> c_inv C m \<Longrightarrow> c_calls C c \<Longrightarrow> a \<in> set (footprint (oper c) m) \<Longrightarrow>
    a \<in> c_home C (off c) (ident c)"
  unfolding calls_ok_def by blast

lemma call_off_ok: "calls_ok C \<Longrightarrow> c_calls C c \<Longrightarrow> id_off_ok (off c)"
  unfolding calls_ok_def by blast

lemma inv_words:
  "calls_ok C \<Longrightarrow> c_inv C m \<Longrightarrow> (\<And>k x a. a \<in> c_home C k x \<Longrightarrow> load64 m' a = load64 m a) \<Longrightarrow> c_inv C m'"
  unfolding calls_ok_def by blast

lemma inv_put:
  "calls_ok C \<Longrightarrow> c_inv C m \<Longrightarrow> c_calls C c \<Longrightarrow>
    scratch (oper c) = Some x \<or> snd (op_spec (oper c) m) = Some x \<Longrightarrow> c_inv C (put (Some x) m)"
  unfolding calls_ok_def by blast

lemma inv_kernel:
  assumes "layout_ok C" "calls_ok C" "c_inv C m" "i < c_threads C"
  shows "c_inv C (kernel_update (c_area C i) x m)"
  by (rule inv_words [OF assms(2,3)]) (rule kernel_update_word [OF home_area [OF assms(1) _ assms(4)]])

lemma inv_store:
  assumes "layout_ok C" "calls_ok C" "c_inv C m" "i < c_threads C" "c_calls C c" "ar c = c_area C i"
    and "store_ok c m w"
  shows "c_inv C (put w m)"
proof (cases w)
  case None
  then show ?thesis using assms(3) by simp
next
  case (Some x)
  show ?thesis
  proof (cases "fst x = ar c + of_nat CS_OFF")
    case True
    have "load64 (put w m) a = load64 m a" if "a \<in> c_home C k y" for a k y
    proof -
      have "separate (ar c + of_nat CS_OFF) 8 a 8"
        by (rule separate_sub [of _ 32]) (use home_area [OF assms(1) that assms(4)] assms(6) in \<open>simp_all add: CS_OFF_def\<close>)
      then show ?thesis using Some True by (simp add: put_Some mem_simps)
    qed
    then show ?thesis by (rule inv_words [OF assms(2,3)])
  next
    case False
    then have "scratch (oper c) = Some x \<or> snd (op_spec (oper c) m) = Some x"
      using assms(7) Some by (auto simp: store_ok_def)
    from inv_put [OF assms(2,3,5) this] show ?thesis using Some by simp
  qed
qed

text \<open>
  The main step: an instruction of one thread is, for every other, a write it may expect of
  another CPU. Two running threads have different indices, so different words.
\<close>

lemma store_spares_area:
  assumes "layout_ok C" "calls_ok C" "i < c_threads C" "c_calls C c" "ar c = c_area C i"
    and "store_ok c m w" "j < c_threads C" "j \<noteq> i" "c_inv C m"
  shows "\<forall>b<32. put w m (c_area C j + of_nat b) = m (c_area C j + of_nat b)"
proof -
  have "separate (ar c) 32 (c_area C j) 32"
    using areas_separate [OF assms(1,3,7)] assms(5,8) by simp
  then show ?thesis
    using put_area [OF assms(6)] home_area [OF assms(1) footprint_home [OF assms(2,9,4)] assms(7)] by blast
qed

lemma store_interferes_not:
  assumes l: "layout_ok C" and k: "calls_ok C" and ix: "indexed C s" "c_inv C (shared s)"
    and i: "i < c_threads C" "on s i = Some x" "c_calls C c" "ar c = c_area C i"
    and w: "store_ok c (shared s) w"
    and j: "j < c_threads C" "j \<noteq> i" "c_calls C d" "ar d = c_area C j" "on s j = Some y"
  shows "par_ok d (shared s) (put w (shared s))"
proof -
  let ?m = "shared s"
  have "load64 (put w ?m) b = load64 ?m b" if d: "matches d ?m" "b \<in> set (footprint (oper d) ?m)" for b
  proof (rule put_word [OF w])
    have b: "b \<in> c_home C (off d) (ident d)" using footprint_home [OF k ix(2) j(3) d(2)] .
    show "separate (ar c) 32 b 8" using home_area [OF l b i(1)] i(4) by simp
    fix a assume c: "matches c ?m" "a \<in> set (footprint (oper c) ?m)"
    have a: "a \<in> c_home C (off c) (ident c)" using footprint_home [OF k ix(2) i(3) c(2)] .
    have "index_at (off c) x = ident c"
      using index_matches [OF call_off_ok [OF k i(3)]] indexed_load [OF ix(1) i(1,2)] c(1) i(4) by simp
    moreover have "index_at (off d) y = ident d"
      using index_matches [OF call_off_ok [OF k j(3)]] indexed_load [OF ix(1) j(1,5)] d(1) j(4) by simp
    moreover have "fst x \<noteq> fst y \<and> snd x \<noteq> snd y"
      using indexed_apart [OF ix(1) i(1) j(1) _ i(2) j(5)] j(2) by simp
    ultimately have "\<not> (off c = off d \<and> ident c = ident d)" by (auto simp: index_at_def split: if_splits)
    then show "separate a 8 b 8" using home_separate [OF l a b] by (auto split: if_splits)
  qed
  then show ?thesis using store_spares_area [OF l k i(1,3,4) w j(1,2) ix(2)] j(4) by (simp add: par_ok_def)
qed

text \<open>The kernel keeps the index of every running thread in its area.\<close>

lemma indexed_resume:
  assumes l: "layout_ok C" and ok: "indexed C s" and i: "i < c_threads C"
    and r: "\<forall>j<c_threads C. \<forall>y. on s j = Some y \<longrightarrow> fst y \<noteq> fst x \<and> snd y \<noteq> snd x"
    and m: "shared s' = kernel_update (c_area C i) x (shared s)" and on: "on s' = (on s)(i := Some x)"
  shows "indexed C s'"
proof -
  have "load32 (shared s') (c_area C j + of_nat k) = load32 (shared s) (c_area C j + of_nat k)"
    if "j < c_threads C" "j \<noteq> i" "id_off_ok k" for j k
    using load_id_cong [OF that(3)] kernel_update_bytes [OF areas_separate [OF l i that(1)]]
      that(2) m by simp
  then have o: "load32 (shared s') (c_area C j + of_nat CPU_ID_OFF) =
        load32 (shared s) (c_area C j + of_nat CPU_ID_OFF)"
      "load32 (shared s') (c_area C j + of_nat MM_CID_OFF) =
        load32 (shared s) (c_area C j + of_nat MM_CID_OFF)"
    if "j < c_threads C" "j \<noteq> i" for j using that by (simp_all add: id_off_ok_def)
  have n: "load32 (shared s') (c_area C i + of_nat CPU_ID_OFF) = fst x"
      "load32 (shared s') (c_area C i + of_nat MM_CID_OFF) = snd x"
    using m by (simp_all add: kernel_update_index)
  have r: "fst z \<noteq> fst x \<and> snd z \<noteq> snd x" if "j < c_threads C" "on s j = Some z" for j z
    using r that by blast
  show ?thesis unfolding indexed_def on
  proof (intro conjI allI impI)
    fix j y assume "j < c_threads C" "((on s)(i := Some x)) j = Some y"
    then show "load32 (shared s') (c_area C j + of_nat CPU_ID_OFF) = fst y"
      "load32 (shared s') (c_area C j + of_nat MM_CID_OFF) = snd y"
      using n o indexed_load [OF ok] by (cases "j = i"; simp)+
  next
    fix j j' y y' assume j: "j < c_threads C" "j' < c_threads C" "j \<noteq> j'"
      "((on s)(i := Some x)) j = Some y" "((on s)(i := Some x)) j' = Some y'"
    have "\<not> (fst y = fst y' \<or> snd y = snd y')"
      using j r [of j y] r [of j' y'] indexed_apart [OF ok j(1,2,3), of y y']
      by (cases "j = i"; cases "j' = i") auto
    then show "fst y \<noteq> fst y'" "snd y \<noteq> snd y'" by blast+
  qed
qed

text \<open>A store to a word or to the descriptor pointer of an area changes no index.\<close>

lemma index_store:
  assumes "layout_ok C" "i < c_threads C" "j < c_threads C" "id_off_ok k"
    and "fst p = c_area C i + of_nat CS_OFF \<or> (\<exists>kd x. fst p \<in> c_home C kd x)"
  shows "load32 (put (Some p) m) (c_area C j + of_nat k) = load32 m (c_area C j + of_nat k)"
  using assms(5)
proof
  assume p: "fst p = c_area C i + of_nat CS_OFF"
  show ?thesis
  proof (cases "i = j")
    case True
    then show ?thesis using p assms(4) by (simp add: put_Some mem_simps)
  next
    case False
    have "separate (c_area C i) 32 (c_area C j) 32" by (rule areas_separate [OF assms(1-3) False])
    then have "separate (fst p) 8 (c_area C j) 32" unfolding p
      by (rule separate_sub) (simp add: CS_OFF_def)
    from separate_bytes [OF separate_sym [OF this]] show ?thesis
      by (intro load_id_cong [OF assms(4)]) (simp add: put_Some)
  qed
next
  assume "\<exists>kd x. fst p \<in> c_home C kd x"
  then have "separate (c_area C j) 32 (fst p) 8" using home_area [OF assms(1)] assms(3) by blast
  then show ?thesis using assms(4) by (simp add: put_Some mem_simps)
qed

lemma own_index:
  assumes l: "layout_ok C" "calls_ok C" "c_inv C m" and i: "i < c_threads C" "c_calls C c" "ar c = c_area C i"
    and w: "store_ok c m w" and j: "j < c_threads C" "id_off_ok k"
  shows "load32 (put w m) (c_area C j + of_nat k) = load32 m (c_area C j + of_nat k)"
proof (cases w)
  case (Some p)
  have "fst p = c_area C i + of_nat CS_OFF \<or> (\<exists>kd x. fst p \<in> c_home C kd x)"
    using store_ok_footprint [of c m p] footprint_home [OF l(2,3) i(2)] w i(3) Some by auto
  from index_store [OF l(1) i(1) j this] show ?thesis using Some by simp
qed simp

lemma logged_words:
  "logged C mi s \<Longrightarrow> log s' = log s \<Longrightarrow>
    (\<And>k x a. a \<in> c_home C k x \<Longrightarrow> load64 (shared s') a = load64 (shared s) a) \<Longrightarrow> logged C mi s'"
  unfolding logged_def by metis

lemma logged_own:
  assumes l: "layout_ok C" "calls_ok C" "c_inv C (shared s)" and i: "i < c_threads C" "c_calls C c" "ar c = c_area C i"
    and w: "store_ok c (shared s) w" and m: "replay mi (log s) = Some m"
    and eq: "\<And>k x a. a \<in> c_home C k x \<Longrightarrow> load64 m a = load64 (shared s) a"
    and s': "shared s' = put w (shared s)" "log s' = log s @ entries c w"
  shows "logged C mi s'"
proof (cases "\<exists>p. w = Some p \<and> fst p \<noteq> ar c + of_nat CS_OFF")
  case False
  have "load64 (shared s') a = load64 (shared s) a" if "a \<in> c_home C k x" for k x a
  proof -
    have "separate (ar c + of_nat CS_OFF) 8 a 8"
      by (rule separate_sub [of _ 32]) (use home_area [OF l(1) that i(1)] i(3) in \<open>simp_all add: CS_OFF_def\<close>)
    then show ?thesis using False s'(1) by (cases w) (auto simp: put_Some mem_simps)
  qed
  moreover have "entries c w = []" using False by (cases w) (auto simp: entries_def)
  ultimately show ?thesis using m eq s'(2) by (auto simp: logged_def)
next
  case True
  then obtain p where p: "w = Some p" "fst p \<noteq> ar c + of_nat CS_OFF" by blast
  have f: "fst p \<in> set (footprint (oper c) (shared s))"
    using store_ok_footprint [of c "shared s" p] w p by auto
  have "load64 (put (Some p) m) a = load64 (put (Some p) (shared s)) a" if "a \<in> c_home C k x" for k x a
    using home_separate [OF l(1) footprint_home [OF l(2,3) i(2) f] that] eq [OF that]
    by (cases "fst p = a") (simp_all add: put_Some mem_simps)
  moreover have "\<forall>a \<in> set (footprint (oper c) (shared s)). load64 m a = load64 (shared s) a"
    using eq footprint_home [OF l(2,3) i(2)] by blast
  note op_spec_cong [OF this] prepared_cong [OF this]
  then have "replay m (entries c w) = Some (put (Some p) m)"
    using w p by (auto simp: entries_def store_ok_def)
  ultimately show ?thesis using m p s' by (auto simp: logged_def replay_append)
qed

section \<open>Counting\<close>

text \<open>The calls that have committed, and the calls that have returned a success.\<close>

fun committed :: "entry list \<Rightarrow> cs_call list" where
  "committed [] = []"
| "committed (Commit c x # l) = c # committed l"
| "committed (Scratch c x # l) = committed l"

fun oks :: "(cs_call \<times> trace \<times> attempt) list \<Rightarrow> cs_call list" where
  "oks [] = []"
| "oks ((c, tr, a) # l) = (case a of AOk v \<Rightarrow> c # oks l | _ \<Rightarrow> oks l)"

text \<open>What a thread has committed in the call it is in.\<close>

fun pending :: "(cs_call \<Rightarrow> int) \<Rightarrow> thr option \<Rightarrow> int" where
  "pending f None = 0"
| "pending f (Some t) = int (length (commits (t_call t) (t_tr t))) * f (t_call t)"

text \<open>Every commit belongs to one success that has returned or is about to.\<close>

definition counted :: "'j config \<Rightarrow> (cs_call \<Rightarrow> int) \<Rightarrow> sys \<Rightarrow> bool" where
  "counted C f s \<longleftrightarrow> sum_list (map f (committed (log s))) =
     sum_list (map f (oks (rets s))) + (\<Sum>i<c_threads C. pending f (thr s i))"

definition returned_ok :: "'j config \<Rightarrow> sys \<Rightarrow> bool" where
  "returned_ok C s \<longleftrightarrow> (\<forall>(c, tr, a) \<in> set (rets s). c_calls C c \<and> linearized c tr a) \<and>
     (\<forall>e \<in> set (log s). c_calls C (entry_call e))"

lemma committed_append: "committed (l @ l') = committed l @ committed l'"
  by (induction l rule: committed.induct) auto

lemma oks_append: "oks (l @ l') = oks l @ oks l'"
  by (induction l rule: oks.induct) (auto split: attempt.splits)

lemma commits_snoc:
  "length (commits c (tr @ [(m, w)])) = length (commits c tr) + length (committed (entries c w))"
  by (cases w) (auto simp: commits_def entries_def List.map_filter_def)

lemma committed_entries: "committed (entries c w) = replicate (length (committed (entries c w))) c"
  by (cases w) (auto simp: entries_def)

lemma linearized_count:
  "linearized c tr a \<Longrightarrow> length (commits c tr) = (case a of AOk v \<Rightarrow> 1 | _ \<Rightarrow> 0)"
  by (cases "oper c")
     (auto simp: linearized_def cs_spec_def Let_def split: if_splits option.splits attempt.splits)

lemma pending_update:
  assumes "thr s' = (thr s)(i := v)" "i < n"
  shows "(\<Sum>j<n. pending f (thr s' j)) = (\<Sum>j<n. pending f (thr s j)) - pending f (thr s i) + pending f v"
proof -
  have "(\<Sum>j<n. pending f (thr s' j)) = pending f v + (\<Sum>j\<in>{..<n} - {i}. pending f (thr s' j))"
    using assms by (subst sum.remove [of _ i]) auto
  moreover have "(\<Sum>j\<in>{..<n} - {i}. pending f (thr s' j)) = (\<Sum>j\<in>{..<n} - {i}. pending f (thr s j))"
    by (rule sum.cong) (auto simp: assms(1))
  moreover have "(\<Sum>j<n. pending f (thr s j)) = pending f (thr s i) + (\<Sum>j\<in>{..<n} - {i}. pending f (thr s j))"
    using assms(2) by (subst sum.remove [of _ i]) auto
  ultimately show ?thesis by simp
qed

lemma counted_update:
  assumes "counted C f s" "thr s' = (thr s)(i := v)" "i < c_threads C"
    and "sum_list (map f (committed (log s'))) - sum_list (map f (oks (rets s'))) - pending f v =
      sum_list (map f (committed (log s))) - sum_list (map f (oks (rets s))) - pending f (thr s i)"
  shows "counted C f s'"
  using assms(1,4) unfolding counted_def pending_update [OF assms(2,3)] by (simp add: algebra_simps)

text \<open>How the events of a thread change the count.\<close>

lemma counted_keep:
  assumes "counted C f s" "thr s' = (thr s)(i := v)" "i < c_threads C"
    and "pending f v = pending f (thr s i)" "log s' = log s" "rets s' = rets s"
  shows "counted C f s'"
  using counted_update [OF assms(1-3)] assms(4-6) by simp

lemma counted_own:
  assumes "counted C f s" "i < c_threads C" "thr s i = Some t"
    and "thr s' = (thr s)(i := Some (t\<lparr>t_st := st', t_tr := t_tr t @ [(m, w)]\<rparr>))"
    and "log s' = log s @ entries (t_call t) w" "rets s' = rets s"
  shows "counted C f s'"
proof -
  let ?c = "t_call t"
  have "sum_list (map f (committed (entries ?c w))) = of_nat (length (committed (entries ?c w))) * f ?c"
    by (subst committed_entries) (simp add: sum_list_replicate)
  then show ?thesis using counted_update [OF assms(1,4,2)] assms(3,5,6)
    by (simp add: committed_append commits_snoc algebra_simps)
qed

lemma counted_ret:
  assumes "counted C f s" "i < c_threads C" "thr s i = Some t"
    and "linearized (t_call t) (t_tr t) (outcome_at t)"
    and "thr s' = (thr s)(i := None)" "log s' = log s"
    and "rets s' = rets s @ [(t_call t, t_tr t, outcome_at t)]"
  shows "counted C f s'"
proof -
  from linearized_count [OF assms(4)] have "pending f (Some t) =
      sum_list (map f (oks [(t_call t, t_tr t, outcome_at t)]))"
    by (auto split: attempt.splits)
  then show ?thesis using counted_update [OF assms(1,5,2)] assms(3,6,7)
    by (simp add: oks_append del: pending.simps(2) oks.simps(2))
qed

lemma pending_stop:
  "pending f (map_option (\<lambda>t. t\<lparr>t_st := (t_st t)\<lparr>mem := m\<rparr>\<rparr>) v) = pending f v"
  by (cases v) simp_all

lemma pending_resume: "pending f (map_option (resume_thr B a x m) v) = pending f v"
  by (cases v) (simp_all add: resume_thr_def Let_def)

lemma thread_returns:
  "thread_ok C T m r i t \<Longrightarrow> finished (b_prog (c_blocks C) (t_call t)) (t_st t) \<Longrightarrow>
    linearized (t_call t) (t_tr t) (outcome_at t) \<and> c_calls C (t_call t)"
  by (auto simp: thread_ok_def thread_holds_def outcome_at_def finished_def Let_def split: if_splits)

lemma entries_call: "e \<in> set (entries c w) \<Longrightarrow> entry_call e = c"
  by (cases w) (auto simp: entries_def split: if_splits)

text \<open>
  What a success adds to its word: the count of an addition, and the difference of the two values
  of a compare-and-store; a chase stores what it finds, so its effect is not a fixed amount.
\<close>

fun increment :: "cs_op \<Rightarrow> (u64 \<times> u64) option" where
  "increment (Fetch_add w k) = Some (w, k)"
| "increment (Compare_exchange w e n) = Some (w, n - e)"
| "increment (Store_if w e n s sn) = Some (w, n - e)"
| "increment (Compare_exchange_if w e n x xe) = Some (w, n - e)"
| "increment (Load_if_ne w en d) = None"
| "increment (Fetch_add_at p d k) = None"

definition amount :: "u64 \<Rightarrow> cs_call \<Rightarrow> u64" where
  "amount a c = (case increment (oper c) of Some (w, d) \<Rightarrow> if w = a then d else 0 | None \<Rightarrow> 0)"

text \<open>The calls change words by fixed amounts, and \<open>a\<close> is no scratch word.\<close>

definition counts_on :: "'j config \<Rightarrow> u64 \<Rightarrow> bool" where
  "counts_on C a \<longleftrightarrow> (\<forall>c. c_calls C c \<longrightarrow> increment (oper c) \<noteq> None \<and>
     (case scratch (oper c) of None \<Rightarrow> True | Some x \<Rightarrow> fst x \<noteq> a))"

lemma commit_increment:
  "increment p = Some (w, d) \<Longrightarrow> snd (op_spec p m) = Some x \<Longrightarrow> x = (w, load64 m w + d)"
  by (cases p) (auto simp: Let_def split: if_splits)

lemma increment_footprint: "increment p = Some (w, d) \<Longrightarrow> w \<in> set (footprint p m)"
  by (cases p) auto

lemma replay_adds:
  assumes "layout_ok C" "calls_ok C" "counts_on C a" "a \<in> c_home C j x"
  shows "c_inv C m \<Longrightarrow> \<forall>e \<in> set l. c_calls C (entry_call e) \<Longrightarrow> replay m l = Some m' \<Longrightarrow>
    load64 m' a = load64 m a + sum_list (map (amount a) (committed l))"
proof (induction m l rule: replay.induct)
  case (1 m)
  then show ?case by simp
next
  case (2 m c p l)
  have c: "c_calls C c" using 2(3) by simp
  have p: "scratch (oper c) = Some p" and r: "replay (put (Some p) m) l = Some m'"
    using 2(4) by (auto split: if_splits)
  have "fst p \<in> c_home C (off c) (ident c)"
    by (rule footprint_home [OF assms(2) 2(2) c scratch_in_footprint [OF p]])
  from home_separate [OF assms(1) this assms(4)] have "separate (fst p) 8 a 8"
    using assms(3) c p by (auto simp: counts_on_def)
  then have "load64 (put (Some p) m) a = load64 m a" by (simp add: put_Some mem_simps)
  then show ?case using 2(1) [OF p inv_put [OF assms(2) 2(2) c] _ r] 2(3) p by simp
next
  case (3 m c p l)
  have c: "c_calls C c" using 3(3) by simp
  then obtain w d where o: "increment (oper c) = Some (w, d)" using assms(3) by (auto simp: counts_on_def)
  have pp: "snd (op_spec (oper c) m) = Some p \<and> prepared (oper c) m"
    and r: "replay (put (Some p) m) l = Some m'"
    using 3(4) by (auto split: if_splits)
  then have p: "snd (op_spec (oper c) m) = Some p" by blast
  have p': "p = (w, load64 m w + d)" by (rule commit_increment [OF o p])
  have "w \<in> c_home C (off c) (ident c)"
    by (rule footprint_home [OF assms(2) 3(2) c increment_footprint [OF o]])
  from home_separate [OF assms(1) this assms(4)]
  have "load64 (put (Some p) m) a = load64 m a + amount a c"
    using o by (cases "w = a") (simp_all add: p' put_Some mem_simps amount_def)
  then show ?case using 3(1) [OF pp inv_put [OF assms(2) 3(2) c] _ r] 3(3) p by (simp add: add.assoc)
qed

end
