(* ===== verification/Serial.thy ===== *)
theory Serial
  imports System
begin

text \<open>
  The invariant of a system of threads, for any blocks with the contract \<open>block_module\<close>: every
  step of \<open>System\<close> keeps it. From it follow the promises of the library to many threads at once,
  on both targets: serialization, no lost update, no stuck thread.
\<close>

text \<open>What the callers see of a state.\<close>

definition serialized :: "'j config \<Rightarrow> mem \<Rightarrow> sys \<Rightarrow> bool" where
  "serialized C mi s \<longleftrightarrow>
     (\<exists>m. replay mi (log s) = Some m \<and>
       (\<forall>k x. \<forall>a\<in>c_home C k x. load64 m a = load64 (shared s) a)) \<and>
     (\<forall>(c, tr, a) \<in> set (rets s). linearized c tr a) \<and>
     ((\<forall>i<c_threads C. thr s i = None) \<longrightarrow> mset (committed (log s)) = mset (oks (rets s)))"

text \<open>What holds in every state.\<close>

abbreviation sys_inv :: "'j config \<Rightarrow> (cs_call \<Rightarrow> asm_env \<Rightarrow> outline) \<Rightarrow> mem \<Rightarrow> sys \<Rightarrow> bool" where
  "sys_inv C T mi s \<equiv> indexed C s \<and> threads_ok C T s \<and> logged C mi s \<and> (\<forall>f. counted C f s) \<and>
     returned_ok C s \<and> c_inv C (shared s)"

text \<open>
  In the terms of the caller: the words are what the log makes of them, every outcome is that of
  an atomic operation at one instant of its call, and when no thread is in a call, the commits
  are the successes, each once.
\<close>

lemma inv_serialized:
  assumes inv: "sys_inv C T mi s"
  shows "serialized C mi s"
proof -
  have "mset (committed (log s)) = mset (oks (rets s))" if idle: "\<forall>i<c_threads C. thr s i = None"
  proof (rule multiset_eqI)
    fix c :: cs_call
    have count: "int (count (mset l) c) = sum_list (map (\<lambda>d. if d = c then 1 else 0) l)" for l :: "cs_call list"
      by (induction l) auto
    have "counted C (\<lambda>d. if d = c then 1 else 0) s" using inv by blast
    then have "int (count (mset (committed (log s))) c) = int (count (mset (oks (rets s))) c)"
      using idle unfolding count counted_def by simp
    then show "count (mset (committed (log s))) c = count (mset (oks (rets s))) c" by linarith
  qed
  then show ?thesis using inv by (auto simp: serialized_def logged_def returned_ok_def)
qed

text \<open>Where calls change a word by fixed amounts, it holds the sum of those that succeeded.\<close>

lemma inv_adds_sum:
  assumes inv: "sys_inv C T mi s" and C: "layout_ok C" "calls_ok C" "c_inv C mi"
    and adds: "counts_on C a" and s: "\<forall>i<c_threads C. thr s i = None" and a: "a \<in> c_home C k x"
  shows "load64 (shared s) a = load64 mi a + sum_list (map (amount a) (oks (rets s)))"
proof -
  have ser: "serialized C mi s" by (rule inv_serialized [OF inv])
  then obtain m where m: "replay mi (log s) = Some m" "load64 m a = load64 (shared s) a"
    using a unfolding serialized_def by blast
  have "\<forall>e \<in> set (log s). c_calls C (entry_call e)"
    using inv by (simp add: returned_ok_def)
  from replay_adds [OF C(1,2) adds a C(3) this m(1)]
  have "load64 m a = load64 mi a + sum_list (map (amount a) (committed (log s)))" .
  moreover have "mset (committed (log s)) = mset (oks (rets s))"
    using ser s by (simp add: serialized_def)
  from arg_cong [OF this, of "\<lambda>M. sum_mset (image_mset (amount a) M)"]
  have "sum_list (map (amount a) (committed (log s))) = sum_list (map (amount a) (oks (rets s)))"
    by (simp flip: mset_map add: sum_mset_sum_list)
  ultimately show ?thesis using m(2) by simp
qed

section \<open>Steps keep the invariant\<close>

context block_module
begin

lemma holds_thread:
  assumes "outline_ok (T c env) ex P sig c bs (result_op (oper c)) env" "holds (T c env) st tr"
  shows "thread_holds P (T c env) c env st tr"
proof -
  have "finished P st \<Longrightarrow> pc st = length (slots P)"
    using assms outline_length [OF assms(1)] by (simp add: holds_def finished_def)
  then show ?thesis using assms outline_finished [OF assms] by (simp add: thread_holds_def)
qed

lemma thread_outlined:
  assumes "c_blocks C = B" "calls_ok C" "thread_ok C T m r i t"
  shows "outline_ok (T (t_call t) (t_env t)) (b_exec B (alloc (t_env t)) (cs_addr (t_env t)))
    (b_prog B (t_call t)) (b_sig B) (t_call t) (b_binds B (t_call t)) (result_op (oper (t_call t)))
    (t_env t)"
  using assms call_off_ok [OF assms(2)] by (intro outlined) (auto simp: thread_ok_def)

lemma thread_begin:
  assumes "c_blocks C = B" "layout_ok C" "calls_ok C" "c_calls C c" "ar c = c_area C i"
    and "i < c_threads C" "alloc_ok (alloc env) (b_binds B c)" "c_inv C m"
  shows "thread_ok C T m True i (begin_call B c env m)"
proof -
  let ?st = "entry (b_binds B c) env m"
  note ok = outlined [OF call_off_ok [OF assms(3,4)] assms(7)]
  have "ready c (b_binds B c) env ?st []"
    using assms(7) call_valid [OF assms(2-6,8)]
    by (auto simp: ready_def entry_def list_all_iff bind_regs_bound)
  then have "holds (T c env) ?st []"
    using outline_start [OF ok] outline_length [OF ok] by (simp add: holds_def entry_def)
  then have "thread_holds (b_prog B c) (T c env) c env ?st []" by (rule holds_thread [OF ok])
  moreover have m: "?st\<lparr>mem := m\<rparr> = ?st" "mem ?st = m" by (simp_all add: entry_def)
  ultimately show ?thesis using assms by (simp add: thread_ok_def begin_call_def Let_def m)
qed

text \<open>A thread does not notice what leaves its area alone and, while it runs, its words.\<close>

lemma thread_ok_other:
  assumes "c_blocks C = B" "calls_ok C" "thread_ok C T m r j t"
    and "\<forall>b<32. m' (c_area C j + of_nat b) = m (c_area C j + of_nat b)"
    and "r \<Longrightarrow> par_ok (t_call t) m m'"
  shows "thread_ok C T m' r j t"
proof (cases r)
  case True
  let ?c = "t_call t" and ?P = "b_prog B (t_call t)" and ?st = "(t_st t)\<lparr>mem := m\<rparr>"
  have "thread_holds ?P (T ?c (t_env t)) ?c (t_env t) ?st (t_tr t)"
    using assms(1,3) True by (simp add: thread_ok_def Let_def)
  moreover have "holds (T ?c (t_env t)) (?st\<lparr>mem := m'\<rparr>) (t_tr t)"
    if "holds (T ?c (t_env t)) ?st (t_tr t)" "\<not> finished ?P ?st"
    using outline_par [OF thread_outlined [OF assms(1-3)] _ that] assms(5) True
      call_off_ok [OF assms(2)] assms(3) by (simp add: thread_ok_def)
  ultimately have "thread_holds ?P (T ?c (t_env t)) ?c (t_env t) ((t_st t)\<lparr>mem := m'\<rparr>) (t_tr t)"
    by (auto simp: thread_holds_def finished_def split: if_splits)
  then show ?thesis using assms(1,3) True by (simp add: thread_ok_def Let_def)
next
  case False
  then show ?thesis using assms(3,4) by (simp add: thread_ok_def Let_def)
qed

lemma thread_stop:
  "thread_ok C T m True i t \<Longrightarrow> thread_ok C T m False i (t\<lparr>t_st := (t_st t)\<lparr>mem := m\<rparr>\<rparr>)"
  by (simp add: thread_ok_def Let_def)

lemma thread_resume:
  assumes "c_blocks C = B" "layout_ok C" "calls_ok C" "i < c_threads C" "c_inv C m"
    and ok: "thread_ok C T m False i t"
  shows "thread_ok C T (kernel_update (c_area C i) x m) True i (resume_thr B (c_area C i) x m t)"
proof -
  let ?c = "t_call t" and ?P = "b_prog B (t_call t)" and ?st = "t_st t" and ?a = "c_area C i"
  let ?t = "resume_thr B ?a x m t"
  have t: "ar ?c = ?a" "c_calls C ?c" "alloc_ok (alloc (t_env t)) (b_binds B ?c)"
    and h: "thread_holds ?P (T ?c (t_env t)) ?c (t_env t) ?st (t_tr t)"
    and own: "\<forall>k<32. mem ?st (?a + of_nat k) = m (?a + of_nat k)"
    using ok assms(1) by (auto simp: thread_ok_def Let_def)
  have cs: "load64 (mem ?st) (?a + of_nat CS_OFF) = load64 m (?a + of_nat CS_OFF)"
    by (rule load_cs_cong [OF own])
  have irq: "irq_ok ?P (b_sig B) (cs_addr (t_env t)) ?c ?st (t_st ?t)"
    using t cs call_valid [OF assms(2,3) t(2,1) assms(4) inv_kernel [OF assms(2,3,5,4)]]
    by (auto simp: irq_ok_def kernel_resume_def resume_thr_def Let_def)
  have "thread_holds ?P (T ?c (t_env t)) ?c (t_env t) (t_st ?t) (t_tr t)"
  proof (cases "finished ?P ?st")
    case True
    then have "pc ?st = length (slots ?P)" using h by (simp add: thread_holds_def)
    then have "t_st ?t = ?st\<lparr>mem := kernel_update ?a x m\<rparr>"
      using left [of ?c] by (simp add: resume_thr_def Let_def)
    then show ?thesis using h True by (simp add: thread_holds_def finished_def)
  next
    case False
    then have H: "holds (T ?c (t_env t)) ?st (t_tr t)" using h by (simp add: thread_holds_def)
    note ok' = thread_outlined [OF assms(1,3) ok]
    show ?thesis by (rule holds_thread [OF ok' outline_irq [OF ok' H False irq]])
  qed
  moreover have "(t_st ?t)\<lparr>mem := kernel_update ?a x m\<rparr> = t_st ?t"
    by (simp add: resume_thr_def Let_def)
  ultimately show ?thesis using t assms(1)
    by (simp add: thread_ok_def Let_def) (simp add: resume_thr_def Let_def)
qed

text \<open>A running thread can always take its next instruction, and keeps the invariant.\<close>

lemma thread_own:
  assumes "c_blocks C = B" "calls_ok C" "thread_ok C T m True i t"
    and nf: "\<not> finished (b_prog B (t_call t)) (t_st t)"
  shows "\<exists>st' w. step (b_exec B (alloc (t_env t)) (cs_addr (t_env t))) (b_prog B (t_call t))
      ((t_st t)\<lparr>mem := m\<rparr>) = Some (st', w) \<and> store_ok (t_call t) m w \<and> mem st' = put w m \<and>
    thread_ok C T (mem st') True i (t\<lparr>t_st := st', t_tr := t_tr t @ [(m, w)]\<rparr>)"
proof -
  let ?c = "t_call t" and ?P = "b_prog B (t_call t)" and ?st = "(t_st t)\<lparr>mem := m\<rparr>"
  note ok = thread_outlined [OF assms(1-3)]
  have nf': "\<not> finished ?P ?st" using nf by (simp add: finished_def)
  have "holds (T ?c (t_env t)) ?st (t_tr t)"
    using assms(1,3) nf' by (simp add: thread_ok_def Let_def thread_holds_def)
  from outline_own [OF ok this nf'] obtain st' w where
    s: "step (b_exec B (alloc (t_env t)) (cs_addr (t_env t))) ?P ?st = Some (st', w)"
    "holds (T ?c (t_env t)) st' (t_tr t @ [(m, w)])" "store_ok ?c m w" "mem st' = put w m"
    by auto
  have "thread_holds ?P (T ?c (t_env t)) ?c (t_env t) st' (t_tr t @ [(m, w)])"
    by (rule holds_thread [OF ok s(2)])
  then have "thread_ok C T (mem st') True i (t\<lparr>t_st := st', t_tr := t_tr t @ [(m, w)]\<rparr>)"
    using assms(1,3) by (simp add: thread_ok_def Let_def)
  then show ?thesis using s by blast
qed

lemma own_facts:
  assumes "c_blocks C = B" "calls_ok C" "threads_ok C T s" "i < c_threads C" "on s i = Some x"
    and "thr s i = Some t" "\<not> finished (b_prog B (t_call t)) (t_st t)"
    and "step (b_exec B (alloc (t_env t)) (cs_addr (t_env t))) (b_prog B (t_call t))
      ((t_st t)\<lparr>mem := shared s\<rparr>) = Some (st', w)"
  shows "store_ok (t_call t) (shared s) w" "mem st' = put w (shared s)"
    and "thread_ok C T (mem st') True i (t\<lparr>t_st := st', t_tr := t_tr t @ [(shared s, w)]\<rparr>)"
    and "c_calls C (t_call t)" "ar (t_call t) = c_area C i"
proof -
  have t: "thread_ok C T (shared s) True i t" using threads_okD [OF assms(3,4,6)] assms(5) by simp
  show "store_ok (t_call t) (shared s) w" "mem st' = put w (shared s)"
    "thread_ok C T (mem st') True i (t\<lparr>t_st := st', t_tr := t_tr t @ [(shared s, w)]\<rparr>)"
    using thread_own [OF assms(1,2) t assms(7)] assms(8) by auto
  show "c_calls C (t_call t)" "ar (t_call t) = c_area C i" using t by (auto simp: thread_ok_def)
qed

lemma step_indexed:
  assumes step: "sys_step C s s'" and C: "c_blocks C = B" "layout_ok C" "calls_ok C"
    and ok: "indexed C s" "threads_ok C T s" "c_inv C (shared s)"
  shows "indexed C s'"
  using step
proof cases
  case (stop i x)
  show ?thesis by (rule indexed_on [OF ok(1)]) (simp_all add: stop(1) split: if_splits)
next
  case (resume i x)
  show ?thesis
    by (rule indexed_resume [OF C(2) ok(1) resume(2,4)]) (simp_all add: resume(1))
next
  case (call i x c env)
  show ?thesis by (rule indexed_on [OF ok(1)]) (simp_all add: call(1))
next
  case (own i x t st' w)
  note f = own_facts [OF C(1,3) ok(2) own(2-4) own(5,6) [unfolded C(1)]]
  note own_index [OF C(2,3) ok(3) own(2) f(4,5,1)]
  then show ?thesis using own(1) f(2) by (intro indexed_on [OF ok(1)]) simp_all
next
  case (ret i x t)
  show ?thesis by (rule indexed_on [OF ok(1)]) (simp_all add: ret(1))
qed

text \<open>The stores of the kernel and of another thread's instructions.\<close>

lemma thread_kernel_other:
  assumes C: "c_blocks C = B" "layout_ok C" "calls_ok C" and inv: "c_inv C m"
    and i: "i < c_threads C" "j < c_threads C" "j \<noteq> i" and u: "thread_ok C T m r j u"
  shows "thread_ok C T (kernel_update (c_area C i) x m) r j u"
proof -
  let ?m = "kernel_update (c_area C i) x m"
  have b: "\<forall>b<32. ?m (c_area C j + of_nat b) = m (c_area C j + of_nat b)"
    using kernel_update_bytes [OF areas_separate [OF C(2) i(1,2)]] i(3) by simp
  have c: "c_calls C (t_call u)" "ar (t_call u) = c_area C j" using u by (auto simp: thread_ok_def)
  have "load64 ?m a = load64 m a" if "a \<in> set (footprint (oper (t_call u)) m)" for a
    using kernel_update_word [OF home_area [OF C(2) footprint_home [OF C(3) inv c(1) that] i(1)]] by simp
  then have "par_ok (t_call u) m ?m" using b c(2) by (simp add: par_ok_def)
  then show ?thesis using thread_ok_other [OF C(1,3) u b] by simp
qed

lemma thread_own_other:
  assumes C: "c_blocks C = B" "layout_ok C" "calls_ok C"
    and ok: "indexed C s" "c_inv C (shared s)" and i: "i < c_threads C" "on s i = Some x"
    and f: "c_calls C c" "ar c = c_area C i" "store_ok c (shared s) w"
    and j: "j < c_threads C" "j \<noteq> i" and u: "thread_ok C T (shared s) (on s j \<noteq> None) j u"
  shows "thread_ok C T (put w (shared s)) (on s j \<noteq> None) j u"
proof -
  have b: "\<forall>b<32. put w (shared s) (c_area C j + of_nat b) = shared s (c_area C j + of_nat b)"
    using store_spares_area [OF C(2,3) i(1) f j ok(2)] by simp
  have c: "c_calls C (t_call u)" "ar (t_call u) = c_area C j" using u by (auto simp: thread_ok_def)
  have "par_ok (t_call u) (shared s) (put w (shared s))" if "on s j \<noteq> None"
    using store_interferes_not [OF C(2,3) ok i f j c] that by auto
  then show ?thesis using thread_ok_other [OF C(1,3) u b] by blast
qed

lemma step_threads:
  assumes step: "sys_step C s s'" and C: "c_blocks C = B" "layout_ok C" "calls_ok C"
    and ok: "indexed C s" "threads_ok C T s" "c_inv C (shared s)"
  shows "threads_ok C T s'"
  unfolding threads_ok_def
proof (rule each_thread_step [OF step ok(2) [unfolded threads_ok_def]])
  fix i x t assume "i < c_threads C" "thread_ok C T (shared s) False i t"
  then show "thread_ok C T (kernel_update (c_area C i) x (shared s)) True i
      (resume_thr (c_blocks C) (c_area C i) x (shared s) t)"
    using thread_resume [OF C _ ok(3)] C(1) by simp
next
  fix i c and env :: asm_env assume "i < c_threads C" "c_calls C c" "ar c = c_area C i"
    "alloc_ok (alloc env) (b_binds (c_blocks C) c)"
  then show "thread_ok C T (shared s) True i (begin_call (c_blocks C) c env (shared s))"
    using thread_begin [OF C _ _ _ _ ok(3)] C(1) by simp
next
  fix i x t st' w assume own: "i < c_threads C" "on s i = Some x" "thr s i = Some t"
    "\<not> finished (b_prog (c_blocks C) (t_call t)) (t_st t)"
    "step (b_exec (c_blocks C) (alloc (t_env t)) (cs_addr (t_env t))) (b_prog (c_blocks C) (t_call t))
      ((t_st t)\<lparr>mem := shared s\<rparr>) = Some (st', w)"
  note f = own_facts [OF C(1,3) ok(2) own(1-3) own(4,5) [unfolded C(1)]]
  show "thread_ok C T (mem st') True i (t\<lparr>t_st := st', t_tr := t_tr t @ [(shared s, w)]\<rparr>) \<and>
    (\<forall>j<c_threads C. \<forall>u. j \<noteq> i \<longrightarrow> thread_ok C T (shared s) (on s j \<noteq> None) j u \<longrightarrow>
      thread_ok C T (mem st') (on s j \<noteq> None) j u)"
    using f(3) thread_own_other [OF C ok(1,3) own(1,2) f(4,5,1)] f(2) by auto
qed (rule thread_stop, assumption, rule thread_kernel_other [OF C ok(3)])

lemma step_inv:
  assumes step: "sys_step C s s'" and C: "c_blocks C = B" "layout_ok C" "calls_ok C"
    and ok: "threads_ok C T s" "c_inv C (shared s)"
  shows "c_inv C (shared s')"
  using step
proof cases
  case (resume i x)
  then show ?thesis using inv_kernel [OF C(2,3) ok(2) resume(2)] by simp
next
  case (own i x t st' w)
  note f = own_facts [OF C(1,3) ok(1) own(2-4) own(5,6) [unfolded C(1)]]
  show ?thesis using inv_store [OF C(2,3) ok(2) own(2) f(4,5,1)] own(1) f(2) by simp
qed (use ok(2) in simp_all)

lemma step_logged:
  assumes step: "sys_step C s s'" and C: "c_blocks C = B" "layout_ok C" "calls_ok C"
    and ok: "threads_ok C T s" "logged C mi s" "c_inv C (shared s)"
  shows "logged C mi s'"
proof -
  obtain m where m: "replay mi (log s) = Some m"
    and eq: "\<And>k x a. a \<in> c_home C k x \<Longrightarrow> load64 m a = load64 (shared s) a"
    using ok(2) unfolding logged_def by blast
  show ?thesis
    using step
  proof cases
    case (resume i x)
    show ?thesis using resume(1)
      by (intro logged_words [OF ok(2)]) (simp_all add: kernel_update_word home_area [OF C(2) _ resume(2)])
  next
    case (own i x t st' w)
    note f = own_facts [OF C(1,3) ok(1) own(2-4) own(5,6) [unfolded C(1)]]
    have s': "shared s' = put w (shared s)" "log s' = log s @ entries (t_call t) w"
      using own(1) f(2) by simp_all
    show ?thesis by (rule logged_own [OF C(2,3) ok(3) own(2) f(4,5,1) m eq s'])
  qed (use ok(2) in \<open>simp_all add: logged_def\<close>)
qed

lemma step_counted:
  assumes step: "sys_step C s s'" and ok: "threads_ok C T s" "counted C f s"
  shows "counted C f s'"
  using step
proof cases
  case (stop i x)
  then show ?thesis by (intro counted_keep [OF ok(2) _ stop(2) pending_stop]) simp_all
next
  case (resume i x)
  then show ?thesis by (intro counted_keep [OF ok(2) _ resume(2) pending_resume]) simp_all
next
  case (call i x c env)
  then show ?thesis
    by (intro counted_keep [OF ok(2) _ call(2), of _ "Some (begin_call (c_blocks C) c env (shared s))"])
       (simp_all add: begin_call_def)
next
  case (own i x t st' w)
  then show ?thesis by (intro counted_own [OF ok(2) own(2,4)]) simp_all
next
  case (ret i x t)
  have "linearized (t_call t) (t_tr t) (outcome_at t)"
    using thread_returns [OF threads_okD [OF ok(1) ret(2,4)] ret(5)] by blast
  then show ?thesis using ret(1) by (intro counted_ret [OF ok(2) ret(2,4)]) simp_all
qed

lemma step_returned:
  assumes step: "sys_step C s s'" and C: "c_blocks C = B" "layout_ok C" "calls_ok C"
    and ok: "threads_ok C T s" "returned_ok C s"
  shows "returned_ok C s'"
  using step
proof cases
  case (own i x t st' w)
  note f = own_facts [OF C(1,3) ok(1) own(2-4) own(5,6) [unfolded C(1)]]
  show ?thesis using ok(2) own(1) f(4) entries_call [of _ "t_call t" w] by (auto simp: returned_ok_def)
next
  case (ret i x t)
  show ?thesis using thread_returns [OF threads_okD [OF ok(1) ret(2,4)] ret(5)] ok(2) ret(1)
    by (auto simp: returned_ok_def)
qed (use ok(2) in \<open>simp_all add: returned_ok_def\<close>)

text \<open>In every state that is reached from an idle one, all of it holds.\<close>

lemma reachable_inv:
  assumes "reachable C (idle mi) s" and C: "c_blocks C = B" "layout_ok C" "calls_ok C"
    and i: "c_inv C mi"
  shows "sys_inv C T mi s"
  using assms(1)
proof induction
  case start
  show ?case
    using i by (simp add: idle_def indexed_def threads_ok_def each_thread_def logged_def counted_def returned_ok_def)
next
  case (one s' s'')
  then show ?case
    using step_indexed [OF one(2) C] step_threads [OF one(2) C] step_logged [OF one(2) C]
      step_counted [OF one(2)] step_returned [OF one(2) C] step_inv [OF one(2) C] by blast
qed

text \<open>No thread is ever stuck in the middle of a block.\<close>

lemma reachable_unstuck:
  assumes "reachable C (idle mi) s" "c_blocks C = B" "layout_ok C" "calls_ok C" "c_inv C mi"
    and "i < c_threads C" "on s i = Some x" "thr s i = Some t"
    and "\<not> finished (b_prog B (t_call t)) (t_st t)"
  shows "\<exists>st' w. step (b_exec B (alloc (t_env t)) (cs_addr (t_env t))) (b_prog B (t_call t))
    ((t_st t)\<lparr>mem := shared s\<rparr>) = Some (st', w) \<and> pc (t_st t) < pc st' \<and>
    pc st' \<le> length (slots (b_prog B (t_call t)))"
proof -
  have t: "thread_ok C T (shared s) True i t"
    using threads_okD [OF _ assms(6,8)] reachable_inv [OF assms(1-5)] assms(7) by fastforce
  note ok = thread_outlined [OF assms(2,4) t]
  have nf: "\<not> finished (b_prog B (t_call t)) ((t_st t)\<lparr>mem := shared s\<rparr>)"
    using assms(9) by (simp add: finished_def)
  have "holds (T (t_call t) (t_env t)) ((t_st t)\<lparr>mem := shared s\<rparr>) (t_tr t)"
    using t assms(2) nf by (simp add: thread_ok_def Let_def thread_holds_def)
  from outline_own [OF ok this nf] show ?thesis
    using outline_length [OF ok] by (auto simp: holds_def)
qed

lemma reachable_serialized:
  assumes "reachable C (idle mi) s" "c_blocks C = B" "layout_ok C" "calls_ok C" "c_inv C mi"
  shows "serialized C mi s"
  by (rule inv_serialized [OF reachable_inv [OF assms]])

lemma adds_sum:
  assumes C: "c_blocks C = B" "layout_ok C" "calls_ok C" "c_inv C mi"
    and adds: "counts_on C a"
    and s: "reachable C (idle mi) s" "\<forall>i<c_threads C. thr s i = None" and a: "a \<in> c_home C k x"
  shows "load64 (shared s) a = load64 mi a + sum_list (map (amount a) (oks (rets s)))"
  by (rule inv_adds_sum [OF reachable_inv [OF s(1) C] C(2-4) adds s(2) a])

end

section \<open>A thread by itself\<close>

text \<open>Instructions in a row are steps of the system.\<close>

lemma run_reaches:
  assumes "reachable C s1 s" "i < c_threads C" "on s i = Some x" "thr s i = Some t"
    and "mem (t_st t) = shared s"
    and "run (b_exec (c_blocks C) (alloc (t_env t)) (cs_addr (t_env t))) (b_prog (c_blocks C) (t_call t))
      (replicate n Go) (t_st t) (t_tr t) = Some (st', tr')"
  shows "\<exists>s' d. reachable C s1 s' \<and> on s' = on s \<and> rets s' = rets s \<and>
    thr s' = (thr s)(i := Some (t\<lparr>t_st := st', t_tr := tr'\<rparr>)) \<and> tr' = t_tr t @ d \<and>
    log s' = log s @ concat (map (\<lambda>(m, w). entries (t_call t) w) d)"
  using assms
proof (induction n arbitrary: s t)
  case 0
  then show ?case by (intro exI [of _ s] exI [of _ "[]"]) (simp add: fun_upd_idem)
next
  case (Suc n)
  let ?P = "b_prog (c_blocks C) (t_call t)"
  show ?case
  proof (cases "finished ?P (t_st t)")
    case True
    then show ?thesis using Suc.prems by (intro exI [of _ s] exI [of _ "[]"]) (simp add: fun_upd_idem)
  next
    case False
    have m: "(t_st t)\<lparr>mem := shared s\<rparr> = t_st t" using Suc.prems(5) [symmetric] by simp
    obtain st1 w where st: "step (b_exec (c_blocks C) (alloc (t_env t)) (cs_addr (t_env t))) ?P (t_st t) =
        Some (st1, w)"
      and r: "run (b_exec (c_blocks C) (alloc (t_env t)) (cs_addr (t_env t))) ?P (replicate n Go) st1
        (t_tr t @ [(mem (t_st t), w)]) = Some (st', tr')"
      using Suc.prems(6) False by (auto split: option.splits)
    let ?t = "t\<lparr>t_st := st1, t_tr := t_tr t @ [(shared s, w)]\<rparr>"
    let ?s = "s\<lparr>shared := mem st1, thr := (thr s)(i := Some ?t), log := log s @ entries (t_call t) w\<rparr>"
    have "sys_step C s ?s" by (rule own [OF Suc.prems(2-4) False]) (simp add: m st)
    then have "reachable C s1 ?s" by (rule reachable.one [OF Suc.prems(1)])
    then have "\<exists>s' d. reachable C s1 s' \<and> on s' = on ?s \<and> rets s' = rets ?s \<and>
        thr s' = (thr ?s)(i := Some (?t\<lparr>t_st := st', t_tr := tr'\<rparr>)) \<and> tr' = t_tr ?t @ d \<and>
        log s' = log ?s @ concat (map (\<lambda>(m, w). entries (t_call ?t) w) d)"
      by (rule Suc.IH [OF _ Suc.prems(2)]) (use r Suc.prems(3,5) in simp_all)
    then obtain s' d where s': "reachable C s1 s'" "on s' = on ?s" "rets s' = rets ?s"
        "thr s' = (thr ?s)(i := Some (?t\<lparr>t_st := st', t_tr := tr'\<rparr>))" "tr' = t_tr ?t @ d"
        "log s' = log ?s @ concat (map (\<lambda>(m, w). entries (t_call ?t) w) d)" by blast
    have "thr s' = (thr s)(i := Some (t\<lparr>t_st := st', t_tr := tr'\<rparr>))"
      unfolding s'(4) by (rule ext) simp
    with s'(1-3,5,6) show ?thesis
      by (intro exI [of _ s'] exI [of _ "(shared s, w) # d"] conjI) simp_all
  qed
qed

text \<open>A first thread that starts on a CPU, makes a call and takes some instructions of it.\<close>

lemma begin_reaches:
  assumes n: "0 < c_threads C" and c: "c_calls C c" "ar c = c_area C 0"
    and al: "alloc_ok (alloc env) (b_binds (c_blocks C) c)"
    and m: "m = kernel_update (c_area C 0) x mi"
    and r: "run (b_exec (c_blocks C) (alloc env) (cs_addr env)) (b_prog (c_blocks C) c) (replicate k Go)
      (entry (b_binds (c_blocks C) c) env m) [] = Some (st', tr')"
  shows "\<exists>s. reachable C (idle mi) s \<and> on s 0 = Some x \<and> rets s = [] \<and>
    log s = concat (map (\<lambda>(m, w). entries c w) tr') \<and>
    thr s = (\<lambda>_. None)(0 := Some ((begin_call (c_blocks C) c env m)\<lparr>t_st := st', t_tr := tr'\<rparr>))"
proof -
  let ?s = "(idle mi)\<lparr>shared := m, on := (on (idle mi))(0 := Some x)\<rparr>"
  let ?t = "begin_call (c_blocks C) c env m"
  have "sys_step C (idle mi) ((idle mi)\<lparr>shared := kernel_update (c_area C 0) x (shared (idle mi)),
      on := (on (idle mi))(0 := Some x),
      thr := (thr (idle mi))(0 := map_option (resume_thr (c_blocks C) (c_area C 0) x
        (shared (idle mi))) (thr (idle mi) 0))\<rparr>)"
    by (rule resume [OF n]) (simp_all add: idle_def)
  then have "sys_step C (idle mi) ?s" using m by (simp add: idle_def fun_upd_idem)
  then have "reachable C (idle mi) ?s" by (rule reachable.one [OF reachable.start])
  moreover have "sys_step C ?s (?s\<lparr>thr := (thr ?s)(0 := Some ?t)\<rparr>)"
    using call [OF n, of ?s x c env] c al by (simp add: idle_def)
  ultimately have "reachable C (idle mi) (?s\<lparr>thr := (thr ?s)(0 := Some ?t)\<rparr>)"
    by (rule reachable.one)
  from run_reaches [OF this n, of x ?t k st' tr'] show ?thesis
    using r by (auto simp: begin_call_def entry_def idle_def)
qed

lemma solo_reaches:
  assumes n: "0 < c_threads C" and c: "c_calls C c" "ar c = c_area C 0"
    and al: "alloc_ok (alloc env) (b_binds (c_blocks C) c)"
    and m: "m = kernel_update (c_area C 0) x mi"
    and solo: "solo_run (b_exec (c_blocks C) (alloc env) (cs_addr env)) (b_prog (c_blocks C) c)
      (b_binds (c_blocks C) c) (result_op (oper c)) env c (entry (b_binds (c_blocks C) c) env m)"
  shows "\<exists>s tr. reachable C (idle mi) s \<and> rets s = [(c, tr, fst (solo c (cs_addr env) m))] \<and>
    log s = concat (map (\<lambda>(m, w). entries c w) tr) \<and> (\<forall>i. thr s i = None)"
proof -
  let ?st = "entry (b_binds (c_blocks C) c) env m" and ?P = "b_prog (c_blocks C) c"
  let ?t = "begin_call (c_blocks C) c env m"
  have "list_all (bound (alloc env) (regs ?st)) (b_binds (c_blocks C) c)" "pc ?st = 0" "mem ?st = m"
    using bind_regs_bound [OF al] by (auto simp: entry_def list_all_iff)
  then obtain st' tr' where r: "run (b_exec (c_blocks C) (alloc env) (cs_addr env)) ?P
      (replicate BLOCK_MAX Go) ?st [] = Some (st', tr')" "finished ?P st'"
      "from_status (regs st' (alloc env O_status)) (regs st' (alloc env (result_op (oper c)))) =
        fst (solo c (cs_addr env) m)"
    using solo by (auto simp: solo_run_def split: option.splits) (metis fst_conv)
  from begin_reaches [OF n c al m r(1)] obtain s where
    s: "reachable C (idle mi) s" "on s 0 = Some x" "rets s = []"
      "thr s = (\<lambda>_. None)(0 := Some (?t\<lparr>t_st := st', t_tr := tr'\<rparr>))"
      "log s = concat (map (\<lambda>(m, w). entries c w) tr')" by blast
  let ?s = "s\<lparr>thr := (thr s)(0 := None), rets := rets s @
      [(t_call (?t\<lparr>t_st := st', t_tr := tr'\<rparr>), tr', outcome_at (?t\<lparr>t_st := st', t_tr := tr'\<rparr>))]\<rparr>"
  have "sys_step C s ?s"
    using ret [OF n s(2), of "?t\<lparr>t_st := st', t_tr := tr'\<rparr>"] s(4) r(2) by (simp add: begin_call_def)
  from reachable.one [OF s(1) this] show ?thesis
    using s(3-5) r(3) by (intro exI [of _ ?s] exI [of _ tr']) (simp add: begin_call_def outcome_at_def)
qed


text \<open>An addition that is made alone succeeds, on a thread that runs on the index of the word.\<close>

lemma add_alone:
  assumes "oper c = Fetch_add w k" "id_off_ok (off c)" "index_at (off c) x = ident c"
    and "separate (ar c) 32 w 8"
  shows "valid c m" "fst (solo c cs (kernel_update (ar c) x m)) = AOk (load64 m w)"
proof -
  show v: "valid c m" for m using assms(1,4) by (simp add: valid_def)
  have "matches c (kernel_update (ar c) x m)"
    using assms(2,3) kernel_update_index [of "ar c" x m]
    by (auto simp: matches_def id_off_ok_def index_at_def CPU_ID_OFF_def MM_CID_OFF_def)
  then show "fst (solo c cs (kernel_update (ar c) x m)) = AOk (load64 m w)"
    unfolding solo_outcome [OF assms(2) v] cs_spec_def
    by (simp add: assms(1) Let_def kernel_update_word [OF assms(4)])
qed

lemma add_reaches:
  assumes C: "c_blocks C = B" "0 < c_threads C" "c_calls C c" "ar c = c_area C 0"
    and c: "oper c = Fetch_add w k" "id_off_ok (off c)" "index_at (off c) x = ident c"
      "separate (ar c) 32 w 8"
    and al: "alloc_ok (alloc env0) (b_binds B c)"
    and solo: "solo_run (b_exec B (alloc env0) (cs_addr env0)) (b_prog B c) (b_binds B c) O_prev env0 c
      (entry (b_binds B c) env0 (kernel_update (ar c) x mi))"
  shows "\<exists>s tr. reachable C (idle mi) s \<and> rets s = [(c, tr, AOk (load64 mi w))] \<and>
    (\<forall>i. thr s i = None)"
proof -
  have "result_op (oper c) = O_prev" using c(1) by simp
  then have "\<exists>s tr. reachable C (idle mi) s \<and>
      rets s = [(c, tr, fst (solo c (cs_addr env0) (kernel_update (ar c) x mi)))] \<and> (\<forall>i. thr s i = None)"
    using solo_reaches [OF C(2-4), of env0 _ x mi] C(1,4) al solo by fastforce
  then show ?thesis unfolding add_alone(2) [OF c] .
qed

lemma x86_add_reaches:
  assumes C: "c_blocks C = x86_blocks" "0 < c_threads C" "c_calls C c" "ar c = c_area C 0"
    and c: "oper c = Fetch_add w k" "id_off_ok (off c)" "index_at (off c) x = ident c"
      "separate (ar c) 32 w 8"
  shows "\<exists>s tr. reachable C (idle mi) s \<and> rets s = [(c, tr, AOk (load64 mi w))] \<and>
    (\<forall>i. thr s i = None)"
proof -
  let ?bs = "b_binds x86_blocks c"
  have b: "?bs = x86_fetch_add_binds (ar c) w (ident c) k" "alloc_ok (alloc env0) ?bs"
    using c(1) by (simp_all add: x86_blocks_def x86_fetch_add_binds_def env0_def plain_env_def)
  obtain P where P: "link x86_map (x86_fetch_add_asm (off c)) = Some P"
    using x86_fetch_add_links [of "off c"] by (auto simp: links_def split: option.splits)
  have B: "b_prog x86_blocks c = P" "b_exec x86_blocks = x86_exec"
    using P c(1) by (simp_all add: x86_blocks_def)
  have "solo_run (x86_exec (alloc env0) (cs_addr env0)) P ?bs O_prev env0 c
      (entry ?bs env0 (kernel_update (ar c) x mi))"
    by (rule x86_fetch_add_solo [OF P c(2,1) b add_alone(1) [OF c]])
  then show ?thesis using add_reaches [OF C c b(2)] unfolding B by blast
qed

lemma a64_add_reaches:
  assumes C: "c_blocks C = a64_blocks" "0 < c_threads C" "c_calls C c" "ar c = c_area C 0"
    and c: "oper c = Fetch_add w k" "id_off_ok (off c)" "index_at (off c) x = ident c"
      "separate (ar c) 32 w 8"
  shows "\<exists>s tr. reachable C (idle mi) s \<and> rets s = [(c, tr, AOk (load64 mi w))] \<and>
    (\<forall>i. thr s i = None)"
proof -
  let ?bs = "b_binds a64_blocks c"
  have b: "?bs = a64_fetch_add_binds (ar c) w (ident c) k" "alloc_ok (alloc env0) ?bs"
    using c(1) by (simp_all add: a64_blocks_def a64_fetch_add_binds_def env0_def plain_env_def)
  obtain P where P: "link a64_map (a64_fetch_add_asm (off c)) = Some P"
    using a64_fetch_add_links [of "off c"] by (auto simp: links_def split: option.splits)
  have B: "b_prog a64_blocks c = P" "b_exec a64_blocks = a64_exec"
    using P c(1) by (simp_all add: a64_blocks_def)
  have "solo_run (a64_exec (alloc env0) (cs_addr env0)) P ?bs O_prev env0 c
      (entry ?bs env0 (kernel_update (ar c) x mi))"
    by (rule a64_fetch_add_solo [OF P c(2,1) b add_alone(1) [OF c]])
  then show ?thesis using add_reaches [OF C c b(2)] unfolding B by blast
qed

section \<open>A concrete system\<close>

text \<open>Two threads that add to the words of CPU 0 and CPU 1.\<close>

definition home1 :: "nat \<Rightarrow> u32 \<Rightarrow> u64 set" where
  "home1 k x = (if k = CPU_ID_OFF \<and> x = 0 then {0x2000}
     else if k = CPU_ID_OFF \<and> x = 1 then {0x2008} else {})"

definition adds1 :: "cs_call \<Rightarrow> bool" where
  "adds1 c \<longleftrightarrow> off c = CPU_ID_OFF \<and> (case oper c of
     Fetch_add w k \<Rightarrow> ident c = 0 \<and> w = 0x2000 \<or> ident c = 1 \<and> w = 0x2008 | _ \<Rightarrow> False)"

definition config1 :: "'j blocks \<Rightarrow> 'j config" where
  "config1 B = \<lparr>c_blocks = B, c_area = (\<lambda>i. if i = 0 then 0x1000 else 0x1100), c_threads = 2,
     c_home = home1, c_calls = adds1, c_inv = (\<lambda>_. True)\<rparr>"

definition call1 :: cs_call where
  "call1 = \<lparr>off = CPU_ID_OFF, ar = 0x1000, ident = 1, oper = Fetch_add 0x2008 5\<rparr>"

lemma config1_layout: "layout_ok (config1 B)"
proof -
  have "separate 0x1000 32 0x1100 32" "separate 0x1000 32 0x2000 8" "separate 0x1000 32 0x2008 8"
    "separate 0x1100 32 0x2000 8" "separate 0x1100 32 0x2008 8" "separate 0x2000 8 0x2008 8"
    by (rule separate_below; simp)+
  then show ?thesis
    by (auto simp: layout_ok_def config1_def home1_def less_2_cases_iff dest: separate_sym
        split: if_splits)
qed

lemma config1_calls: "calls_ok (config1 B)"
  using CpuId_off_ok
  by (auto simp: calls_ok_def config1_def adds1_def home1_def CpuId_kind_def
      split: cs_op.splits)

lemma config1_inv: "c_inv (config1 B) m"
  by (simp add: config1_def)

lemma config1_counts: "counts_on (config1 B) a"
  by (auto simp: counts_on_def config1_def adds1_def split: cs_op.splits)

lemma reaches1:
  "\<exists>s tr. reachable (config1 x86_blocks) (idle m0) s \<and> rets s = [(call1, tr, AOk 0)] \<and> (\<forall>i. thr s i = None)"
  "\<exists>s tr. reachable (config1 a64_blocks) (idle m0) s \<and> rets s = [(call1, tr, AOk 0)] \<and> (\<forall>i. thr s i = None)"
proof -
  have "0 < c_threads (config1 B)" "c_calls (config1 B) call1" "ar call1 = c_area (config1 B) 0"
    "c_blocks (config1 B) = B" "oper call1 = Fetch_add 0x2008 5" "id_off_ok (off call1)"
    "index_at (off call1) (1, 1) = ident call1" for B :: "'j blocks"
    by (simp_all add: config1_def call1_def adds1_def id_off_ok_def index_at_def)
  moreover have "separate (ar call1) 32 0x2008 8" by (rule separate_below) (simp_all add: call1_def)
  moreover have "load64 m0 0x2008 = 0" by (simp add: m0_def)
  ultimately show
    "\<exists>s tr. reachable (config1 x86_blocks) (idle m0) s \<and> rets s = [(call1, tr, AOk 0)] \<and> (\<forall>i. thr s i = None)"
    "\<exists>s tr. reachable (config1 a64_blocks) (idle m0) s \<and> rets s = [(call1, tr, AOk 0)] \<and> (\<forall>i. thr s i = None)"
    using x86_add_reaches [where x = "(1, 1)"] a64_add_reaches [where x = "(1, 1)"] by metis+
qed

section \<open>x86-64\<close>

text \<open>
  C7: However many threads run the six operations on x86-64 on the words of their indices, and
  however the kernel stops, migrates and resumes them between any two instructions: the words
  are at any time what the committed stores make of them one after the other, each of them the
  store of its whole atomic operation on the memory before it; what a call returns is the
  outcome of its atomic operation at one instant of the call; and once no thread is in a call,
  the committed calls are exactly the calls that have returned a success, each once.
\<close>

theorem x86_serialized:
  assumes "c_blocks C = x86_blocks" "layout_ok C" "calls_ok C" "c_inv C mi"
    and "reachable C (idle mi) s"
  shows "serialized C mi s"
  by (rule x86_sys.reachable_serialized [OF assms(5,1-4)])

theorem x86_serialized_witness:
  "\<exists>s tr. serialized (config1 x86_blocks) m0 s \<and> rets s = [(call1, tr, AOk 0)]"
proof -
  obtain s tr where s: "reachable (config1 x86_blocks) (idle m0) s" "rets s = [(call1, tr, AOk 0)]"
    using reaches1(1) by blast
  have "c_blocks (config1 x86_blocks) = x86_blocks" by (simp add: config1_def)
  from x86_serialized [OF this config1_layout config1_calls config1_inv s(1)] s(2) show ?thesis by blast
qed

text \<open>
  C9: No update is lost and none is made twice: where the calls are additions, compare-exchanges
  and conditional stores, a word that is no scratch word holds what it held at the start plus
  the counts of the additions to it and the differences of the compare-and-stores to it that
  have returned a success.
\<close>

theorem x86_no_lost_update:
  assumes "c_blocks C = x86_blocks" "layout_ok C" "calls_ok C" "c_inv C mi"
    and "counts_on C a"
    and "reachable C (idle mi) s" "\<forall>i<c_threads C. thr s i = None" "a \<in> c_home C k x"
  shows "load64 (shared s) a = load64 mi a + sum_list (map (amount a) (oks (rets s)))"
  by (rule x86_sys.adds_sum [OF assms])

theorem x86_no_lost_update_witness:
  "\<exists>s. reachable (config1 x86_blocks) (idle m0) s \<and> oks (rets s) = [call1] \<and>
    load64 (shared s) 0x2008 = 5"
proof -
  obtain s tr where s: "reachable (config1 x86_blocks) (idle m0) s" "rets s = [(call1, tr, AOk 0)]"
      "\<forall>i<c_threads (config1 x86_blocks). thr s i = None"
    using reaches1(1) by blast
  have C: "c_blocks (config1 x86_blocks) = x86_blocks" by (simp add: config1_def)
  have a: "0x2008 \<in> c_home (config1 x86_blocks) CPU_ID_OFF 1" by (simp add: config1_def home1_def)
  from x86_no_lost_update [OF C config1_layout config1_calls config1_inv config1_counts s(1,3) a]
  have "load64 (shared s) 0x2008 = 5" using s(2) by (simp add: m0_def amount_def call1_def)
  with s(1,2) show ?thesis by (intro exI [of _ s]) simp
qed

section \<open>aarch64\<close>

text \<open>
  C8: However many threads run the six operations on aarch64 on the words of their indices, and
  however the kernel stops, migrates and resumes them between any two instructions: the words
  are at any time what the committed stores make of them one after the other, each of them the
  store of its whole atomic operation on the memory before it; what a call returns is the
  outcome of its atomic operation at one instant of the call; and once no thread is in a call,
  the committed calls are exactly the calls that have returned a success, each once.
\<close>

theorem a64_serialized:
  assumes "c_blocks C = a64_blocks" "layout_ok C" "calls_ok C" "c_inv C mi"
    and "reachable C (idle mi) s"
  shows "serialized C mi s"
  by (rule a64_sys.reachable_serialized [OF assms(5,1-4)])

theorem a64_serialized_witness:
  "\<exists>s tr. serialized (config1 a64_blocks) m0 s \<and> rets s = [(call1, tr, AOk 0)]"
proof -
  obtain s tr where s: "reachable (config1 a64_blocks) (idle m0) s" "rets s = [(call1, tr, AOk 0)]"
    using reaches1(2) by blast
  have "c_blocks (config1 a64_blocks) = a64_blocks" by (simp add: config1_def)
  from a64_serialized [OF this config1_layout config1_calls config1_inv s(1)] s(2) show ?thesis by blast
qed

text \<open>
  C10: No update is lost and none is made twice: where the calls are additions, compare-exchanges
  and conditional stores, a word that is no scratch word holds what it held at the start plus
  the counts of the additions to it and the differences of the compare-and-stores to it that
  have returned a success.
\<close>

theorem a64_no_lost_update:
  assumes "c_blocks C = a64_blocks" "layout_ok C" "calls_ok C" "c_inv C mi"
    and "counts_on C a"
    and "reachable C (idle mi) s" "\<forall>i<c_threads C. thr s i = None" "a \<in> c_home C k x"
  shows "load64 (shared s) a = load64 mi a + sum_list (map (amount a) (oks (rets s)))"
  by (rule a64_sys.adds_sum [OF assms])

theorem a64_no_lost_update_witness:
  "\<exists>s. reachable (config1 a64_blocks) (idle m0) s \<and> oks (rets s) = [call1] \<and>
    load64 (shared s) 0x2008 = 5"
proof -
  obtain s tr where s: "reachable (config1 a64_blocks) (idle m0) s" "rets s = [(call1, tr, AOk 0)]"
      "\<forall>i<c_threads (config1 a64_blocks). thr s i = None"
    using reaches1(2) by blast
  have C: "c_blocks (config1 a64_blocks) = a64_blocks" by (simp add: config1_def)
  have a: "0x2008 \<in> c_home (config1 a64_blocks) CPU_ID_OFF 1" by (simp add: config1_def home1_def)
  from a64_no_lost_update [OF C config1_layout config1_calls config1_inv config1_counts s(1,3) a]
  have "load64 (shared s) 0x2008 = 5" using s(2) by (simp add: m0_def amount_def call1_def)
  with s(1,2) show ?thesis by (intro exI [of _ s]) simp
qed

end
