(* ===== verification/Buffers.thy ===== *)
theory Buffers
  imports Serial
begin

text \<open>
  The system of threads on memory that is not sequentially consistent: every running thread has
  a buffer of stores that are not in memory yet. It reads through its own buffer; the others see
  a store when it leaves the buffer, at any time, and not in the order of the program unless
  two stores overlap (a buffer that is emptied in order, as on x86-64, is a special case). A
  thread that stops has emptied its buffer: the interrupt or the switch to another thread does
  that. The promises of \<open>Serial\<close> hold as before: the index check keeps the words of an index
  with the one thread whose buffer they may be in.
\<close>

section \<open>Buffers\<close>

text \<open>The oldest store is the first.\<close>

fun flush :: "store list \<Rightarrow> mem \<Rightarrow> mem" where
  "flush [] m = m"
| "flush (p # q) m = flush q (put (Some p) m)"

definition covers :: "store \<Rightarrow> u64 \<Rightarrow> bool" where
  "covers p y \<longleftrightarrow> (\<exists>k<8. y = fst p + of_nat k)"

definition touches :: "store list \<Rightarrow> u64 \<Rightarrow> bool" where
  "touches q y \<longleftrightarrow> (\<exists>p\<in>set q. covers p y)"

definition clear_of :: "store \<Rightarrow> store list \<Rightarrow> bool" where
  "clear_of p q \<longleftrightarrow> (\<forall>r\<in>set q. separate (fst r) 8 (fst p) 8)"

lemma touches_simps [simp]:
  "\<not> touches [] y" "touches (p # q) y \<longleftrightarrow> covers p y \<or> touches q y"
  "touches (q @ r) y \<longleftrightarrow> touches q y \<or> touches r y"
  by (auto simp: touches_def)

lemma flush_append: "flush (q @ r) m = flush r (flush q m)"
  by (induction q arbitrary: m) simp_all

text \<open>A byte after a store depends on what was there only if the store did not cover it.\<close>

lemma write_le_byte:
  "m y = m' y \<or> (\<exists>i<n. y = a + of_nat i) \<Longrightarrow> write_le n v a m y = write_le n v a m' y"
proof (induction n arbitrary: v a m m')
  case 0
  then show ?case by simp
next
  case (Suc n)
  have "(m(a := of_nat v)) y = (m'(a := of_nat v)) y \<or> (\<exists>i<n. y = a + 1 + of_nat i)"
    using Suc.prems by (auto simp: less_Suc_eq_0_disj add.assoc)
  then show ?case by (simp add: Suc.IH)
qed

lemma store_byte:
  "m y = m' y \<Longrightarrow> store64 m a v y = store64 m' a v y"
  "m y = m' y \<Longrightarrow> store32 m a u y = store32 m' a u y"
  by (simp_all add: store64_def store32_def write_le_byte)

lemma put_covers: "m y = m' y \<or> covers p y \<Longrightarrow> put (Some p) m y = put (Some p) m' y"
  unfolding put_Some store64_def covers_def by (rule write_le_byte)

lemma put_byte: "m y = m' y \<Longrightarrow> put w m y = put w m' y"
  by (cases w) (auto intro: put_covers)

lemma put_other: "\<not> covers p y \<Longrightarrow> put (Some p) m y = m y"
  by (auto simp: put_Some covers_def intro: store64_other)

lemma flush_byte: "m y = m' y \<or> touches q y \<Longrightarrow> flush q m y = flush q m' y"
proof (induction q arbitrary: m m')
  case (Cons p q)
  have "put (Some p) m y = put (Some p) m' y \<or> touches q y"
    using Cons.prems put_covers [of m y m' p] by auto
  then show ?case by (simp add: Cons.IH)
qed simp

lemma flush_other: "\<not> touches q y \<Longrightarrow> flush q m y = m y"
  by (induction q arbitrary: m) (simp_all add: put_other)

lemma kernel_update_byte: "m y = m' y \<Longrightarrow> kernel_update a x m y = kernel_update a x m' y"
  unfolding kernel_update_def by (intro store_byte)

text \<open>A store that overlaps no older one may leave first.\<close>

lemma flush_overtakes:
  assumes "clear_of p q"
  shows "flush (q @ p # r) m = flush (q @ r) (put (Some p) m)"
proof -
  have "put (Some p) (flush q m) y = flush q (put (Some p) m) y" for y
  proof (cases "covers p y")
    case True
    then have "\<not> touches q y"
      using assms unfolding clear_of_def separate_def touches_def covers_def by metis
    then show ?thesis using True put_covers [of "flush q m" y m p] by (simp add: flush_other)
  next
    case False
    then show ?thesis using flush_byte [of m y "put (Some p) m" q] by (simp add: put_other)
  qed
  then have "put (Some p) (flush q m) = flush q (put (Some p) m)" by (rule ext)
  then show ?thesis by (simp add: flush_append)
qed

section \<open>Steps\<close>

type_synonym buffers = "nat \<Rightarrow> store list"

definition seen_by :: "sys \<Rightarrow> buffers \<Rightarrow> nat \<Rightarrow> mem" where
  "seen_by s b i = flush (b i) (shared s)"

inductive buf_step :: "'j config \<Rightarrow> sys \<times> buffers \<Rightarrow> sys \<times> buffers \<Rightarrow> bool" where
  b_stop: "i < c_threads C \<Longrightarrow> on s i = Some x \<Longrightarrow> b i = [] \<Longrightarrow>
    buf_step C (s, b) (s\<lparr>on := (on s)(i := None),
      thr := (thr s)(i := map_option (\<lambda>t. t\<lparr>t_st := (t_st t)\<lparr>mem := shared s\<rparr>\<rparr>) (thr s i))\<rparr>, b)"
| b_resume: "i < c_threads C \<Longrightarrow> on s i = None \<Longrightarrow>
    (\<forall>j<c_threads C. \<forall>y. on s j = Some y \<longrightarrow> fst y \<noteq> fst x \<and> snd y \<noteq> snd x) \<Longrightarrow>
    buf_step C (s, b) (s\<lparr>shared := kernel_update (c_area C i) x (shared s), on := (on s)(i := Some x),
      thr := (thr s)(i := map_option (resume_thr (c_blocks C) (c_area C i) x (shared s)) (thr s i))\<rparr>, b)"
| b_call: "i < c_threads C \<Longrightarrow> on s i = Some x \<Longrightarrow> thr s i = None \<Longrightarrow> c_calls C c \<Longrightarrow>
    ar c = c_area C i \<Longrightarrow> alloc_ok (alloc env) (b_binds (c_blocks C) c) \<Longrightarrow>
    buf_step C (s, b) (s\<lparr>thr := (thr s)(i := Some (begin_call (c_blocks C) c env (seen_by s b i)))\<rparr>, b)"
| b_own: "i < c_threads C \<Longrightarrow> on s i = Some x \<Longrightarrow> thr s i = Some t \<Longrightarrow>
    \<not> finished (b_prog (c_blocks C) (t_call t)) (t_st t) \<Longrightarrow>
    step (b_exec (c_blocks C) (alloc (t_env t)) (cs_addr (t_env t))) (b_prog (c_blocks C) (t_call t))
      ((t_st t)\<lparr>mem := seen_by s b i\<rparr>) = Some (st', w) \<Longrightarrow>
    buf_step C (s, b) (s\<lparr>thr := (thr s)(i := Some (t\<lparr>t_st := st', t_tr := t_tr t @ [(seen_by s b i, w)]\<rparr>)),
      log := log s @ entries (t_call t) w\<rparr>, b(i := b i @ (case w of None \<Rightarrow> [] | Some p \<Rightarrow> [p])))"
| b_ret: "i < c_threads C \<Longrightarrow> on s i = Some x \<Longrightarrow> thr s i = Some t \<Longrightarrow>
    finished (b_prog (c_blocks C) (t_call t)) (t_st t) \<Longrightarrow>
    buf_step C (s, b) (s\<lparr>thr := (thr s)(i := None),
      rets := rets s @ [(t_call t, t_tr t, outcome_at t)]\<rparr>, b)"
| b_drain: "i < c_threads C \<Longrightarrow> b i = q @ p # r \<Longrightarrow> clear_of p q \<Longrightarrow>
    buf_step C (s, b) (s\<lparr>shared := put (Some p) (shared s)\<rparr>, b(i := q @ r))"

inductive buf_reachable :: "'j config \<Rightarrow> sys \<times> buffers \<Rightarrow> sys \<times> buffers \<Rightarrow> bool" for C s where
  b_start: "buf_reachable C s s"
| b_one: "buf_reachable C s s' \<Longrightarrow> buf_step C s' s'' \<Longrightarrow> buf_reachable C s s''"

section \<open>The memory that the buffers hide\<close>

text \<open>The bytes of a running thread: its area, and the words of its index.\<close>

definition own_byte :: "'j config \<Rightarrow> nat \<Rightarrow> u32 \<times> u32 \<Rightarrow> u64 \<Rightarrow> bool" where
  "own_byte C i x y \<longleftrightarrow> (\<exists>k<32. y = c_area C i + of_nat k) \<or>
     (\<exists>k. \<exists>a\<in>c_home C k (index_at k x). covers (a, 0) y)"

text \<open>
  A memory \<open>F\<close> as if no store had been held back: each running thread holds back stores to its
  own bytes only and sees them in \<open>F\<close>, and where no store is held back, \<open>F\<close> is the shared memory.
\<close>

definition shadows :: "'j config \<Rightarrow> sys \<Rightarrow> buffers \<Rightarrow> mem \<Rightarrow> bool" where
  "shadows C s b F \<longleftrightarrow>
     (\<forall>i<c_threads C. on s i = None \<longrightarrow> b i = []) \<and>
     (\<forall>i<c_threads C. \<forall>x. on s i = Some x \<longrightarrow> (\<forall>y. touches (b i) y \<longrightarrow> own_byte C i x y) \<and>
        (\<forall>y. own_byte C i x y \<longrightarrow> seen_by s b i y = F y)) \<and>
     (\<forall>y. (\<forall>i<c_threads C. \<not> touches (b i) y) \<longrightarrow> shared s y = F y)"

definition indices_apart :: "'j config \<Rightarrow> sys \<Rightarrow> bool" where
  "indices_apart C s \<longleftrightarrow> (\<forall>i<c_threads C. \<forall>j<c_threads C. \<forall>x y. i \<noteq> j \<longrightarrow> on s i = Some x \<longrightarrow>
     on s j = Some y \<longrightarrow> fst x \<noteq> fst y \<and> snd x \<noteq> snd y)"

lemma separate_covers: "separate a n b 8 \<Longrightarrow> k < n \<Longrightarrow> \<not> covers (b, v) (a + of_nat k)"
  by (auto simp: separate_def covers_def)

lemma covers_home:
  assumes "layout_ok C" "a \<in> c_home C k x" "a' \<in> c_home C k' x'" "covers (a, v) y" "covers (a', v') y"
  shows "k = k' \<and> x = x'"
proof (rule ccontr)
  assume "\<not> (k = k' \<and> x = x')"
  then have "separate a 8 a' 8" using home_separate [OF assms(1-3)] by (auto split: if_splits)
  then show False using assms(4,5) unfolding separate_def covers_def fst_conv by metis
qed

lemma own_bytes_apart:
  assumes l: "layout_ok C" and ij: "i < c_threads C" "j < c_threads C" "i \<noteq> j"
    and xy: "fst x \<noteq> fst y" "snd x \<noteq> snd y" and z: "own_byte C i x z"
  shows "\<not> own_byte C j y z"
proof
  assume "own_byte C j y z"
  with z consider
      k k' where "k < 32" "k' < 32" "z = c_area C i + of_nat k" "z = c_area C j + of_nat k'"
    | k kd a where "k < 32" "z = c_area C i + of_nat k" "a \<in> c_home C kd (index_at kd y)" "covers (a, 0) z"
    | k kd a where "k < 32" "z = c_area C j + of_nat k" "a \<in> c_home C kd (index_at kd x)" "covers (a, 0) z"
    | kd a kd' a' where "a \<in> c_home C kd (index_at kd x)" "covers (a, 0) z"
        "a' \<in> c_home C kd' (index_at kd' y)" "covers (a', 0) z"
    unfolding own_byte_def by blast
  then show False
  proof cases
    case 1
    then show ?thesis using areas_separate [OF l ij] unfolding separate_def by metis
  next
    case 2
    then show ?thesis using separate_covers [OF home_area [OF l 2(3) ij(1)]] by blast
  next
    case 3
    then show ?thesis using separate_covers [OF home_area [OF l 3(3) ij(2)]] by blast
  next
    case 4
    from covers_home [OF l 4(1,3,2,4)] show ?thesis using xy by (auto simp: index_at_def split: if_splits)
  qed
qed

lemma shadowsI:
  assumes "\<And>i. i < c_threads C \<Longrightarrow> on s i = None \<Longrightarrow> b i = []"
    and "\<And>i x y. i < c_threads C \<Longrightarrow> on s i = Some x \<Longrightarrow> touches (b i) y \<Longrightarrow> own_byte C i x y"
    and "\<And>i x y. i < c_threads C \<Longrightarrow> on s i = Some x \<Longrightarrow> own_byte C i x y \<Longrightarrow> seen_by s b i y = F y"
    and "\<And>y. \<forall>i<c_threads C. \<not> touches (b i) y \<Longrightarrow> shared s y = F y"
  shows "shadows C s b F"
  unfolding shadows_def using assms by blast

lemma shadowsD:
  assumes "shadows C s b F" "i < c_threads C"
  shows "on s i = None \<Longrightarrow> b i = []"
    and "on s i = Some x \<Longrightarrow> touches (b i) y \<Longrightarrow> own_byte C i x y"
    and "on s i = Some x \<Longrightarrow> own_byte C i x y \<Longrightarrow> seen_by s b i y = F y"
  using assms unfolding shadows_def by blast+

lemma shadows_free: "shadows C s b F \<Longrightarrow> \<forall>i<c_threads C. \<not> touches (b i) y \<Longrightarrow> shared s y = F y"
  unfolding shadows_def by blast

text \<open>No store to a byte is held back unless it belongs to a running thread.\<close>

lemma shadows_touch:
  assumes "shadows C s b F" "i < c_threads C" "touches (b i) y"
  obtains x where "on s i = Some x" "own_byte C i x y"
proof (cases "on s i")
  case None
  then show ?thesis using shadowsD(1) [OF assms(1,2)] assms(3) by simp
next
  case (Some x)
  then show ?thesis using that shadowsD(2) [OF assms(1,2)] assms(3) by blast
qed

text \<open>The steps. A store that leaves a buffer changes nothing of it.\<close>

lemma shadows_drain:
  assumes l: "layout_ok C" "indices_apart C s" and sh: "shadows C s b F"
    and i: "i < c_threads C" "b i = q @ p # r" "clear_of p q"
  shows "shadows C (s\<lparr>shared := put (Some p) (shared s)\<rparr>) (b(i := q @ r)) F"
proof -
  let ?s = "s\<lparr>shared := put (Some p) (shared s)\<rparr>" and ?b = "b(i := q @ r)"
  have p: "touches (b i) y" if "covers p y" for y using that i(2) by simp
  obtain x where x: "on s i = Some x"
    using shadowsD(1) [OF sh i(1)] i(2) by (cases "on s i") auto
  have vi: "seen_by ?s ?b i = seen_by s b i"
    using flush_overtakes [OF i(3), of r "shared s"] i(2) by (simp add: seen_by_def)
  have vj: "seen_by ?s ?b j y = seen_by s b j y"
    if j: "j < c_threads C" "j \<noteq> i" "on s j = Some z" "own_byte C j z y" for j z y
  proof -
    have "fst x \<noteq> fst z \<and> snd x \<noteq> snd z" using l(2) i(1) j(1-3) x unfolding indices_apart_def by metis
    then have "\<not> covers p y"
      using own_bytes_apart [OF l(1) i(1) j(1) _ _ _ shadowsD(2) [OF sh i(1) x p]] j(2,4) by blast
    then show ?thesis using flush_byte [of "put (Some p) (shared s)" y "shared s" "b j"] j(2)
      by (simp add: seen_by_def put_other)
  qed
  have free: "shared ?s y = F y" if "\<forall>j<c_threads C. \<not> touches (?b j) y" for y
  proof (cases "covers p y")
    case True
    have "\<not> touches (q @ r) y" using that i(1) by fastforce
    then have "seen_by ?s ?b i y = shared ?s y" by (simp add: seen_by_def flush_other)
    then show ?thesis using shadowsD(3) [OF sh i(1) x shadowsD(2) [OF sh i(1) x p [OF True]]] vi by simp
  next
    case False
    then have "\<forall>j<c_threads C. \<not> touches (b j) y"
      using that i(2) by (metis fun_upd_apply touches_simps(2,3))
    then show ?thesis using False shadows_free [OF sh] by (simp add: put_other)
  qed
  have t: "touches (b j) y" if "touches (?b j) y" for j y using i(2) that by (auto split: if_splits)
  show ?thesis
  proof (rule shadowsI)
    fix j assume "j < c_threads C" "on ?s j = None"
    then show "?b j = []" using shadowsD(1) [OF sh] x by auto
  next
    fix j z y assume j: "j < c_threads C" "on ?s j = Some z"
    then show "own_byte C j z y" if "touches (?b j) y"
      using shadowsD(2) [OF sh j(1)] t [OF that] by simp
    show "seen_by ?s ?b j y = F y" if "own_byte C j z y"
      using shadowsD(3) [OF sh j(1)] vi vj j that by (cases "j = i") simp_all
  qed (rule free)
qed

text \<open>A store that enters a buffer is made in \<open>F\<close>.\<close>

lemma shadows_own:
  assumes l: "layout_ok C" "indices_apart C s" and sh: "shadows C s b F"
    and i: "i < c_threads C" "on s i = Some x" "\<forall>p y. w = Some p \<longrightarrow> covers p y \<longrightarrow> own_byte C i x y"
    and s': "shared s' = shared s" "on s' = on s"
  shows "shadows C s' (b(i := b i @ (case w of None \<Rightarrow> [] | Some p \<Rightarrow> [p]))) (put w F)"
proof (cases w)
  case None
  then show ?thesis using sh s' by (simp add: shadows_def seen_by_def)
next
  case (Some p)
  let ?b = "b(i := b i @ [p])"
  have p: "own_byte C i x y" if "covers p y" for y using i(3) Some that by blast
  have o: "put (Some p) F y = F y" if j: "j < c_threads C" "j \<noteq> i" "on s j = Some z" "own_byte C j z y" for j z y
  proof -
    have "fst x \<noteq> fst z \<and> snd x \<noteq> snd z" using l(2) i(1,2) j(1-3) unfolding indices_apart_def by metis
    then have "\<not> covers p y" using own_bytes_apart [OF l(1) i(1) j(1) _ _ _ p] j(2,4) by blast
    then show ?thesis by (rule put_other)
  qed
  have "shadows C s' ?b (put (Some p) F)"
  proof (rule shadowsI)
    fix j assume "j < c_threads C" "on s' j = None"
    then show "?b j = []" using shadowsD(1) [OF sh] i(2) s'(2) by auto
  next
    fix j z y assume j: "j < c_threads C" "on s' j = Some z"
    then show "own_byte C j z y" if "touches (?b j) y"
      using shadowsD(2) [OF sh j(1), of z y] that p i(2) j(2) s'(2) by (cases "j = i") auto
    show "seen_by s' ?b j y = put (Some p) F y" if y: "own_byte C j z y"
    proof (cases "j = i")
      case True
      then have "seen_by s b i y = F y" using shadowsD(3) [OF sh i(1)] j(2) y s'(2) by simp
      then show ?thesis using True s'(1) put_byte [of "seen_by s b i" y F "Some p"]
        by (simp add: seen_by_def flush_append)
    next
      case False
      then show ?thesis using shadowsD(3) [OF sh j(1)] j y o s' by (simp add: seen_by_def)
    qed
  next
    fix y assume y: "\<forall>j<c_threads C. \<not> touches (?b j) y"
    have "\<not> touches (b j) y" if "j < c_threads C" for j using y that by (auto split: if_splits)
    moreover have "\<not> covers p y" using y [rule_format, OF i(1)] by simp
    ultimately show "shared s' y = put (Some p) F y" using shadows_free [OF sh] s'(1) by (simp add: put_other)
  qed
  then show ?thesis using Some by simp
qed

text \<open>A thread that the kernel resumes finds the words of its index in memory.\<close>

lemma shadows_resume:
  assumes l: "layout_ok C" "indices_apart C s" and sh: "shadows C s b F"
    and i: "i < c_threads C" "on s i = None"
    and r: "\<forall>j<c_threads C. \<forall>y. on s j = Some y \<longrightarrow> fst y \<noteq> fst x \<and> snd y \<noteq> snd x"
    and s': "shared s' = kernel_update (c_area C i) x (shared s)" "on s' = (on s)(i := Some x)"
  shows "shadows C s' b (kernel_update (c_area C i) x F)"
proof (rule shadowsI)
  fix j assume "j < c_threads C" "on s' j = None"
  then show "b j = []" using shadowsD(1) [OF sh] s'(2) by (auto split: if_splits)
next
  have bi: "b i = []" by (rule shadowsD(1) [OF sh i])
  fix j z y assume j: "j < c_threads C" "on s' j = Some z"
  show "own_byte C j z y" if "touches (b j) y"
    using shadowsD(2) [OF sh j(1), of z y] that j(2) s'(2) bi by (cases "j = i") auto
  show "seen_by s' b j y = kernel_update (c_area C i) x F y" if y: "own_byte C j z y"
  proof (cases "j = i")
    case True
    have "\<not> touches (b k) y" if k: "k < c_threads C" for k
    proof
      assume "touches (b k) y"
      then obtain u where u: "on s k = Some u" "own_byte C k u y" by (rule shadows_touch [OF sh k])
      have "fst u \<noteq> fst x \<and> snd u \<noteq> snd x" using r k u(1) by blast
      moreover have "k \<noteq> i" using u(1) i(2) by auto
      moreover have "own_byte C i x y" using y True j(2) s'(2) by simp
      ultimately show False using own_bytes_apart [OF l(1) k i(1) _ _ _ u(2)] by blast
    qed
    then have "shared s y = F y" using shadows_free [OF sh] by blast
    from kernel_update_byte [of "shared s" y F, OF this] show ?thesis using True bi s'(1) by (simp add: seen_by_def)
  next
    case False
    then have on: "on s j = Some z" using j(2) s'(2) by simp
    have "\<not> own_byte C i x y"
      using own_bytes_apart [OF l(1) j(1) i(1) False _ _ y] r j(1) on by blast
    then have "\<forall>k<32. y \<noteq> c_area C i + of_nat k" by (auto simp: own_byte_def)
    then have k: "kernel_update (c_area C i) x m y = m y" for m by (rule kernel_update_other)
    have "seen_by s' b j y = seen_by s b j y" unfolding seen_by_def s'(1) by (rule flush_byte) (simp add: k)
    then show ?thesis using shadowsD(3) [OF sh j(1) on y] k by simp
  qed
next
  fix y assume "\<forall>j<c_threads C. \<not> touches (b j) y"
  then show "shared s' y = kernel_update (c_area C i) x F y"
    using kernel_update_byte [of "shared s" y F] shadows_free [OF sh] s'(1) by simp
qed

lemma shadows_stop:
  assumes "shadows C s b F" "b i = []" "shared s' = shared s" "on s' = (on s)(i := None)"
  shows "shadows C s' b F"
  using shadowsD [OF assms(1)] shadows_free [OF assms(1)] assms(2-4)
  by (intro shadowsI) (auto simp: seen_by_def split: if_splits)

text \<open>
  A running thread cannot tell the memory it sees from \<open>F\<close>, and its stores are to its own bytes.
\<close>

lemma indexed_shared: "indexed C (s\<lparr>shared := F\<rparr>) \<Longrightarrow> indices_apart C s"
  unfolding indices_apart_def using indexed_apart [of C "s\<lparr>shared := F\<rparr>"] by simp

lemma par_sym:
  assumes "id_off_ok (off c)" "par_ok c m m'"
  shows "par_ok c m' m"
  unfolding par_ok_def
proof (intro conjI allI impI ballI)
  fix k :: nat assume "k < 32"
  then show "m (ar c + of_nat k) = m' (ar c + of_nat k)"
    using assms(2) unfolding par_ok_def by metis
next
  fix a assume "matches c m'" and a: "a \<in> set (footprint (oper c) m')"
  then have m: "matches c m" using par_matches [OF assms] by blast
  from a have "a \<in> set (footprint (oper c) m)" unfolding par_footprint [OF assms(2) m] .
  from par_load [OF assms(2) m this] show "load64 m a = load64 m' a" by (rule sym)
qed

lemma store_ok_par:
  assumes "id_off_ok (off c)" "par_ok c m m'" "store_ok c m' w"
  shows "store_ok c m w"
proof (cases "matches c m")
  case True
  then have "\<forall>a \<in> set (footprint (oper c) m). load64 m' a = load64 m a" using assms(2) by (simp add: par_ok_def)
  from op_spec_cong [OF this] prepared_cong [OF this] show ?thesis
    using True assms(3) by (auto simp: store_ok_def split: option.splits)
next
  case False
  then show ?thesis using par_matches [OF assms(1,2)] assms(3) by (auto simp: store_ok_def split: option.splits)
qed

lemma running_ident:
  assumes "indexed C (s\<lparr>shared := F\<rparr>)" "calls_ok C" "i < c_threads C" "on s i = Some x"
    and "c_calls C c" "ar c = c_area C i" "matches c F"
  shows "index_at (off c) x = ident c"
  using index_matches [OF call_off_ok [OF assms(2,5)]] indexed_load [OF assms(1,3)] assms(4,6,7) by simp

lemma view_par:
  assumes k: "calls_ok C" and sh: "shadows C s b F" and F: "indexed C (s\<lparr>shared := F\<rparr>)" "c_inv C F"
    and i: "i < c_threads C" "on s i = Some x" and c: "c_calls C c" "ar c = c_area C i"
  shows "par_ok c F (seen_by s b i)"
proof -
  have eq: "own_byte C i x y \<Longrightarrow> seen_by s b i y = F y" for y by (rule shadowsD(3) [OF sh i])
  have "load64 (seen_by s b i) a = load64 F a" if "matches c F" "a \<in> set (footprint (oper c) F)" for a
  proof -
    have "a \<in> c_home C (off c) (index_at (off c) x)"
      using footprint_home [OF k F(2) c(1) that(2)] running_ident [OF F(1) k i c that(1)] by simp
    then have "\<forall>k<8. own_byte C i x (a + of_nat k)" by (auto simp: own_byte_def covers_def)
    then show ?thesis by (intro load64_bytes) (simp add: eq)
  qed
  moreover have "\<forall>k<32. own_byte C i x (c_area C i + of_nat k)" by (auto simp: own_byte_def)
  ultimately show ?thesis using eq c(2) by (simp add: par_ok_def)
qed

lemma store_own:
  assumes k: "calls_ok C" and F: "indexed C (s\<lparr>shared := F\<rparr>)" "c_inv C F"
    and i: "i < c_threads C" "on s i = Some x" and c: "c_calls C c" "ar c = c_area C i"
    and w: "store_ok c F (Some p)" and y: "covers p y"
  shows "own_byte C i x y"
  using store_ok_footprint [OF w]
proof
  assume p: "fst p = ar c + of_nat CS_OFF"
  obtain k where "k < 8" "y = fst p + of_nat k" using y by (auto simp: covers_def)
  then have "y = c_area C i + of_nat (CS_OFF + k)" "CS_OFF + k < 32"
    using p c(2) by (simp_all add: CS_OFF_def add.assoc)
  then show ?thesis unfolding own_byte_def by blast
next
  assume p: "matches c F \<and> fst p \<in> set (footprint (oper c) F)"
  then have "fst p \<in> c_home C (off c) (index_at (off c) x)"
    using footprint_home [OF k F(2) c(1)] running_ident [OF F(1) k i c] by simp
  moreover have "covers (fst p, 0) y" using y by (simp add: covers_def)
  ultimately show ?thesis unfolding own_byte_def by blast
qed

text \<open>The area of a stopped thread is in memory.\<close>

lemma stopped_area:
  assumes l: "layout_ok C" and sh: "shadows C s b F" and ap: "indices_apart C s"
    and i: "i < c_threads C" "on s i = None" and k: "k < 32"
  shows "shared s (c_area C i + of_nat k) = F (c_area C i + of_nat k)"
proof (rule shadows_free [OF sh], intro allI impI notI)
  fix j assume j: "j < c_threads C" "touches (b j) (c_area C i + of_nat k)"
  obtain x where x: "on s j = Some x" "own_byte C j x (c_area C i + of_nat k)"
    by (rule shadows_touch [OF sh j])
  have "i \<noteq> j" using x(1) i(2) by auto
  have "own_byte C i (fst x + 1, snd x + 1) (c_area C i + of_nat k)" using k by (auto simp: own_byte_def)
  from own_bytes_apart [OF l i(1) j(1) \<open>i \<noteq> j\<close> _ _ this, of x] x(2) show False by simp
qed

lemma threads_ok_upd:
  assumes "threads_ok C T s" "i < c_threads C" "thr s' = (thr s)(i := v)" "\<And>j. j \<noteq> i \<Longrightarrow> on s' j = on s j"
    and "\<And>j u. j < c_threads C \<Longrightarrow> j \<noteq> i \<Longrightarrow> thread_ok C T (shared s) (on s j \<noteq> None) j u \<Longrightarrow>
      thread_ok C T (shared s') (on s j \<noteq> None) j u"
    and "\<And>u. v = Some u \<Longrightarrow> thread_ok C T (shared s') (on s' i \<noteq> None) i u"
  shows "threads_ok C T s'"
  unfolding threads_ok_def each_thread_def
proof (intro allI impI)
  fix j u assume j: "j < c_threads C" "thr s' j = Some u"
  show "thread_ok C T (shared s') (on s' j \<noteq> None) j u"
  proof (cases "j = i")
    case True
    then show ?thesis using assms(6) j(2) assms(3) by simp
  next
    case False
    then have u: "thr s j = Some u" using j(2) assms(3) by simp
    show ?thesis unfolding assms(4) [OF False]
      by (rule assms(5) [OF j(1) False threads_okD [OF assms(1) j(1) u]])
  qed
qed

lemma thread_mem:
  "thread_ok C T m True i t \<Longrightarrow> thread_ok C T m True i (t\<lparr>t_st := (t_st t)\<lparr>mem := z\<rparr>\<rparr>)"
  by (simp add: thread_ok_def)

section \<open>Steps keep the invariant of the system with \<open>F\<close>\<close>

text \<open>
  The invariant of \<open>Serial\<close> holds of the state with \<open>F\<close> in the place of memory, and each step of
  the buffered system keeps it, with \<open>F\<close> changed by the kernel's stores and by the stores of
  instructions when they are made, not when they leave the buffer.
\<close>

definition buf_inv :: "'j config \<Rightarrow> (cs_call \<Rightarrow> asm_env \<Rightarrow> outline) \<Rightarrow> mem \<Rightarrow> sys \<times> buffers \<Rightarrow> mem \<Rightarrow> bool" where
  "buf_inv C T mi sb F \<longleftrightarrow> (case sb of (s, b) \<Rightarrow>
     shadows C s b F \<and> sys_inv C T mi (s\<lparr>shared := F\<rparr>))"

context block_module
begin

lemma buf_stop_thread:
  assumes C: "c_blocks C = B" "calls_ok C" and t: "thread_ok C T F True i t"
    and par: "par_ok (t_call t) F m"
  shows "thread_ok C T F False i (t\<lparr>t_st := (t_st t)\<lparr>mem := m\<rparr>\<rparr>)"
proof -
  have a: "ar (t_call t) = c_area C i" using t by (simp add: thread_ok_def)
  then have bytes: "\<forall>b<32. m (c_area C i + of_nat b) = F (c_area C i + of_nat b)"
    using par by (simp add: par_ok_def)
  have "thread_ok C T m True i t" using thread_ok_other [OF C t bytes par] .
  from thread_stop [OF this] show ?thesis by (rule thread_ok_other [OF C]) (simp_all add: bytes)
qed

lemma buf_resume_thread:
  assumes C: "c_blocks C = B" "layout_ok C" "calls_ok C" and i: "i < c_threads C" and F: "c_inv C F"
    and t: "thread_ok C T F False i t"
    and m: "\<forall>k<32. m (c_area C i + of_nat k) = F (c_area C i + of_nat k)"
  shows "thread_ok C T (kernel_update (c_area C i) x F) True i (resume_thr B (c_area C i) x m t)"
proof -
  have "load64 m (c_area C i + of_nat CS_OFF) = load64 F (c_area C i + of_nat CS_OFF)"
    by (rule load_cs_cong [OF m])
  then have "resume_thr B (c_area C i) x m t = (resume_thr B (c_area C i) x F t)
      \<lparr>t_st := (t_st (resume_thr B (c_area C i) x F t))\<lparr>mem := kernel_update (c_area C i) x m\<rparr>\<rparr>"
    by (simp add: resume_thr_def Let_def)
  then show ?thesis using thread_mem [OF thread_resume [OF C i F t]] by simp
qed

lemma buf_own_thread:
  assumes C: "c_blocks C = B" "calls_ok C" and t: "thread_ok C T F True i t"
    and par: "par_ok (t_call t) F m" and nf: "\<not> finished (b_prog B (t_call t)) (t_st t)"
    and st: "step (b_exec B (alloc (t_env t)) (cs_addr (t_env t))) (b_prog B (t_call t))
      ((t_st t)\<lparr>mem := m\<rparr>) = Some (st', w)"
    and put: "store_ok (t_call t) F w \<Longrightarrow> par_ok (t_call t) (put w F) (put w m)"
  shows "store_ok (t_call t) F w"
    and "thread_ok C T (put w F) True i (t\<lparr>t_st := st', t_tr := t_tr t @ [(m, w)]\<rparr>)"
proof -
  have t': "ar (t_call t) = c_area C i" "c_calls C (t_call t)" using t by (simp_all add: thread_ok_def)
  note off = call_off_ok [OF C(2) t'(2)]
  have "\<forall>b<32. m (c_area C i + of_nat b) = F (c_area C i + of_nat b)"
    using par t'(1) by (simp add: par_ok_def)
  then have "thread_ok C T m True i t" using thread_ok_other [OF C t _ par] by blast
  from thread_own [OF C this nf] st have o: "store_ok (t_call t) m w"
      "thread_ok C T (put w m) True i (t\<lparr>t_st := st', t_tr := t_tr t @ [(m, w)]\<rparr>)"
    by auto
  show s: "store_ok (t_call t) F w" by (rule store_ok_par [OF off par o(1)])
  from par_sym [OF off put [OF s]] have p: "par_ok (t_call t) (put w m) (put w F)" .
  then have "\<forall>b<32. put w F (c_area C i + of_nat b) = put w m (c_area C i + of_nat b)"
    using t'(1) by (simp add: par_ok_def)
  then show "thread_ok C T (put w F) True i (t\<lparr>t_st := st', t_tr := t_tr t @ [(m, w)]\<rparr>)"
    using thread_ok_other [OF C o(2)] p by simp
qed

lemma buf_begin_thread:
  assumes C: "c_blocks C = B" "layout_ok C" "calls_ok C" and c: "c_calls C c" "ar c = c_area C i"
    and i: "i < c_threads C" and al: "alloc_ok (alloc env) (b_binds B c)" and F: "c_inv C F"
  shows "thread_ok C T F True i (begin_call B c env m)"
proof -
  have "begin_call B c env m = (begin_call B c env F)\<lparr>t_st := (t_st (begin_call B c env F))\<lparr>mem := m\<rparr>\<rparr>"
    by (simp add: begin_call_def entry_def)
  then show ?thesis using thread_mem [OF thread_begin [OF C c i al F]] by simp
qed

lemma buf_stop:
  assumes C: "c_blocks C = B" "calls_ok C" and inv: "buf_inv C T mi (s, b) F"
    and i: "i < c_threads C" "on s i = Some x" "b i = []"
    and s': "s' = s\<lparr>on := (on s)(i := None),
      thr := (thr s)(i := map_option (\<lambda>t. t\<lparr>t_st := (t_st t)\<lparr>mem := shared s\<rparr>\<rparr>) (thr s i))\<rparr>"
  shows "buf_inv C T mi (s', b) F"
proof -
  let ?F = "s\<lparr>shared := F\<rparr>" and ?F' = "s'\<lparr>shared := F\<rparr>"
  have I: "shadows C s b F" "indexed C ?F" "threads_ok C T ?F" "logged C mi ?F" "\<And>f. counted C f ?F"
    "returned_ok C ?F" "c_inv C F" using inv by (simp_all add: buf_inv_def)
  have "threads_ok C T ?F'"
  proof (rule threads_ok_upd [OF I(3) i(1)])
    fix u assume "map_option (\<lambda>t. t\<lparr>t_st := (t_st t)\<lparr>mem := shared s\<rparr>\<rparr>) (thr s i) = Some u"
    then obtain t where t: "thr s i = Some t" "u = t\<lparr>t_st := (t_st t)\<lparr>mem := shared s\<rparr>\<rparr>" by auto
    have ok: "thread_ok C T F True i t" using threads_okD [OF I(3) i(1), of t] t(1) i(2) by simp
    have "par_ok (t_call t) F (seen_by s b i)"
      using view_par [OF C(2) I(1,2,7) i(1,2)] ok by (simp add: thread_ok_def)
    then show "thread_ok C T (shared ?F') (on ?F' i \<noteq> None) i u"
      using buf_stop_thread [OF C ok] t(2) i(3) s' by (simp add: seen_by_def)
  qed (simp_all add: s')
  moreover have "shadows C s' b F" by (rule shadows_stop [OF I(1) i(3)]) (simp_all add: s')
  moreover have "indexed C ?F'" by (rule indexed_on [OF I(2)]) (simp_all add: s' split: if_splits)
  moreover have "counted C f ?F'" for f
    by (rule counted_keep [OF I(5) _ i(1), of _ "map_option (\<lambda>t. t\<lparr>t_st := (t_st t)\<lparr>mem := shared s\<rparr>\<rparr>) (thr s i)"])
       (simp_all add: s' pending_stop)
  ultimately show ?thesis using I(4,6,7) by (simp add: buf_inv_def s' logged_def returned_ok_def)
qed

lemma buf_resume:
  assumes C: "c_blocks C = B" "layout_ok C" "calls_ok C" and inv: "buf_inv C T mi (s, b) F"
    and i: "i < c_threads C" "on s i = None"
    and r: "\<forall>j<c_threads C. \<forall>y. on s j = Some y \<longrightarrow> fst y \<noteq> fst x \<and> snd y \<noteq> snd x"
    and s': "s' = s\<lparr>shared := kernel_update (c_area C i) x (shared s), on := (on s)(i := Some x),
      thr := (thr s)(i := map_option (resume_thr (c_blocks C) (c_area C i) x (shared s)) (thr s i))\<rparr>"
  shows "buf_inv C T mi (s', b) (kernel_update (c_area C i) x F)"
proof -
  let ?k = "kernel_update (c_area C i) x F" and ?F = "s\<lparr>shared := F\<rparr>"
  let ?F' = "s'\<lparr>shared := ?k\<rparr>"
  have I: "shadows C s b F" "indexed C ?F" "threads_ok C T ?F" "logged C mi ?F" "\<And>f. counted C f ?F"
    "returned_ok C ?F" "c_inv C F" using inv by (simp_all add: buf_inv_def)
  note ap = indexed_shared [OF I(2)]
  have "threads_ok C T ?F'"
  proof (rule threads_ok_upd [OF I(3) i(1)])
    fix u assume "map_option (resume_thr (c_blocks C) (c_area C i) x (shared s)) (thr s i) = Some u"
    then obtain t where t: "thr s i = Some t" "u = resume_thr B (c_area C i) x (shared s) t" using C(1) by auto
    have ok: "thread_ok C T F False i t" using threads_okD [OF I(3) i(1), of t] t(1) i(2) by simp
    have "\<forall>k<32. shared s (c_area C i + of_nat k) = F (c_area C i + of_nat k)"
      using stopped_area [OF C(2) I(1) ap i] by blast
    from buf_resume_thread [OF C i(1) I(7) ok this, of x]
    show "thread_ok C T (shared ?F') (on ?F' i \<noteq> None) i u" using t(2) s' by simp
  next
    fix j u assume "j < c_threads C" "j \<noteq> i" "thread_ok C T (shared ?F) (on ?F j \<noteq> None) j u"
    from thread_kernel_other [OF C _ i(1) this(1,2), where m = F and u = u and x = x] this(3) I(7)
    show "thread_ok C T (shared ?F') (on ?F j \<noteq> None) j u" by simp
  qed (simp_all add: s')
  moreover have "shadows C s' b ?k"
    by (rule shadows_resume [OF C(2) ap I(1) i r]) (simp_all add: s')
  moreover have "indexed C ?F'"
    by (rule indexed_resume [OF C(2) I(2) i(1), of x]) (use r s' in simp_all)
  moreover have "counted C f ?F'" for f
    by (rule counted_keep [OF I(5) _ i(1), of _ "map_option (resume_thr (c_blocks C) (c_area C i) x (shared s)) (thr s i)"])
       (simp_all add: s' pending_resume)
  moreover have "logged C mi ?F'"
    by (rule logged_words [OF I(4)]) (simp_all add: s' kernel_update_word home_area [OF C(2) _ i(1)])
  ultimately show ?thesis using I(6) inv_kernel [OF C(2,3) I(7) i(1)]
    by (simp add: buf_inv_def s' returned_ok_def)
qed

lemma buf_own:
  assumes C: "c_blocks C = B" "layout_ok C" "calls_ok C" and inv: "buf_inv C T mi (s, b) F"
    and i: "i < c_threads C" "on s i = Some x" and t: "thr s i = Some t"
      "\<not> finished (b_prog B (t_call t)) (t_st t)"
      "step (b_exec B (alloc (t_env t)) (cs_addr (t_env t))) (b_prog B (t_call t))
        ((t_st t)\<lparr>mem := seen_by s b i\<rparr>) = Some (st', w)"
    and s': "s' = s\<lparr>thr := (thr s)(i := Some (t\<lparr>t_st := st', t_tr := t_tr t @ [(seen_by s b i, w)]\<rparr>)),
      log := log s @ entries (t_call t) w\<rparr>"
    and b': "b' = b(i := b i @ (case w of None \<Rightarrow> [] | Some p \<Rightarrow> [p]))"
  shows "buf_inv C T mi (s', b') (put w F)"
proof -
  let ?F = "s\<lparr>shared := F\<rparr>" and ?F' = "s'\<lparr>shared := put w F\<rparr>" and ?c = "t_call t"
  let ?t = "t\<lparr>t_st := st', t_tr := t_tr t @ [(seen_by s b i, w)]\<rparr>"
  have I: "shadows C s b F" "indexed C ?F" "threads_ok C T ?F" "logged C mi ?F" "\<And>f. counted C f ?F"
    "returned_ok C ?F" "c_inv C F" using inv by (simp_all add: buf_inv_def)
  have ok: "thread_ok C T F True i t" using threads_okD [OF I(3) i(1), of t] t(1) i(2) by simp
  then have c: "c_calls C ?c" "ar ?c = c_area C i" by (simp_all add: thread_ok_def)
  have new: "shadows C s' b' (put w F) \<and> indexed C ?F' \<and> c_inv C (put w F)" if w: "store_ok ?c F w"
  proof (intro conjI)
    have "\<forall>p y. w = Some p \<longrightarrow> covers p y \<longrightarrow> own_byte C i x y"
      using store_own [OF C(3) I(2,7) i c] w by blast
    then show "shadows C s' b' (put w F)" unfolding b'
      by (rule shadows_own [OF C(2) indexed_shared [OF I(2)] I(1) i]) (simp_all add: s')
    show "indexed C ?F'"
      by (rule indexed_on [OF I(2)]) (simp_all add: s' own_index [OF C(2,3) I(7) i(1) c w])
    show "c_inv C (put w F)" by (rule inv_store [OF C(2,3) I(7) i(1) c w])
  qed
  have v: "seen_by s' b' i = put w (seen_by s b i)"
    by (cases w) (simp_all add: seen_by_def s' b' flush_append)
  have par: "par_ok ?c (put w F) (put w (seen_by s b i))" if w: "store_ok ?c F w"
    using view_par [OF C(3), of s' b' "put w F" i x ?c] new [OF w] i c v s' by simp
  note o = buf_own_thread [OF C(1,3) ok view_par [OF C(3) I(1,2,7) i c] t(2,3) par]
  have "threads_ok C T ?F'"
  proof (rule threads_ok_upd [OF I(3) i(1), of _ "Some ?t"])
    fix j u assume "j < c_threads C" "j \<noteq> i" "thread_ok C T (shared ?F) (on ?F j \<noteq> None) j u"
    from thread_own_other [OF C I(2) _ i(1) _ c _ this(1,2), where x = x and w = w and u = u]
      this(3) i(2) I(7) o(1)
    show "thread_ok C T (shared ?F') (on ?F j \<noteq> None) j u" by simp
  qed (use o(2) i(2) in \<open>simp_all add: s'\<close>)
  moreover have "counted C f ?F'" for f
    by (rule counted_own [OF I(5) i(1), where t = t and st' = st' and m = "seen_by s b i" and w = w])
       (simp_all add: s' t(1))
  moreover have "logged C mi ?F'"
  proof -
    obtain m where m: "replay mi (log s) = Some m" "\<And>k x a. a \<in> c_home C k x \<Longrightarrow> load64 m a = load64 F a"
      using I(4) unfolding logged_def by auto
    show ?thesis
      by (rule logged_own [of C ?F i ?c w mi m ?F'])
         (use C I(7) i c o(1) m s' in \<open>simp_all add: c(2)\<close>)
  qed
  moreover have "returned_ok C ?F'" using I(6) c(1) s' entries_call [of _ ?c w] by (auto simp: returned_ok_def)
  ultimately show ?thesis using new [OF o(1)] by (simp add: buf_inv_def)
qed

lemma buf_call:
  assumes C: "c_blocks C = B" "layout_ok C" "calls_ok C" and inv: "buf_inv C T mi (s, b) F"
    and i: "i < c_threads C" "on s i = Some x" "thr s i = None"
    and c: "c_calls C c" "ar c = c_area C i" "alloc_ok (alloc env) (b_binds B c)"
    and s': "s' = s\<lparr>thr := (thr s)(i := Some (begin_call B c env m))\<rparr>"
  shows "buf_inv C T mi (s', b) F"
proof -
  let ?F = "s\<lparr>shared := F\<rparr>" and ?F' = "s'\<lparr>shared := F\<rparr>"
  have I: "shadows C s b F" "indexed C ?F" "threads_ok C T ?F" "logged C mi ?F" "\<And>f. counted C f ?F"
    "returned_ok C ?F" "c_inv C F" using inv by (simp_all add: buf_inv_def)
  have "threads_ok C T ?F'"
    by (rule threads_ok_upd [OF I(3) i(1), of _ "Some (begin_call B c env m)"])
       (use buf_begin_thread [OF C c(1,2) i(1) c(3) I(7)] i(2) in \<open>simp_all add: s'\<close>)
  moreover have "counted C f ?F'" for f
    by (rule counted_keep [OF I(5) _ i(1), of _ "Some (begin_call B c env m)"])
       (simp_all add: s' i(3) begin_call_def)
  moreover have "indexed C ?F'" by (rule indexed_on [OF I(2)]) (simp_all add: s')
  moreover have "shadows C s' b F" using I(1) by (simp add: s' shadows_def seen_by_def)
  ultimately show ?thesis using I(4,6,7) by (simp add: buf_inv_def s' logged_def returned_ok_def)
qed

lemma buf_ret:
  assumes inv: "buf_inv C T mi (s, b) F" and i: "i < c_threads C" "on s i = Some x"
    and t: "thr s i = Some t" "finished (b_prog (c_blocks C) (t_call t)) (t_st t)"
    and s': "s' = s\<lparr>thr := (thr s)(i := None), rets := rets s @ [(t_call t, t_tr t, outcome_at t)]\<rparr>"
  shows "buf_inv C T mi (s', b) F"
proof -
  let ?F = "s\<lparr>shared := F\<rparr>" and ?F' = "s'\<lparr>shared := F\<rparr>"
  have I: "shadows C s b F" "indexed C ?F" "threads_ok C T ?F" "logged C mi ?F" "\<And>f. counted C f ?F"
    "returned_ok C ?F" "c_inv C F" using inv by (simp_all add: buf_inv_def)
  have "thread_ok C T F (on s i \<noteq> None) i t" using threads_okD [OF I(3) i(1), of t] t(1) by simp
  from thread_returns [OF this t(2)]
  have l: "linearized (t_call t) (t_tr t) (outcome_at t)" "c_calls C (t_call t)" by blast+
  have "threads_ok C T ?F'"
    by (rule threads_ok_upd [OF I(3) i(1), of _ None]) (simp_all add: s')
  moreover have "counted C f ?F'" for f
    by (rule counted_ret [OF I(5) i(1), where t = t]) (simp_all add: s' t(1) l(1))
  moreover have "indexed C ?F'" by (rule indexed_on [OF I(2)]) (simp_all add: s')
  moreover have "shadows C s' b F" using I(1) by (simp add: s' shadows_def seen_by_def)
  ultimately show ?thesis using I(4,6,7) l by (simp add: buf_inv_def s' logged_def returned_ok_def)
qed

lemma buf_inv_step:
  assumes "buf_step C sb sb'" and C: "c_blocks C = B" "layout_ok C" "calls_ok C"
    and inv: "buf_inv C T mi sb F"
  shows "\<exists>F'. buf_inv C T mi sb' F'"
  using assms(1)
proof cases
  case (b_stop i s x b)
  show ?thesis unfolding b_stop(2)
    using buf_stop [OF C(1,3) inv [unfolded b_stop(1)] b_stop(3-5) refl] by blast
next
  case (b_resume i s x b)
  show ?thesis unfolding b_resume(2)
    using buf_resume [OF C inv [unfolded b_resume(1)] b_resume(3-5) refl] by blast
next
  case (b_call i s x c env b)
  show ?thesis unfolding b_call(2)
    using buf_call [OF C inv [unfolded b_call(1)] b_call(3-7) b_call(8) [unfolded C(1)] refl] C(1) by auto
next
  case (b_own i s x t b st' w)
  show ?thesis unfolding b_own(2)
    using buf_own [OF C inv [unfolded b_own(1)] b_own(3-5) b_own(6,7) [unfolded C(1)] refl refl] by blast
next
  case (b_ret i s x t b)
  show ?thesis unfolding b_ret(2)
    using buf_ret [OF inv [unfolded b_ret(1)] b_ret(3-6) refl] by blast
next
  case (b_drain i b q p r s)
  have "shadows C s b F" "indices_apart C s"
    using inv indexed_shared [where C = C and s = s and F = F] by (simp_all add: b_drain(1) buf_inv_def)
  from shadows_drain [OF C(2) this(2,1) b_drain(3-5)] show ?thesis
    using inv unfolding b_drain(1,2) buf_inv_def by auto
qed

lemma buf_reachable_inv:
  assumes "buf_reachable C (idle mi, \<lambda>_. []) sb" and C: "c_blocks C = B" "layout_ok C" "calls_ok C"
    and i: "c_inv C mi"
  shows "\<exists>F. buf_inv C T mi sb F"
  using assms(1)
proof induction
  case b_start
  have "shadows C (idle mi) (\<lambda>_. []) mi" by (simp add: shadows_def idle_def)
  moreover have "sys_inv C T mi (idle mi)" by (rule reachable_inv [OF reachable.start C i])
  moreover have e: "(idle mi)\<lparr>shared := mi\<rparr> = idle mi" by (simp add: idle_def)
  ultimately show ?case by (intro exI [of _ mi]) (simp only: buf_inv_def prod.case e simp_thms)
next
  case (b_one s' s'')
  then show ?case using buf_inv_step [OF b_one(2) C] by blast
qed

end

section \<open>What the callers see\<close>

text \<open>
  There is one sequence of atomic operations that every reader of the words agrees on: a running
  thread sees the words of its index as that sequence leaves them, and of an index that no
  running thread has, they are so in memory. The outcomes are those of atomic operations, and
  the sequence and the successes that have been returned are the same calls when no thread is in
  a call. When all buffers are empty, the system is serialized as in \<open>Serial\<close>.
\<close>

definition buf_serialized :: "'j config \<Rightarrow> mem \<Rightarrow> sys \<times> buffers \<Rightarrow> bool" where
  "buf_serialized C mi sb \<longleftrightarrow> (case sb of (s, b) \<Rightarrow>
     (\<exists>m. replay mi (log s) = Some m \<and>
       (\<forall>i<c_threads C. \<forall>x k. on s i = Some x \<longrightarrow>
          (\<forall>a\<in>c_home C k (index_at k x). load64 (seen_by s b i) a = load64 m a)) \<and>
       (\<forall>k x. (\<forall>i<c_threads C. \<forall>y. on s i = Some y \<longrightarrow> index_at k y \<noteq> x) \<longrightarrow>
          (\<forall>a\<in>c_home C k x. load64 (shared s) a = load64 m a))) \<and>
     (\<forall>(c, tr, a) \<in> set (rets s). linearized c tr a) \<and>
     ((\<forall>i<c_threads C. thr s i = None) \<longrightarrow> mset (committed (log s)) = mset (oks (rets s))) \<and>
     ((\<forall>i<c_threads C. b i = []) \<longrightarrow> serialized C mi s))"

text \<open>With empty buffers it is the system of \<open>Serial\<close>.\<close>

lemma empty_inv:
  assumes "buf_inv C T mi (s, b) F" "\<forall>i<c_threads C. b i = []"
  shows "sys_inv C T mi s"
proof -
  have sh: "shadows C s b F" and I: "sys_inv C T mi (s\<lparr>shared := F\<rparr>)"
    using assms(1) by (simp_all add: buf_inv_def)
  have "shared s = F" using shadows_free [OF sh] assms(2) by (intro ext) simp
  then have "s\<lparr>shared := F\<rparr> = s" by simp
  with I show ?thesis by simp
qed

lemma shadows_idle_word:
  assumes l: "layout_ok C" and sh: "shadows C s b F"
    and x: "\<forall>i<c_threads C. \<forall>y. on s i = Some y \<longrightarrow> index_at k y \<noteq> x" and a: "a \<in> c_home C k x"
  shows "load64 (shared s) a = load64 F a"
proof (rule load64_bytes, intro allI impI shadows_free [OF sh] notI)
  fix n :: nat and j assume n: "n < 8" and j: "j < c_threads C" "touches (b j) (a + of_nat n)"
  obtain y where y: "on s j = Some y" "own_byte C j y (a + of_nat n)"
    by (rule shadows_touch [OF sh j])
  have c: "covers (a, 0) (a + of_nat n)" using n by (auto simp: covers_def)
  from y(2) show False unfolding own_byte_def
  proof
    assume "\<exists>k<32. a + of_nat n = c_area C j + of_nat k"
    then show False using separate_covers [OF home_area [OF l a j(1)]] c by metis
  next
    assume "\<exists>k. \<exists>d\<in>c_home C k (index_at k y). covers (d, 0) (a + of_nat n)"
    then show False using covers_home [OF l a _ c] x j(1) y(1) by metis
  qed
qed

lemma inv_buf_serialized:
  assumes l: "layout_ok C" and inv: "buf_inv C T mi sb F"
  shows "buf_serialized C mi sb"
proof -
  obtain s b where sb: "sb = (s, b)" by (cases sb)
  have sh: "shadows C s b F" and I: "sys_inv C T mi (s\<lparr>shared := F\<rparr>)" using inv by (auto simp: buf_inv_def sb)
  note ser = inv_serialized [OF I]
  then obtain m where m: "replay mi (log s) = Some m" "\<And>k x a. a \<in> c_home C k x \<Longrightarrow> load64 m a = load64 F a"
    by (auto simp: serialized_def)
  have "load64 (seen_by s b i) a = load64 m a"
    if "i < c_threads C" "on s i = Some x" "a \<in> c_home C k (index_at k x)" for i x k a
  proof -
    have "\<forall>n<8. own_byte C i x (a + of_nat n)" using that(3) by (auto simp: own_byte_def covers_def)
    then have "load64 (seen_by s b i) a = load64 F a"
      using shadowsD(3) [OF sh that(1,2)] by (intro load64_bytes) blast
    then show ?thesis using m(2) that(3) by simp
  qed
  moreover have "load64 (shared s) a = load64 m a"
    if "\<forall>i<c_threads C. \<forall>y. on s i = Some y \<longrightarrow> index_at k y \<noteq> x" "a \<in> c_home C k x" for k x a
    using shadows_idle_word [OF l sh that] m(2) [OF that(2)] by simp
  moreover have "serialized C mi s" if "\<forall>i<c_threads C. b i = []"
    by (rule inv_serialized [OF empty_inv [OF inv [unfolded sb] that]])
  ultimately show ?thesis using m(1) ser unfolding buf_serialized_def sb serialized_def by auto
qed

text \<open>Every sequentially consistent history is one: each store leaves its buffer at once.\<close>

context block_module
begin

lemma reachable_buffered:
  assumes "reachable C (idle mi) s" and C: "c_blocks C = B" "layout_ok C" "calls_ok C" "c_inv C mi"
  shows "buf_reachable C (idle mi, \<lambda>_. []) (s, \<lambda>_. [])"
  using assms(1)
proof induction
  case start
  show ?case by (rule b_start)
next
  case (one s s')
  let ?b = "\<lambda>_. []"
  have v: "seen_by s ?b i = shared s" for i by (simp add: seen_by_def)
  from one(2) show ?case
  proof cases
    case (own i x t st' w)
    have ok: "threads_ok C T s" using reachable_inv [OF one(1) C] by blast
    have m: "mem st' = put w (shared s)"
      using own_facts(2) [OF C(1,3) ok own(2-4) own(5,6) [unfolded C(1)]] .
    let ?s = "s\<lparr>thr := (thr s)(i := Some (t\<lparr>t_st := st', t_tr := t_tr t @ [(shared s, w)]\<rparr>)),
      log := log s @ entries (t_call t) w\<rparr>"
    let ?b' = "?b(i := ?b i @ (case w of None \<Rightarrow> [] | Some p \<Rightarrow> [p]))"
    have o: "buf_reachable C (idle mi, ?b) (?s, ?b')"
      using b_one [OF one(3) b_own [where s = s and b = ?b, unfolded v, OF own(2-6)]] .
    show ?thesis
    proof (cases w)
      case None
      then show ?thesis using o m own(1) by (simp add: fun_upd_idem)
    next
      case (Some p)
      have "buf_step C (?s, ?b') (?s\<lparr>shared := put (Some p) (shared ?s)\<rparr>, ?b'(i := [] @ []))"
        by (rule b_drain [OF own(2)]) (simp_all add: Some clear_of_def)
      moreover have "?b'(i := [] @ []) = ?b" by (simp add: fun_upd_idem)
      moreover have "s' = ?s\<lparr>shared := put (Some p) (shared ?s)\<rparr>" using own(1) m Some by simp
      ultimately show ?thesis using b_one [OF o] by metis
    qed
  next
    case (stop i x)
    show ?thesis unfolding stop(1) by (rule b_one [OF one(3) b_stop [OF stop(2,3)]]) simp
  next
    case (resume i x)
    show ?thesis unfolding resume(1) by (rule b_one [OF one(3) b_resume [OF resume(2-4)]])
  next
    case (call i x c env)
    show ?thesis unfolding call(1) using b_one [OF one(3) b_call [OF call(2-7), of ?b]] by (simp only: v)
  next
    case (ret i x t)
    show ?thesis unfolding ret(1) by (rule b_one [OF one(3) b_ret [OF ret(2-5)]])
  qed
qed

lemma buffered_serialized:
  assumes "buf_reachable C (idle mi, \<lambda>_. []) sb" "c_blocks C = B" "layout_ok C" "calls_ok C" "c_inv C mi"
  shows "buf_serialized C mi sb"
  using buf_reachable_inv [OF assms] inv_buf_serialized [OF assms(3)] by blast

end

section \<open>Properties\<close>

text \<open>
  C11: store buffers change nothing that the callers can see on x86-64: however late the stores
  of running threads get to memory, a thread that runs sees the words of its index as one
  sequence of atomic operations leaves them, whichever threads made them; so are in memory the
  words of an index that no running thread has; and what the calls return is as in that sequence.
\<close>

theorem x86_buffered:
  assumes "c_blocks C = x86_blocks" "layout_ok C" "calls_ok C" "c_inv C mi"
    and "buf_reachable C (idle mi, \<lambda>_. []) sb"
  shows "buf_serialized C mi sb"
  by (rule x86_sys.buffered_serialized [OF assms(5,1-4)])

theorem x86_buffered_witness:
  "\<exists>s tr. buf_serialized (config1 x86_blocks) m0 (s, \<lambda>_. []) \<and> rets s = [(call1, tr, AOk 0)]"
proof -
  obtain s tr where s: "reachable (config1 x86_blocks) (idle m0) s" "rets s = [(call1, tr, AOk 0)]"
    using reaches1(1) by blast
  have C: "c_blocks (config1 x86_blocks) = x86_blocks" by (simp add: config1_def)
  note conf = C config1_layout config1_calls config1_inv
  from x86_buffered [OF conf x86_sys.reachable_buffered [OF s(1) conf]] s(2) show ?thesis by blast
qed

text \<open>
  C12: store buffers change nothing that the callers can see on aarch64, although a store may
  leave the buffer before an older one that it does not overlap: the promise is the same.
\<close>

theorem a64_buffered:
  assumes "c_blocks C = a64_blocks" "layout_ok C" "calls_ok C" "c_inv C mi"
    and "buf_reachable C (idle mi, \<lambda>_. []) sb"
  shows "buf_serialized C mi sb"
  by (rule a64_sys.buffered_serialized [OF assms(5,1-4)])

theorem a64_buffered_witness:
  "\<exists>s tr. buf_serialized (config1 a64_blocks) m0 (s, \<lambda>_. []) \<and> rets s = [(call1, tr, AOk 0)]"
proof -
  obtain s tr where s: "reachable (config1 a64_blocks) (idle m0) s" "rets s = [(call1, tr, AOk 0)]"
    using reaches1(2) by blast
  have C: "c_blocks (config1 a64_blocks) = a64_blocks" by (simp add: config1_def)
  note conf = C config1_layout config1_calls config1_inv
  from a64_buffered [OF conf a64_sys.reachable_buffered [OF s(1) conf]] s(2) show ?thesis by blast
qed

end
