(* ===== verification/Membarrier.thy ===== *)
theory Membarrier
  imports Index
begin

text \<open>
  \<open>src/membarrier.rs\<close>: the two statics (\<open>READY\<close>, a once-cell, and \<open>USED\<close>), and the fences.
  The system call is an argument: a function of the command, the flags, the CPU and the state
  of the kernel, which returns the result, the error number and the new state. The calls of
  one process are taken one after the other.
\<close>

section \<open>Statics and system calls\<close>

datatype mb_cmd = REGISTER_PRIVATE_EXPEDITED_RSEQ | PRIVATE_EXPEDITED_RSEQ

type_synonym 'k membarrier = "mb_cmd \<Rightarrow> u32 \<Rightarrow> u32 \<Rightarrow> 'k \<Rightarrow> (u64 \<times> errno) \<times> 'k"

definition FLAG_CPU :: u32 where "FLAG_CPU = push_bit 0 1"

record mb_statics =
  READY :: "bool option"
  USED :: bool

definition mb_start :: mb_statics where
  "mb_start = \<lparr>READY = None, USED = False\<rparr>"

section \<open>Operations\<close>

definition mb_register :: "'k membarrier \<Rightarrow> 'k \<Rightarrow> bool \<times> 'k" where
  "mb_register sys k = (case sys REGISTER_PRIVATE_EXPEDITED_RSEQ 0 0 k of
     ((rc, err), k') \<Rightarrow> (rc = 0, k'))"

definition mb_ready :: "'k membarrier \<Rightarrow> mb_statics \<Rightarrow> 'k \<Rightarrow> bool \<times> mb_statics \<times> 'k" where
  "mb_ready sys st k = (case READY st of
     Some b \<Rightarrow> (b, st, k)
   | None \<Rightarrow> (case mb_register sys k of (b, k') \<Rightarrow> (b, st\<lparr>READY := Some b\<rparr>, k')))"

definition mb_run ::
  "'k membarrier \<Rightarrow> mb_cmd \<Rightarrow> u32 \<Rightarrow> u32 \<Rightarrow> mb_statics \<Rightarrow> 'k \<Rightarrow> bool \<times> mb_statics \<times> 'k" where
  "mb_run sys cmd fl cpu st k =
     (case mb_ready sys st k of (ready, st, k) \<Rightarrow>
      if \<not> ready then (False, st, k)
      else case sys cmd fl cpu k of ((rc, err), k) \<Rightarrow>
        if rc = 0 then (True, st\<lparr>USED := True\<rparr>, k)
        else if err = EPERM then
          (let used = USED st; st = st\<lparr>USED := False\<rparr> in
           if used then
             (case mb_register sys k of (reg, k) \<Rightarrow>
              if reg then case sys cmd fl cpu k of ((rc, err), k) \<Rightarrow> (rc = 0, st, k)
              else (False, st, k))
           else (False, st, k))
        else (False, st, k))"

text \<open>\<open>c_int::try_from\<close> of the id fails from \<open>2 ^ 31\<close> on.\<close>

definition mb_fence :: "'k membarrier \<Rightarrow> CpuId \<Rightarrow> mb_statics \<Rightarrow> 'k \<Rightarrow> bool \<times> mb_statics \<times> 'k" where
  "mb_fence sys cpu st k =
     (if 2 ^ 31 \<le> unat (CpuId_get cpu) then (False, st, k)
      else mb_run sys PRIVATE_EXPEDITED_RSEQ FLAG_CPU (CpuId_get cpu) st k)"

definition mb_fence_all :: "'k membarrier \<Rightarrow> mb_statics \<Rightarrow> 'k \<Rightarrow> bool \<times> mb_statics \<times> 'k" where
  "mb_fence_all sys st k = mb_run sys PRIVATE_EXPEDITED_RSEQ 0 0 st k"

section \<open>Facts\<close>

lemma mb_ready_cases:
  "(case mb_ready sys st k of (b, st', k') \<Rightarrow> READY st' = Some b \<and> USED st' = USED st \<and>
     (READY st \<noteq> None \<longrightarrow> st' = st \<and> k' = k))"
  by (auto simp: mb_ready_def split: option.splits prod.splits)

lemma mb_run_true:
  "mb_run sys cmd fl cpu st k = (True, st', k') \<Longrightarrow> \<exists>k0 err. sys cmd fl cpu k0 = ((0, err), k')"
  by (auto simp: mb_run_def Let_def split: prod.splits if_splits)

text \<open>
  What \<open>membarrier(2)\<close> documents of the commands, \<open>reg\<close> being the registration of the process:
  a successful registration registers; the expedited command keeps the registration and fails
  with \<open>EPERM\<close> exactly when there is none.
\<close>

definition mb_kernel_ok :: "'k membarrier \<Rightarrow> ('k \<Rightarrow> bool) \<Rightarrow> bool" where
  "mb_kernel_ok sys reg \<longleftrightarrow>
     (\<forall>k. case sys REGISTER_PRIVATE_EXPEDITED_RSEQ 0 0 k of ((rc, err), k') \<Rightarrow> rc = 0 \<longrightarrow> reg k') \<and>
     (\<forall>fl cpu k. case sys PRIVATE_EXPEDITED_RSEQ fl cpu k of ((rc, err), k') \<Rightarrow>
        reg k' = reg k \<and> ((rc \<noteq> 0 \<and> err = EPERM) = (\<not> reg k)))"

lemma mb_register_reg:
  assumes "mb_kernel_ok sys reg" "sys REGISTER_PRIVATE_EXPEDITED_RSEQ 0 0 k = ((0, err), k')"
  shows "reg k'"
  using assms(1) [unfolded mb_kernel_ok_def, THEN conjunct1, THEN spec [of _ k]] assms(2) by simp

lemma mb_expedited:
  assumes "mb_kernel_ok sys reg" "sys PRIVATE_EXPEDITED_RSEQ fl cpu k = ((rc, err), k')"
  shows "reg k' = reg k \<and> ((rc \<noteq> 0 \<and> err = EPERM) = (\<not> reg k))"
  using assms(1) [unfolded mb_kernel_ok_def, THEN conjunct2, THEN spec [of _ fl],
      THEN spec [of _ cpu], THEN spec [of _ k]] assms(2) by simp

text \<open>A kernel of that kind, whose state is the registration of the process.\<close>

fun mb_kernel :: "bool membarrier" where
  "mb_kernel REGISTER_PRIVATE_EXPEDITED_RSEQ fl cpu reg = ((0, Other_errno 0), True)"
| "mb_kernel PRIVATE_EXPEDITED_RSEQ fl cpu reg =
     (if reg then ((0, Other_errno 0), True) else ((- 1, EPERM), False))"

lemma mb_kernel_ok: "mb_kernel_ok mb_kernel (\<lambda>r. r)"
  by (simp add: mb_kernel_ok_def)

section \<open>Properties\<close>

text \<open>
  A fence that reports success made the expedited system call, on the CPU it was asked
  for, and that call was its last and succeeded.
\<close>

lemma fence_true_fenced:
  assumes "mb_fence sys cpu st k = (True, st', k')"
  shows "unat (CpuId_get cpu) < 2 ^ 31 \<and>
    (\<exists>k0 err. sys PRIVATE_EXPEDITED_RSEQ FLAG_CPU (CpuId_get cpu) k0 = ((0, err), k'))"
  using assms mb_run_true by (auto simp: mb_fence_def split: if_splits)

text \<open>
  A process that has registered keeps using the registration: one system call per fence,
  whose result is the fence's.
\<close>

lemma fence_registered:
  assumes "mb_kernel_ok sys reg" "reg k" "READY st = Some True"
  shows "\<exists>st'. mb_fence_all sys st k =
    (case sys PRIVATE_EXPEDITED_RSEQ 0 0 k of ((rc, err), k') \<Rightarrow> (rc = 0, st', k')) \<and>
    READY st' = Some True"
proof -
  obtain rc err k' where s: "sys PRIVATE_EXPEDITED_RSEQ 0 0 k = ((rc, err), k')"
    by (metis prod.collapse)
  have "\<not> (rc \<noteq> 0 \<and> err = EPERM)"
    using mb_expedited [OF assms(1) s] assms(2) by blast
  then show ?thesis using assms(3) s
    by (auto simp: mb_fence_all_def mb_run_def mb_ready_def)
qed

text \<open>
  C30: in the child of a \<open>fork\<close>, where the statics say registered and the kernel does not, the
  first fence after a successful one in the parent registers again and repeats the system call
  in a registered process: it fails only if registering or that call fails.
\<close>

theorem fence_after_fork:
  assumes "mb_kernel_ok sys reg" "\<not> reg k" "READY st = Some True" "USED st"
    and "\<forall>k. fst (mb_register sys k)"
  shows "\<exists>k1. reg k1 \<and> mb_fence_all sys st k =
    (case sys PRIVATE_EXPEDITED_RSEQ 0 0 k1 of ((rc, err), k') \<Rightarrow> (rc = 0, st\<lparr>USED := False\<rparr>, k'))"
proof -
  obtain rc err k' where s: "sys PRIVATE_EXPEDITED_RSEQ 0 0 k = ((rc, err), k')"
    by (metis prod.collapse)
  have e: "rc \<noteq> 0 \<and> err = EPERM"
    using mb_expedited [OF assms(1) s] assms(2) by blast
  obtain e1 k1 where r: "sys REGISTER_PRIVATE_EXPEDITED_RSEQ 0 0 k' = ((0, e1), k1)"
    using assms(5) [rule_format, of k'] by (auto simp: mb_register_def split: prod.splits)
  have "reg k1" using mb_register_reg [OF assms(1) r] .
  moreover have "mb_register sys k' = (True, k1)" using r by (simp add: mb_register_def)
  ultimately show ?thesis using assms(3,4) s e
    by (intro exI [of _ k1])
       (auto simp: mb_fence_all_def mb_run_def mb_ready_def Let_def split: prod.splits)
qed

theorem fence_after_fork_witness:
  "mb_fence_all mb_kernel \<lparr>READY = Some True, USED = True\<rparr> False =
     (True, \<lparr>READY = Some True, USED = False\<rparr>, True)"
  using fence_after_fork [OF mb_kernel_ok, of False "\<lparr>READY = Some True, USED = True\<rparr>"]
  by (auto simp: mb_register_def)

text \<open>
  C31: the retry leaves \<open>USED\<close> cleared although its fence succeeded. So a child whose only
  fence was that one, and which forks in turn, leaves a grandchild in which every fence fails,
  however often it is tried, although registering would succeed.
\<close>

theorem fence_second_fork_fails:
  assumes "mb_fence_all mb_kernel st False = (True, st1, k1)" "READY st = Some True"
  shows "mb_fence_all mb_kernel st1 False = (False, st1, False) \<and> fst (mb_register mb_kernel False)"
  using assms
  by (cases st)
     (auto simp: mb_fence_all_def mb_run_def mb_ready_def mb_register_def Let_def split: if_splits)

theorem fence_second_fork_fails_witness:
  "mb_fence_all mb_kernel \<lparr>READY = Some True, USED = False\<rparr> False =
     (False, \<lparr>READY = Some True, USED = False\<rparr>, False)"
proof -
  have "mb_fence_all mb_kernel \<lparr>READY = Some True, USED = True\<rparr> False =
      (True, \<lparr>READY = Some True, USED = False\<rparr>, True)"
    by (simp add: mb_fence_all_def mb_run_def mb_ready_def mb_register_def)
  from fence_second_fork_fails [OF this] show ?thesis by simp
qed

end
