(* ===== verification/Rseq.thy ===== *)
theory Rseq
  imports Target Words Cpus Membarrier
begin

text \<open>
  \<open>src/rseq.rs\<close>: the process-wide \<open>Rseq\<close>, found once and cached, the binding of a thread to its
  area, the fences and the sizing of the word region; and the selection of the registration
  module in \<open>src/lib.rs\<close>. Here the other components meet.
\<close>

section \<open>State\<close>

datatype mode = Glibc isize | SelfRegistered
datatype available_query = Kernel | Libc

record rseq =
  rs_mode :: mode
  rs_cpus :: u32
  rs_node :: bool
  rs_cid :: bool
  rs_slice :: bool

text \<open>\<open>STATE\<close>: empty, or the cached result of \<open>init\<close>.\<close>

type_synonym state_cell = "rseq option option"

text \<open>The \<open>cfg\<close> attributes on the \<open>registration\<close> items, and the signature of the target.\<close>

definition sig_of :: "target_arch \<Rightarrow> u32" where
  "sig_of arch = (if arch = Arch_aarch64 then SIG_aarch64 else SIG_x86_64)"

definition registration_of :: "target_os \<Rightarrow> target_arch \<Rightarrow> 'k registration" where
  "registration_of os arch =
     (if os = Linux \<and> (arch = Arch_x86_64 \<or> arch = Arch_aarch64)
      then linux_registration (sig_of arch) else fallback_registration)"

section \<open>Operations\<close>

definition Rseq_make :: "'k registration \<Rightarrow> 'k platform \<Rightarrow> mode \<Rightarrow> bool \<Rightarrow> u32 \<Rightarrow> rseq" where
  "Rseq_make R p md sl n = \<lparr>rs_mode = md, rs_cpus = n, rs_node = r_node_supported R p,
     rs_cid = r_cid_supported R p, rs_slice = sl\<rparr>"

definition Rseq_init ::
  "'k registration \<Rightarrow> 'k platform \<Rightarrow> (nat \<Rightarrow> u8 list option) \<Rightarrow> 'k world \<Rightarrow> rseq option \<times> 'k world" where
  "Rseq_init R p sysfs w =
     (case r_glibc_area_info R p (fst w) of
        Some (offset, sz) \<Rightarrow>
          (let sl = r_slice_supported R p \<and> SLICE_FEATURE_SIZE \<le> sz in
           case Cpus_possible sysfs of None \<Rightarrow> (None, w)
           | Some n \<Rightarrow> (Some (Rseq_make R p (Glibc offset) sl n), w))
      | None \<Rightarrow>
          (case r_bind R p w of
             (None, w) \<Rightarrow> (None, w)
           | (Some _, w) \<Rightarrow>
               (case Cpus_possible sysfs of None \<Rightarrow> (None, w)
                | Some n \<Rightarrow> (Some (Rseq_make R p SelfRegistered False n), w))))"

definition Rseq_new ::
  "'k registration \<Rightarrow> 'k platform \<Rightarrow> (nat \<Rightarrow> u8 list option) \<Rightarrow> state_cell \<Rightarrow> 'k world \<Rightarrow>
   rseq option \<times> state_cell \<times> 'k world" where
  "Rseq_new R p sysfs st w = (case st of Some r \<Rightarrow> (r, st, w)
     | None \<Rightarrow> (case Rseq_init R p sysfs w of (r, w) \<Rightarrow> (r, Some r, w)))"

definition Rseq_available ::
  "'k registration \<Rightarrow> 'k platform \<Rightarrow> available_query \<Rightarrow> 'k world \<Rightarrow> bool \<times> 'k world" where
  "Rseq_available R p q w = (case q of Kernel \<Rightarrow> r_kernel_available R p w
     | Libc \<Rightarrow> (r_libc_available R p, w))"

definition Rseq_area ::
  "'k registration \<Rightarrow> 'k platform \<Rightarrow> rseq \<Rightarrow> 'k world \<Rightarrow> u64 option \<times> 'k world" where
  "Rseq_area R p r w = (case rs_mode r of Glibc offset \<Rightarrow> (r_glibc_area R p offset, w)
     | SelfRegistered \<Rightarrow> r_bind R p w)"

definition Rseq_bind ::
  "'k registration \<Rightarrow> 'k platform \<Rightarrow> rseq \<Rightarrow> 'k world \<Rightarrow> thread option \<times> 'k world" where
  "Rseq_bind R p r w = (case Rseq_area R p r w of
       (None, w) \<Rightarrow> (None, w)
     | (Some area, w) \<Rightarrow>
         (let idx = cpu_id (read_area (fst w) area) in
          if idx = CPU_UNINIT \<or> idx = CPU_REG_FAILED then (None, w)
          else (Some (Thread_new area (rs_node r) (rs_cid r) (rs_slice r)), w)))"

definition Rseq_fence ::
  "'k membarrier \<Rightarrow> rseq \<Rightarrow> CpuId \<Rightarrow> mb_statics \<Rightarrow> 'k \<Rightarrow> bool \<times> mb_statics \<times> 'k" where
  "Rseq_fence sys r cpu st k =
     (if CpuId_get cpu < rs_cpus r then mb_fence sys cpu st k else (False, st, k))"

definition Rseq_fence_all :: "'k membarrier \<Rightarrow> mb_statics \<Rightarrow> 'k \<Rightarrow> bool \<times> mb_statics \<times> 'k" where
  "Rseq_fence_all sys st k = mb_fence_all sys st k"

definition Rseq_cpus :: "rseq \<Rightarrow> u32" where
  "Rseq_cpus r = rs_cpus r"

definition Rseq_words :: "(usize \<Rightarrow> u64) \<Rightarrow> rseq \<Rightarrow> words option" where
  "Rseq_words mmap r = Words_new mmap (rs_cpus r)"

section \<open>Facts\<close>

lemma Rseq_init_cpus: "Rseq_init R p sysfs w = (Some r, w') \<Longrightarrow> Cpus_possible sysfs = Some (rs_cpus r)"
  by (auto simp: Rseq_init_def Rseq_make_def Let_def split: option.splits prod.splits)

lemma linux_slice:
  "Rseq_init (linux_registration sig) p sysfs w = (Some r, w') \<Longrightarrow>
    (rs_slice r \<longrightarrow> slice_supported p \<and> rs_mode r \<noteq> SelfRegistered) \<and>
    rs_cid r = cid_supported p \<and> rs_node r = node_supported p"
  by (auto simp: Rseq_init_def Rseq_make_def Let_def linux_registration_def
      split: option.splits prod.splits)

lemma nonsentinel:
  "idx \<noteq> CPU_UNINIT \<Longrightarrow> idx \<noteq> CPU_REG_FAILED \<Longrightarrow> CpuId_new idx = Some (CpuId idx)"
  by (simp add: CpuId_new_Some)

section \<open>A concrete process\<close>

text \<open>One CPU, no glibc area, on the platform of \<open>Registration\<close>.\<close>

definition sysfs0 :: "nat \<Rightarrow> u8 list option" where "sysfs0 n = Some [48, 45, 51, 10]"

lemma sysfs0: "Cpus_possible sysfs0 = Some 4"
  by (simp add: sysfs0_def Cpus_possible_def BUF_def trim_def white_def part_hi_def parse_u32_def
      checked_mul_def checked_add_def)

definition rseq0 :: rseq where
  "rseq0 = \<lparr>rs_mode = SelfRegistered, rs_cpus = 4, rs_node = True, rs_cid = True, rs_slice = False\<rparr>"

definition world0 :: "rseq_state world" where
  "world0 = thread_start 0x1000 (\<lambda>_. 0)"

definition world1 :: "rseq_state world" where
  "world1 = snd (Registration_bind SIG_x86_64 platform0 world0)"

lemma bind0: "Registration_bind SIG_x86_64 platform0 world0 = (Some 0x1000, world1)"
  by (simp add: world0_def world1_def registration_starts)

lemma init0: "Rseq_init (linux_registration SIG_x86_64) platform0 sysfs0 world0 = (Some rseq0, world1)"
  using bind0 by (simp add: Rseq_init_def linux_registration_def glibc_area_info_def
      Rseq_make_def cid_supported_def node_supported_def CID_FEATURE_SIZE_def
      NODE_FEATURE_SIZE_def rseq0_def sysfs0 Let_def platform0_def)

lemma world1_cpu: "cpu_id (read_area (fst world1) 0x1000) = 3"
  by (simp add: world1_def world0_def registration_starts)

lemma first_bind0: "Rseq_bind (linux_registration SIG_x86_64) platform0 rseq0 world0 =
    (Some (Thread_new 0x1000 True True False), world1)"
  using bind0 world1_cpu by (simp add: Rseq_bind_def Rseq_area_def linux_registration_def
      rseq0_def Let_def CPU_UNINIT_def CPU_REG_FAILED_def)

section \<open>Properties\<close>

text \<open>
  \<open>new\<close> decides once: whatever the first call returns, every later call returns the same,
  touches neither memory nor kernel, and keeps the cache, whatever the platform has become.
\<close>

lemma rseq_new_once:
  assumes "Rseq_new R p sysfs st w = (r, st', w')"
  shows "st' = Some r \<and> Rseq_new R p' sysfs' st' w'' = (r, st', w'')"
  using assms by (auto simp: Rseq_new_def split: option.splits prod.splits)

text \<open>
  An \<open>Rseq\<close> has a positive CPU count; node ids, concurrency ids and the slice extension are on
  only as the kernel's feature size says, each implying the one before; and an area of the
  crate's own never has the slice extension.
\<close>

lemma rseq_init_features:
  assumes "Rseq_init (linux_registration sig) p sysfs w = (Some r, w')"
  shows "0 < rs_cpus r \<and> (rs_slice r \<longrightarrow> rs_cid r \<and> rs_mode r \<noteq> SelfRegistered) \<and>
    (rs_cid r \<longrightarrow> rs_node r) \<and> (rs_cid r = cid_supported p) \<and> (rs_node r = node_supported p)"
proof -
  have f: "(slice_supported p \<longrightarrow> cid_supported p) \<and> (cid_supported p \<longrightarrow> node_supported p)"
    by (rule feature_order)
  have "0 < rs_cpus r" using possible_nonzero [OF Rseq_init_cpus [OF assms]] .
  then show ?thesis using linux_slice [OF assms] f by blast
qed

text \<open>
  C36: a thread that \<open>bind\<close> returns can read its CPU: the area is not null and holds no
  sentinel, it is where the mode says (at the offset from the thread pointer, or the thread's
  own slot), and the thread has the features of the process.
\<close>

theorem rseq_bind_sound:
  assumes "Rseq_bind (linux_registration sig) p r w = (Some t, w')"
  shows "th_cpu_id t (fst w') \<noteq> None \<and> th_area t \<noteq> 0 \<and>
    (case rs_mode r of Glibc offset \<Rightarrow> th_area t = thread_pointer p + offset \<and> w' = w
     | SelfRegistered \<Rightarrow> tls_slot p = Some (th_area t)) \<and>
    th_node t = rs_node r \<and> th_cid t = rs_cid r \<and> th_slice t = rs_slice r"
  using assms
  by (auto simp: Rseq_bind_def Rseq_area_def linux_registration_def Let_def th_cpu_id_def
      Thread_new_def glibc_area_def Registration_bind_def Registration_register_def nonsentinel
      split: option.splits prod.splits mode.splits if_splits)

theorem rseq_bind_sound_witness:
  "\<exists>t w. Rseq_bind (linux_registration SIG_x86_64) platform0 rseq0 world0 = (Some t, w) \<and>
     th_cpu_id t (fst w) \<noteq> None \<and> th_area t = 0x1000"
  using first_bind0 rseq_bind_sound [OF first_bind0] by (auto simp: Thread_new_def)

text \<open>
  What the kernel keeps up to date of an area: the original 20 bytes and what its feature size
  adds, but \<open>slice_ctrl\<close> only in a registration of at least 33 bytes, which glibc reports and
  the crate's own never is.
\<close>

definition feature_bytes :: "'k platform \<Rightarrow> nat" where
  "feature_bytes p = unat (getauxval p AT_RSEQ_FEATURE_SIZE)"

definition live_bytes :: "'k platform \<Rightarrow> mem \<Rightarrow> nat" where
  "live_bytes p m =
     (if 33 \<le> feature_bytes p \<and>
         (case glibc_area_info p m of None \<Rightarrow> False | Some (_, sz) \<Rightarrow> 33 \<le> unat sz) then 32
      else max 20 (min 28 (feature_bytes p)))"

definition readings ::
  "u32 \<Rightarrow> u64 \<times> u32 \<Rightarrow> thread \<Rightarrow> mem \<Rightarrow>
   CpuId option \<times> CpuId option \<times> CpuId option \<times> NodeId option \<times> NodeId option \<times> Cid option \<times> u32 option"
where
  "readings cpu node t m = (th_cpu_id t m, th_cpu_id_start t m, th_cpu cpu t m, th_node_id t m,
     th_node_of node t m, th_cid_of t m, th_slice_ctrl t m)"

lemma bind_features:
  assumes "Rseq_bind R p r w = (Some t, w')"
  shows "th_node t = rs_node r" "th_cid t = rs_cid r" "th_slice t = rs_slice r"
  using assms by (auto simp: Rseq_bind_def Let_def Thread_new_def split: option.splits prod.splits if_splits)

lemma init_features_exact:
  assumes "Rseq_init (linux_registration sig) p sysfs w = (Some r, w')"
  shows "rs_node r \<longleftrightarrow> 24 \<le> feature_bytes p" "rs_cid r \<longleftrightarrow> 28 \<le> feature_bytes p"
    "rs_slice r \<longleftrightarrow> live_bytes p (fst w) = 32"
  using assms
  by (auto simp: Rseq_init_def Rseq_make_def Let_def linux_registration_def node_supported_def
      cid_supported_def slice_supported_def feature_bytes_def live_bytes_def word_le_nat_alt
      NODE_FEATURE_SIZE_def CID_FEATURE_SIZE_def SLICE_FEATURE_SIZE_def
      split: option.splits prod.splits)

lemma readings_cong:
  assumes eq: "\<forall>i<n. m (th_area t + of_nat i) = m' (th_area t + of_nat i)"
    and "20 \<le> n" "th_node t \<Longrightarrow> 24 \<le> n" "th_cid t \<Longrightarrow> 28 \<le> n" "th_slice t \<Longrightarrow> 32 \<le> n"
  shows "readings cpu node t m = readings cpu node t m'"
proof -
  have l: "load32 m (th_area t + of_nat k) = load32 m' (th_area t + of_nat k)" if "k + 4 \<le> n" for k
    using load32_cong_range [OF eq that] by blast
  have "th_cpu_id t m = th_cpu_id t m'" "th_cpu_id_start t m = th_cpu_id_start t m'"
    using l [of 4] l [of 0] assms(2)
    by (simp_all add: th_cpu_id_def th_cpu_id_start_def read_area_def CPU_ID_OFF_def)
  moreover have "th_node_id t m = th_node_id t m'"
    using l [of 20] assms(3) by (simp add: th_node_id_def read_area_def)
  moreover have "th_cid_of t m = th_cid_of t m'"
    using l [of 24] assms(4) by (simp add: th_cid_of_def read_area_def MM_CID_OFF_def)
  moreover have "th_slice_ctrl t m = th_slice_ctrl t m'"
    using l [of 28] assms(5) by (simp add: th_slice_ctrl_def read_area_def)
  ultimately show ?thesis by (simp add: readings_def th_cpu_def th_node_of_def)
qed

text \<open>
  C37: the readers of a bound thread rest only on bytes that the kernel keeps up to date: the
  bytes of the area beyond them may be anything, and no reader returns another value. And every
  field that is kept up to date is readable: the node id from a feature size of 24, the
  concurrency id from 28, and \<open>slice_ctrl\<close> exactly when it is live.
\<close>

theorem readers_live:
  assumes "Rseq_init (linux_registration sig) p sysfs w = (Some r, w')"
    and "Rseq_bind (linux_registration sig) q r w1 = (Some t, w2)"
    and "\<forall>i < live_bytes p (fst w). m (th_area t + of_nat i) = m' (th_area t + of_nat i)"
  shows "readings cpu node t m = readings cpu node t m' \<and>
    (th_node_id t m \<noteq> None \<longleftrightarrow> 24 \<le> feature_bytes p) \<and>
    (th_cid_of t m \<noteq> None \<longleftrightarrow> 28 \<le> feature_bytes p) \<and>
    (th_slice_ctrl t m \<noteq> None \<longleftrightarrow> live_bytes p (fst w) = 32)"
proof -
  note f = init_features_exact [OF assms(1)] bind_features [OF assms(2)]
  have "20 \<le> live_bytes p (fst w)" "24 \<le> feature_bytes p \<Longrightarrow> 24 \<le> live_bytes p (fst w)"
    "28 \<le> feature_bytes p \<Longrightarrow> 28 \<le> live_bytes p (fst w)" by (auto simp: live_bytes_def)
  then have "readings cpu node t m = readings cpu node t m'"
    using f by (intro readings_cong [OF assms(3)]) auto
  then show ?thesis using f by (simp add: th_node_id_def th_cid_of_def th_slice_ctrl_def)
qed

theorem readers_live_witness:
  "readings 0 (0, 0) (Thread_new 0x1000 True True False) (\<lambda>_. 0) =
     readings 0 (0, 0) (Thread_new 0x1000 True True False) ((\<lambda>_. 0)(0x101c := 7))"
proof -
  have "live_bytes platform0 (fst world0) = 28"
    by (simp add: live_bytes_def feature_bytes_def platform0_def)
  moreover have "(0x1000::u64) + of_nat i \<noteq> 0x101c" if "i < 28" for i
  proof
    assume "(0x1000::u64) + of_nat i = 0x101c"
    then have "of_nat i = (0x101c - 0x1000 :: u64)" by (simp add: eq_diff_eq add.commute)
    from of_nat_inverse [OF this] that show False by simp
  qed
  ultimately show ?thesis
    using readers_live [OF init0 first_bind0, where m = "\<lambda>_. 0" and m' = "(\<lambda>_. 0)(0x101c := 7)"
        and cpu = 0 and node = "(0, 0)"] by (simp add: Thread_new_def)
qed

text \<open>
  \<open>fence\<close> makes no system call for a CPU that is not below the count, and is otherwise the
  process-wide fence of that CPU.
\<close>

lemma rseq_fence_range:
  "Rseq_fence sys r cpu st k =
    (if unat (CpuId_get cpu) < unat (rs_cpus r) \<and> unat (CpuId_get cpu) < 2 ^ 31
     then mb_run sys PRIVATE_EXPEDITED_RSEQ FLAG_CPU (CpuId_get cpu) st k else (False, st, k))"
  by (auto simp: Rseq_fence_def mb_fence_def word_less_nat_alt)

text \<open>
  C32: from the list of CPUs in sysfs to the words: when the kernel's list is shorter than the
  buffer of 256 bytes and \<open>new\<close> and \<open>words\<close> succeed, every CPU that the list names, by itself or in a
  range, is below the count of the \<open>Rseq\<close> (the largest named one plus one), has a word of its own
  in the mapping, aligned and sharing no byte with that of any other CPU, and is passed on to
  \<open>membarrier\<close> by \<open>fence\<close>.
\<close>

theorem every_listed_cpu_has_word:
  assumes "length (list_text ps) < BUF" "sysfs BUF = Some (take BUF (bytes_of (list_text ps @ [10])))"
    and "Rseq_new R p sysfs None w = (Some r, st, w')" "mmap_ok mmap" "Rseq_words mmap r = Some ws"
    and "part \<in> set ps" "in_part cpu part"
  shows "checked_add (Max (part_last ` set ps)) 1 = Some (Rseq_cpus r) \<and> cpu < Rseq_cpus r \<and>
    (\<exists>v. Words_get CpuId_kind ws (CpuId cpu) = Some v \<and> key v = CpuId cpu \<and> aligned 8 (word v) \<and>
      (case Words_drop ws of None \<Rightarrow> False
       | Some (base, len) \<Rightarrow> unat base \<le> unat (word v) \<and> unat (word v) + 8 \<le> unat base + unat len) \<and>
      (\<forall>c u. Words_get CpuId_kind ws c = Some u \<longrightarrow> c \<noteq> CpuId cpu \<longrightarrow> separate (word v) 8 (word u) 8)) \<and>
    Rseq_fence sys r (CpuId cpu) mb k = mb_fence sys (CpuId cpu) mb k"
proof -
  have ne: "ps \<noteq> []" using assms(6) by auto
  have "Rseq_init R p sysfs w = (Some r, w')" using assms(3) by (simp add: Rseq_new_def split: prod.splits)
  then have n: "checked_add (Max (part_last ` set ps)) 1 = Some (rs_cpus r)"
    using Rseq_init_cpus possible_of_list [of ps sysfs, OF ne assms(1,2)] by metis
  have c: "cpu < rs_cpus r" by (rule listed_below [OF assms(6,7) n])
  note W = assms(5) [unfolded Rseq_words_def] and L = cpu_index.index_laws_axioms
  have ok: "region_ok ws" "cpus ws = rs_cpus r" using Words_new_ok [OF assms(4) W] by blast+
  have "\<not> rs_cpus r \<le> cpu" using c by (simp only: not_le)
  then obtain v where v: "Words_get CpuId_kind ws (CpuId cpu) = Some v"
    using ok(2) by (simp add: Words_get_def CpuId_kind_def)
  show ?thesis using n c v word_in_mapping [OF assms(4) L W v] cpu_index.get_separate [OF ok(1) v]
    by (auto simp: Rseq_cpus_def Rseq_fence_def)
qed

text \<open>The four CPUs of the process above: the third has a word.\<close>

lemma text0: "list_text [Range 0 3] = [48, 45, 51]"
  by (simp add: dec.simps)

lemma words0: "\<exists>ws. Rseq_words mmap0 rseq0 = Some ws"
  by (simp add: Rseq_words_def rseq0_def Words_new_def Region_map_def checked_mul_def div_ceil_def
      WORD_SIZE_def PAGE_def mmap0_def MAP_FAILED_def Let_def)

theorem every_listed_cpu_has_word_witness:
  "\<exists>ws v. Rseq_words mmap0 rseq0 = Some ws \<and> Words_get CpuId_kind ws (CpuId 2) = Some v \<and> aligned 8 (word v)"
proof -
  have f: "length (list_text [Range 0 3]) < BUF"
    "sysfs0 BUF = Some (take BUF (bytes_of (list_text [Range 0 3] @ [10])))"
    unfolding text0 by (simp_all add: sysfs0_def BUF_def bytes_of_def)
  have n: "Rseq_new (linux_registration SIG_x86_64) platform0 sysfs0 None world0 = (Some rseq0, Some (Some rseq0), world1)"
    by (simp add: Rseq_new_def init0)
  obtain ws where ws: "Rseq_words mmap0 rseq0 = Some ws" using words0 by blast
  have "Range 0 3 \<in> set [Range 0 3]" "in_part 2 (Range 0 3)" by (simp_all add: word_le_nat_alt)
  from every_listed_cpu_has_word [OF f n mmap0_ok ws this, THEN conjunct2, THEN conjunct2, THEN conjunct1] ws
  show ?thesis by blast
qed

text \<open>
  The region that \<open>words\<close> maps has a word for every CPU that is possible, and for no
  other.
\<close>

lemma rseq_words_cover:
  assumes "mmap_ok mmap" "Rseq_init R p sysfs w = (Some r, w')" "Rseq_words mmap r = Some ws"
  shows "(Words_get CpuId_kind ws c \<noteq> None \<longleftrightarrow> unat (CpuId_get c) < unat (rs_cpus r)) \<and>
    Cpus_possible sysfs = Some (rs_cpus r)"
proof -
  have "cpus ws = rs_cpus r"
    using Words_new_ok [OF assms(1) assms(3) [unfolded Rseq_words_def]] by blast
  then show ?thesis using Rseq_init_cpus [OF assms(2)]
    by (auto simp: Words_get_def CpuId_kind_def Let_def word_le_nat_alt)
qed

text \<open>
  C39: without glibc's area and with an unreadable CPU list, \<open>new\<close> in a new thread registers the
  thread's slot with the kernel and then returns \<open>None\<close>: the process is left with a registered
  area and without an \<open>Rseq\<close>. \<open>new\<close> keeps returning \<open>None\<close>, also when the list has become
  readable, and until the slot is dropped at the end of the thread the kernel refuses any other
  area for it.
\<close>

theorem rseq_new_registers_and_fails:
  assumes "aligned 32 slot" "slot \<noteq> 0"
    and "sys_rseq p = rseq2 c" "tls_slot p = Some slot"
    and "Cpus_possible sysfs = None" "glibc_area_info p (fst (thread_start slot m)) = None"
  shows "\<exists>w. Rseq_new (linux_registration sig) p sysfs None (thread_start slot m) = (None, Some None, w) \<and>
    snd w = Some (slot, 32, sig) \<and> cpu_id (read_area (fst w) slot) = c \<and>
    Rseq_new (linux_registration sig) p sysfs' (Some None) w = (None, Some None, w) \<and>
    (ptr \<noteq> slot \<longrightarrow> sys_rseq p ptr len 0 sig' w = ((- 1, EINVAL), w)) \<and>
    snd (Registration_drop sig p slot w) = None"
  unfolding Rseq_new_def Rseq_init_def
  using assms(5,6) bind_fresh [OF assms(1-4), of sig m]
  by (simp add: linux_registration_def assms(3) rseq2_def FLAG_UNREGISTER_def Registration_drop_def
      area_size_32)

theorem rseq_new_registers_and_fails_witness:
  "\<exists>w. Rseq_new (linux_registration SIG_x86_64) platform0 (\<lambda>_. None) None world0 = (None, Some None, w) \<and>
     snd w = Some (0x1000, 32, SIG_x86_64) \<and>
     Rseq_new (linux_registration SIG_x86_64) platform0 sysfs0 (Some None) w = (None, Some None, w)"
proof -
  have h: "aligned 32 0x1000" "(0x1000::u64) \<noteq> 0" "sys_rseq platform0 = rseq2 3"
    "tls_slot platform0 = Some 0x1000" "Cpus_possible (\<lambda>_. None) = None"
    "glibc_area_info platform0 (fst (thread_start 0x1000 (\<lambda>_. 0))) = None"
    by (simp_all add: platform0_def aligned_def Cpus_possible_def glibc_area_info_def)
  show ?thesis
    using rseq_new_registers_and_fails [OF h, where sig = SIG_x86_64 and sysfs' = sysfs0]
    unfolding world0_def by blast
qed

text \<open>
  On a target without a critical section there is no \<open>Rseq\<close>: \<open>new\<close> returns \<open>None\<close>, and
  neither the kernel nor libc is said to offer one; nothing is changed.
\<close>

lemma rseq_unsupported:
  assumes "\<not> supported os arch"
  shows "Rseq_new (registration_of os arch) p sysfs None w = (None, Some None, w) \<and>
    Rseq_available (registration_of os arch) p q w = (False, w)"
  using assms by (cases q)
    (auto simp: supported_def registration_of_def Rseq_new_def Rseq_init_def Rseq_available_def
      fallback_registration_defs)

end
