(* ===== verification/Program.thy ===== *)
theory Program
  imports Buffers Rseq
begin

text \<open>
  Whole programs: threads with their areas, a word region from \<open>Words::new\<close>, and the callers of
  \<open>tests/stress.rs\<close>, which count their successes and compare the count with the words in the
  end.
\<close>

section \<open>Programs on a word region\<close>

text \<open>
  The words of an index are the word that \<open>get\<close> gives for it and, for the callers that need one,
  a word of their own per index (the \<open>sides\<close> of the test).
\<close>

definition words_home :: "'k index_kind \<Rightarrow> words \<Rightarrow> (u32 \<Rightarrow> u64 set) \<Rightarrow> nat \<Rightarrow> u32 \<Rightarrow> u64 set" where
  "words_home K ws sides k x = (if k \<noteq> OFF K then {} else
     {word w | w. Words_get K ws (key w) = Some w \<and> get K (key w) = x} \<union> sides x)"

text \<open>
  The calls of the test: \<open>unique_add\<close>, \<open>unique_compare_exchange\<close>, \<open>unique_store_if\<close>, and
  \<open>unique_compare_exchange_if\<close>, each on the word of a key that the caller has picked.
\<close>

definition stress_call :: "'k index_kind \<Rightarrow> words \<Rightarrow> (u32 \<Rightarrow> u64 set) \<Rightarrow> 'k word_ref \<Rightarrow> cs_op \<Rightarrow> bool" where
  "stress_call K ws sides w p \<longleftrightarrow> Words_get K ws (key w) = Some w \<and>
     (p = Fetch_add (word w) 1 \<or>
      (\<exists>e. p = Compare_exchange (word w) e (e + 1)) \<or>
      (\<exists>e. p = Compare_exchange_if (word w) e (e + 1) (word w) e) \<or>
      (\<exists>e s. s \<in> sides (get K (key w)) \<and> p = Store_if (word w) e (e + 1) s e))"

definition stress_config :: "'j blocks \<Rightarrow> 'k index_kind \<Rightarrow> thread list \<Rightarrow> words \<Rightarrow>
    (u32 \<Rightarrow> u64 set) \<Rightarrow> 'j config" where
  "stress_config B K ts ws sides = \<lparr>c_blocks = B, c_area = (\<lambda>i. th_area (ts ! i)),
     c_threads = length ts, c_home = words_home K ws sides,
     c_calls = (\<lambda>c. \<exists>t\<in>set ts. \<exists>w p. stress_call K ws sides w p \<and> c = word_call K t w p),
     c_inv = (\<lambda>_. True)\<rparr>"

text \<open>
  The threads have different areas, and these, the mapping and the other words do not overlap.
\<close>

definition apart :: "thread list \<Rightarrow> words \<Rightarrow> (u32 \<Rightarrow> u64 set) \<Rightarrow> bool" where
  "apart ts ws sides \<longleftrightarrow>
     (\<forall>i<length ts. \<forall>j<length ts. i \<noteq> j \<longrightarrow> separate (th_area (ts ! i)) 32 (th_area (ts ! j)) 32) \<and>
     (case Words_drop ws of None \<Rightarrow> False | Some (base, len) \<Rightarrow>
       (\<forall>t\<in>set ts. separate (th_area t) 32 base (unat len)) \<and>
       (\<forall>x. \<forall>s\<in>sides x. separate s 8 base (unat len))) \<and>
     (\<forall>x. \<forall>s\<in>sides x. (\<forall>t\<in>set ts. separate (th_area t) 32 s 8) \<and>
       (\<forall>y. \<forall>r\<in>sides y. if s = r then x = y else separate s 8 r 8))"

context index_laws
begin

text \<open>A word is inside the mapping.\<close>

lemma word_inside:
  assumes "mmap_ok mmap" "Words_new mmap n = Some ws" "Words_get K ws k = Some w"
    and "Words_drop ws = Some (base, len)" "separate a i base (unat len)"
  shows "separate a i (word w) 8"
proof -
  obtain l where ws: "ws = \<lparr>region = Mapped (mmap l) l, cpus = n\<rparr>" "8 * unat n \<le> unat l"
    using Words_new_Some [OF assms(2)] by blast
  have b: "base = mmap l" "len = l" using assms(4) ws(1) by (auto simp: Words_drop_def)
  have w: "unat (word w) = unat base + 8 * unat (get K k)" "unat (word w) + 8 \<le> unat base + 8 * unat n"
    using get_word [OF _ assms(3)] Words_new_ok [OF assms(1,2)] ws b by auto
  have "word w = of_nat (unat (word w))" by simp
  also have "\<dots> = base + of_nat (8 * unat (get K k))" unfolding w(1) by simp
  finally have "word w = base + of_nat (8 * unat (get K k))" .
  moreover have "separate (base + of_nat (8 * unat (get K k))) 8 a i"
    by (rule separate_sub [OF separate_sym [OF assms(5)]]) (use w ws(2) b(2) in simp)
  ultimately show ?thesis by (simp add: separate_sym)
qed

text \<open>The words of different indices, and what the callers keep beside them, do not overlap.\<close>

lemma not_self_separate: "\<not> separate a 8 a 8"
  by (simp only: separate_def) (metis zero_less_numeral)

lemma region_words_apart:
  assumes "mmap_ok mmap" "Words_new mmap n = Some ws"
    and "Words_get K ws (key v) = Some v" "Words_get K ws (key w) = Some w"
  shows "if word v = word w then get K (key v) = get K (key w) else separate (word v) 8 (word w) 8"
proof (cases "key v = key w")
  case True
  with assms(3,4) have "Some v = Some w" by metis
  then show ?thesis by simp
next
  case False
  have "region_ok ws" using Words_new_ok [OF assms(1,2)] by (rule conjunct1)
  from get_separate [OF this assms(3,4) False] have s: "separate (word v) 8 (word w) 8" .
  moreover have "word v \<noteq> word w" using s not_self_separate by metis
  ultimately show ?thesis by simp
qed

lemma words_homeE:
  assumes "a \<in> words_home K ws sides k x"
  obtains (word) v where "a = word v" "Words_get K ws (key v) = Some v" "get K (key v) = x" "k = OFF K"
    | (side) "a \<in> sides x" "k = OFF K"
  using assms unfolding words_home_def by (auto split: if_splits)

lemma words_home_separate:
  assumes W: "mmap_ok mmap" "Words_new mmap n = Some ws" "apart ts ws sides"
    and d: "Words_drop ws = Some (base, len)"
    and a: "a \<in> words_home K ws sides k x" and b: "b \<in> words_home K ws sides k' x'"
  shows "if a = b then k = k' \<and> x = x' else separate a 8 b 8"
proof -
  have side: "separate s 8 (word w) 8" if "s \<in> sides x" "Words_get K ws k = Some w" for s x k w
    by (rule word_inside [OF W(1,2) that(2) d]) (use W(3) d that(1) in \<open>auto simp: apart_def\<close>)
  have sides: "if s = r then x = y else separate s 8 r 8" if "s \<in> sides x" "r \<in> sides y" for s r x y
    using W(3) that unfolding apart_def by blast
  from a show ?thesis
  proof (cases rule: words_homeE)
    case v: (word v)
    from b show ?thesis
    proof (cases rule: words_homeE)
      case (word w)
      then show ?thesis using region_words_apart [OF W(1,2) v(2) word(2)] v by auto
    next
      case s: side
      then show ?thesis using separate_sym [OF side [OF s(1) v(2)]] not_self_separate v by auto
    qed
  next
    case s: side
    from b show ?thesis
    proof (cases rule: words_homeE)
      case (word w)
      then show ?thesis using side [OF s(1) word(2)] not_self_separate by auto
    next
      case s': side
      then show ?thesis using sides [OF s(1) s'(1)] s by auto
    qed
  qed
qed

lemma stress_layout:
  assumes "mmap_ok mmap" "Words_new mmap n = Some ws" "apart ts ws sides"
  shows "layout_ok (stress_config B K ts ws sides)"
proof -
  obtain base len where d: "Words_drop ws = Some (base, len)"
    using assms(3) by (auto simp: apart_def split: option.splits)
  have "separate (th_area t) 32 a 8" if "a \<in> words_home K ws sides k x" "t \<in> set ts" for t a k x
    using that(1)
  proof (cases rule: words_homeE)
    case (word w)
    show ?thesis unfolding word(1)
      by (rule word_inside [OF assms(1,2) word(2) d]) (use assms(3) d that(2) in \<open>simp add: apart_def\<close>)
  next
    case side
    then show ?thesis using assms(3) that(2) unfolding apart_def by blast
  qed
  then have "\<forall>k x. \<forall>a\<in>words_home K ws sides k x. \<forall>i<length ts. separate (th_area (ts ! i)) 32 a 8"
    using nth_mem by blast
  moreover have "\<forall>k x k' x'. \<forall>a\<in>words_home K ws sides k x. \<forall>b\<in>words_home K ws sides k' x'.
      if a = b then k = k' \<and> x = x' else separate a 8 b 8"
    using words_home_separate [OF assms d] by blast
  moreover have "\<forall>i<length ts. \<forall>j<length ts. i \<noteq> j \<longrightarrow> separate (th_area (ts ! i)) 32 (th_area (ts ! j)) 32"
    using assms(3) by (simp add: apart_def)
  ultimately show ?thesis unfolding layout_ok_def stress_config_def config.simps by (intro conjI)
qed

lemma stress_calls:
  assumes "mmap_ok mmap" "Words_new mmap n = Some ws" "apart ts ws sides" "stress_call K ws sides w p"
  shows "set (footprint p m) \<subseteq> words_home K ws sides (OFF K) (get K (key w)) \<and> side_apart p \<and>
    increment p = Some (word w, 1) \<and> (\<forall>x. scratch p = Some x \<longrightarrow> fst x \<in> sides (get K (key w)))"
proof -
  obtain base len where d: "Words_drop ws = Some (base, len)"
    using assms(3) by (auto simp: apart_def split: option.splits)
  have w: "Words_get K ws (key w) = Some w" using assms(4) by (simp add: stress_call_def)
  have "separate s 8 (word w) 8" if "s \<in> sides x" for s x
    by (rule word_inside [OF assms(1,2) w d]) (use assms(3) d that in \<open>auto simp: apart_def\<close>)
  then show ?thesis using assms(4) by (auto simp: stress_call_def words_home_def)
qed

lemma side_no_word:
  assumes "mmap_ok mmap" "Words_new mmap n = Some ws" "apart ts ws sides"
    and "s \<in> sides x" "Words_get K ws k = Some w"
  shows "s \<noteq> word w"
proof -
  obtain base len where d: "Words_drop ws = Some (base, len)"
    using assms(3) by (auto simp: apart_def split: option.splits)
  have "separate s 8 (word w) 8"
    by (rule word_inside [OF assms(1,2,5) d]) (use assms(3,4) d in \<open>auto simp: apart_def\<close>)
  then show ?thesis by (simp only: separate_def) (metis zero_less_numeral)
qed

lemma stress_ok:
  assumes "mmap_ok mmap" "Words_new mmap n = Some ws" "apart ts ws sides"
  shows "calls_ok (stress_config B K ts ws sides)"
    and "Words_get K ws k = Some v \<Longrightarrow> counts_on (stress_config B K ts ws sides) (word v)"
proof -
  note c = stress_calls [OF assms]
  show "calls_ok (stress_config B K ts ws sides)"
    using c off_ok by (fastforce simp: calls_ok_def stress_config_def)
  assume v: "Words_get K ws k = Some v"
  have side: "fst x \<noteq> word v" if "stress_call K ws sides w p" "scratch p = Some x" for w p x
    using side_no_word [OF assms _ v] c [OF that(1)] that(2) by blast
  then show "counts_on (stress_config B K ts ws sides) (word v)"
    unfolding counts_on_def stress_config_def config.simps
  proof (intro allI impI, elim bexE exE conjE)
    fix c t w p assume h: "stress_call K ws sides w p" "c = word_call K t w p"
    show "increment (oper c) \<noteq> None \<and>
        (case scratch (oper c) of None \<Rightarrow> True | Some x \<Rightarrow> fst x \<noteq> word v)"
      using c [OF h(1)] side [OF h(1)] unfolding h(2) by (auto split: option.splits)
  qed
qed

end

section \<open>The sum in the end\<close>

text \<open>\<open>sum_words\<close> of the test: all words of the region, by the keys of their indices.\<close>

definition sum_words :: "'k index_kind \<Rightarrow> (u32 \<Rightarrow> 'k) \<Rightarrow> words \<Rightarrow> mem \<Rightarrow> u64" where
  "sum_words K mk ws m = (\<Sum>i<unat (cpus ws).
     case Words_get K ws (mk (of_nat i)) of None \<Rightarrow> 0 | Some w \<Rightarrow> load64 m (word w))"

lemma Words_get_key: "Words_get K ws k = Some w \<Longrightarrow> key w = k"
  by (auto simp: Words_get_def Let_def Word_new_def split: if_splits)

lemma set_oks: "c \<in> set (oks l) \<Longrightarrow> \<exists>tr v. (c, tr, AOk v) \<in> set l"
  by (induction l rule: oks.induct) (auto split: attempt.splits)

lemma sum_sum_list: "(\<Sum>i\<in>A. sum_list (map (f i) l)) = sum_list (map (\<lambda>c. \<Sum>i\<in>A. f i c) l)"
  by (induction l) (simp_all add: sum.distrib)

text \<open>Every call of the test counts once over all words.\<close>

lemma amounts_one:
  assumes "index_laws K" "\<forall>i. get K (mk i) = i" "mmap_ok mmap" "Words_new mmap n = Some ws"
    and "apart ts ws sides" "c_calls (stress_config B K ts ws sides) c"
    and a: "\<And>i. i < unat (cpus ws) \<Longrightarrow> Words_get K ws (mk (of_nat i)) = Some (a i)"
  shows "(\<Sum>i<unat (cpus ws). amount (word (a i)) c) = 1"
proof -
  have r: "region_ok ws" using Words_new_ok [OF assms(3,4)] by (rule conjunct1)
  obtain t w p where c: "stress_call K ws sides w p" "c = word_call K t w p"
    using assms(6) by (auto simp: stress_config_def)
  have w: "Words_get K ws (key w) = Some w" using c(1) by (simp add: stress_call_def)
  have p: "increment p = Some (word w, 1)"
    using index_laws.stress_calls [OF assms(1,3-5) c(1)] by blast
  let ?j = "unat (get K (key w))"
  have j: "?j < unat (cpus ws)"
    using w by (simp add: Words_get_def Let_def word_less_nat_alt not_le split: if_splits)
  have "amount (word (a i)) c = (if i = ?j then 1 else 0)" if i: "i < unat (cpus ws)" for i
  proof -
    have "unat (of_nat i :: u32) = i" using i unat_u32_bound [of "cpus ws"] by (simp add: unat_of_nat)
    then have "unat (word (a i)) = unat (Region_base (region ws)) + 8 * i"
      using index_laws.get_word [OF assms(1) r a [OF i]] assms(2) by simp
    then have "word w = word (a i) \<longleftrightarrow> i = ?j"
      using index_laws.get_word [OF assms(1) r w] by (auto simp: word_unat_eq_iff)
    then show ?thesis using p c(2) by (simp add: amount_def)
  qed
  then show ?thesis using j by simp
qed

text \<open>The sum of the words in any state with the invariant, when no thread is in a call.\<close>

lemma inv_stress_sum:
  assumes K: "index_laws K" "\<forall>i. get K (mk i) = i"
    and ws: "mmap_ok mmap" "Words_new mmap n = Some ws" "apart ts ws sides"
    and inv: "sys_inv (stress_config B K ts ws sides) T mi s" and idle: "\<forall>i<length ts. thr s i = None"
  shows "sum_words K mk ws (shared s) = sum_words K mk ws mi + of_nat (length (oks (rets s)))"
proof -
  let ?C = "stress_config B K ts ws sides" and ?I = "{..<unat (cpus ws)}"
  have C: "\<forall>i<c_threads ?C. thr s i = None" using idle by (simp add: stress_config_def)
  have "c_inv ?C mi" by (simp add: stress_config_def)
  note L = index_laws.stress_layout [OF K(1) ws, of B] index_laws.stress_ok(1) [OF K(1) ws, of B] this
  have "\<exists>w. Words_get K ws (mk (of_nat i)) = Some w" if "i < unat (cpus ws)" for i
    using that K(2) unat_u32_bound [of "cpus ws"]
    by (simp add: Words_get_def Let_def word_le_nat_alt unat_of_nat)
  then obtain a where a: "Words_get K ws (mk (of_nat i)) = Some (a i)" if "i < unat (cpus ws)" for i by metis
  have key: "key (a i) = mk (of_nat i)" if "i < unat (cpus ws)" for i
    by (rule Words_get_key [OF a [OF that]])
  have one: "(\<Sum>i\<in>?I. amount (word (a i)) c) = 1" if "c \<in> set (oks (rets s))" for c
    using amounts_one [OF K ws _ a] inv set_oks [OF that] by (fastforce simp: returned_ok_def)
  have "load64 (shared s) (word (a i)) =
      load64 mi (word (a i)) + sum_list (map (amount (word (a i))) (oks (rets s)))"
    if i: "i \<in> ?I" for i
  proof (rule inv_adds_sum [OF inv L _ C])
    show "counts_on ?C (word (a i))" using index_laws.stress_ok(2) [OF K(1) ws] a i by blast
    show "word (a i) \<in> c_home ?C (OFF K) (get K (key (a i)))"
      using a key i by (auto simp: stress_config_def words_home_def)
  qed
  then have "(\<Sum>i\<in>?I. load64 (shared s) (word (a i))) = (\<Sum>i\<in>?I. load64 mi (word (a i))) +
      sum_list (map (\<lambda>c. \<Sum>i\<in>?I. amount (word (a i)) c) (oks (rets s)))"
    by (simp add: sum.distrib sum_sum_list)
  also have "map (\<lambda>c. \<Sum>i\<in>?I. amount (word (a i)) c) (oks (rets s)) = map (\<lambda>c. 1) (oks (rets s))"
    using one by simp
  finally show ?thesis by (simp add: sum_words_def a sum_list_triv)
qed

lemma stress_system:
  assumes "index_laws K" "mmap_ok mmap" "Words_new mmap n = Some ws" "apart ts ws sides"
  shows "c_blocks (stress_config B K ts ws sides) = B" "layout_ok (stress_config B K ts ws sides)"
    "calls_ok (stress_config B K ts ws sides)" "c_inv (stress_config B K ts ws sides) mi"
  using index_laws.stress_layout [OF assms] index_laws.stress_ok(1) [OF assms]
  by (simp_all add: stress_config_def)

text \<open>On sequentially consistent memory.\<close>

lemma stress_sum:
  assumes B: "block_module B T" and K: "index_laws K" "\<forall>i. get K (mk i) = i"
    and ws: "mmap_ok mmap" "Words_new mmap n = Some ws" "apart ts ws sides"
    and s: "reachable (stress_config B K ts ws sides) (idle mi) s" "\<forall>i<length ts. thr s i = None"
  shows "sum_words K mk ws (shared s) = sum_words K mk ws mi + of_nat (length (oks (rets s)))"
  by (rule inv_stress_sum [OF K ws block_module.reachable_inv [OF B s(1) stress_system [OF K(1) ws]] s(2)])

text \<open>
  C13: the assertion of the stress tests. Threads run additions of one, compare-exchanges and
  conditional stores from \<open>e\<close> to \<open>e + 1\<close>, and double compare-exchanges on the words of a new
  region, each on the word of the key it has read, under any scheduling, and with stores that
  are held back in buffers and reordered; when all have returned and the buffers are empty, the
  sum of the words has grown by the number of calls that returned a success.
\<close>

theorem stress_sum_buffered:
  assumes B: "block_module B T" and K: "index_laws K" "\<forall>i. get K (mk i) = i"
    and ws: "mmap_ok mmap" "Words_new mmap n = Some ws" "apart ts ws sides"
    and s: "buf_reachable (stress_config B K ts ws sides) (idle mi, \<lambda>_. []) (s, b)"
    and idle: "\<forall>i<length ts. thr s i = None \<and> b i = []"
  shows "sum_words K mk ws (shared s) = sum_words K mk ws mi + of_nat (length (oks (rets s)))"
proof -
  obtain F where "buf_inv (stress_config B K ts ws sides) T mi (s, b) F"
    using block_module.buf_reachable_inv [OF B s stress_system [OF K(1) ws]] by blast
  from inv_stress_sum [OF K ws empty_inv [OF this]] show ?thesis
    using idle by (simp add: stress_config_def)
qed

definition stress_threads :: "thread list" where
  "stress_threads = [Thread_new 0x1000 True True False, Thread_new 0x1100 True True False]"

definition stress_words :: words where
  "stress_words = \<lparr>region = Mapped 0x10000 4096, cpus = 4\<rparr>"

lemma stress_words_new: "Words_new mmap0 4 = Some stress_words"
  by (simp add: Words_new_def Region_map_def checked_mul_def div_ceil_def WORD_SIZE_def PAGE_def
      mmap0_def MAP_FAILED_def Let_def stress_words_def)

lemma stress_apart: "apart stress_threads stress_words (\<lambda>_. {})"
proof -
  have "separate 0x1000 32 0x1100 32" "separate 0x1000 32 0x10000 4096" "separate 0x1100 32 0x10000 4096"
    by (rule separate_below; simp)+
  then show ?thesis
    by (auto simp: apart_def stress_threads_def stress_words_def Words_drop_def Thread_new_def
        less_Suc_eq dest: separate_sym)
qed

text \<open>The first thread adds one to the word of CPU 1.\<close>

theorem stress_sum_buffered_witness:
  "\<exists>s. buf_reachable (stress_config x86_blocks CpuId_kind stress_threads stress_words (\<lambda>_. {}))
      (idle m0, \<lambda>_. []) (s, \<lambda>_. []) \<and>
     length (oks (rets s)) = 1 \<and> sum_words CpuId_kind CpuId stress_words (shared s) = 1"
proof -
  let ?C = "stress_config x86_blocks CpuId_kind stress_threads stress_words (\<lambda>_. {})"
  let ?w = "Word_new 0x10008 (CpuId 1)" and ?p = "Fetch_add 0x10008 1"
  let ?c = "word_call CpuId_kind (hd stress_threads) ?w ?p"
  have w: "stress_call CpuId_kind stress_words (\<lambda>_. {}) ?w ?p"
    by (simp add: stress_call_def Words_get_def stress_words_def CpuId_kind_def Word_new_def
        Region_word_def WORD_SIZE_def word_le_nat_alt)
  have "\<exists>s tr. reachable ?C (idle m0) s \<and> rets s = [(?c, tr, AOk (load64 m0 0x10008))] \<and>
      (\<forall>i. thr s i = None)"
  proof (rule x86_add_reaches [where x = "(1, 1)"])
    show "c_calls ?C ?c" unfolding stress_config_def config.simps
      by (intro bexI exI conjI) (rule w, rule refl, simp add: stress_threads_def)
    show "separate (ar ?c) 32 0x10008 8"
      by (rule separate_below) (simp_all add: stress_threads_def Thread_new_def)
  qed (simp_all add: stress_config_def stress_threads_def id_off_ok_def index_at_def CpuId_kind_def Word_new_def)
  then obtain s tr where s: "reachable ?C (idle m0) s" "rets s = [(?c, tr, AOk (load64 m0 0x10008))]"
      "\<forall>i. thr s i = None" by blast
  have k: "\<forall>i. get CpuId_kind (CpuId i) = i" by (simp add: CpuId_kind_def)
  note sys = stress_system [OF cpu_index.index_laws_axioms mmap0_ok stress_words_new stress_apart]
  have r: "buf_reachable ?C (idle m0, \<lambda>_. []) (s, \<lambda>_. [])" by (rule x86_sys.reachable_buffered [OF s(1) sys])
  from stress_sum_buffered [OF x86_sys.block_module_axioms cpu_index.index_laws_axioms k mmap0_ok
      stress_words_new stress_apart r] s(3)
  have "sum_words CpuId_kind CpuId stress_words (shared s) = sum_words CpuId_kind CpuId stress_words m0 + 1"
    using s(2) by simp
  also have "sum_words CpuId_kind CpuId stress_words m0 = 0"
    by (auto simp: sum_words_def m0_def intro!: sum.neutral split: option.splits)
  finally show ?thesis using r s(2) by (intro exI [of _ s]) simp
qed

end
