(* ===== verification/Fence.thy ===== *)
theory Fence
  imports Program
begin

text \<open>
  Interruptions and fences in a system of threads. A thread that is interrupted inside its
  critical section goes on at the abort handler, so a fence, which interrupts the thread that
  runs on a CPU (\<open>Rseq::fence\<close>, \<open>membarrier\<close> of the kernel), leaves no thread inside a section
  on that CPU: what runs there next has read the index and the words after the fence.
\<close>

section \<open>Stopping and resuming one thread\<close>

definition stop_at :: "nat \<Rightarrow> sys \<Rightarrow> sys" where
  "stop_at i s = s\<lparr>on := (on s)(i := None),
     thr := (thr s)(i := map_option (\<lambda>t. t\<lparr>t_st := (t_st t)\<lparr>mem := shared s\<rparr>\<rparr>) (thr s i))\<rparr>"

definition resume_at :: "'j config \<Rightarrow> nat \<Rightarrow> u32 \<times> u32 \<Rightarrow> sys \<Rightarrow> sys" where
  "resume_at C i x s = s\<lparr>shared := kernel_update (c_area C i) x (shared s), on := (on s)(i := Some x),
     thr := (thr s)(i := map_option (resume_thr (c_blocks C) (c_area C i) x (shared s)) (thr s i))\<rparr>"

text \<open>The interruption by which the kernel serves a fence: the thread goes on where it was.\<close>

definition interrupt_at :: "'j config \<Rightarrow> nat \<Rightarrow> u32 \<times> u32 \<Rightarrow> sys \<Rightarrow> sys" where
  "interrupt_at C i x s = resume_at C i x (stop_at i s)"

text \<open>The threads that run on a CPU, and those of them that are inside their sections.\<close>

definition in_section :: "'j blocks \<Rightarrow> thr option \<Rightarrow> bool" where
  "in_section B u = (case u of None \<Rightarrow> False
     | Some t \<Rightarrow> in_cs (b_prog B (t_call t)) (pc (t_st t)))"

lemma stop_step: "i < c_threads C \<Longrightarrow> on s i = Some x \<Longrightarrow> sys_step C s (stop_at i s)"
  unfolding stop_at_def by (rule stop)

lemma resume_step:
  "i < c_threads C \<Longrightarrow> on s i = None \<Longrightarrow>
    (\<forall>j<c_threads C. \<forall>y. on s j = Some y \<longrightarrow> fst y \<noteq> fst x \<and> snd y \<noteq> snd x) \<Longrightarrow>
    sys_step C s (resume_at C i x s)"
  unfolding resume_at_def by (rule resume)

lemma reachable_trans: "reachable C s' s'' \<Longrightarrow> reachable C s s' \<Longrightarrow> reachable C s s''"
  by (induction rule: reachable.induct) (auto intro: reachable.one)

lemma interrupt_reaches:
  assumes "indexed C s" "i < c_threads C" "on s i = Some x"
  shows "reachable C s (interrupt_at C i x s)"
proof -
  have r: "reachable C s (stop_at i s)"
    by (rule reachable.one [OF reachable.start stop_step [OF assms(2,3)]])
  have "on (stop_at i s) i = None" by (simp add: stop_at_def)
  moreover have "\<forall>j<c_threads C. \<forall>y. on (stop_at i s) j = Some y \<longrightarrow> fst y \<noteq> fst x \<and> snd y \<noteq> snd x"
  proof (intro allI impI)
    fix j y assume j: "j < c_threads C" "on (stop_at i s) j = Some y"
    then have "j \<noteq> i" "on s j = Some y" by (auto simp: stop_at_def split: if_splits)
    from indexed_apart [OF assms(1) j(1) assms(2) this(1,2) assms(3)]
    show "fst y \<noteq> fst x \<and> snd y \<noteq> snd x" .
  qed
  ultimately show ?thesis
    using reachable.one [OF r resume_step [OF assms(2)]] by (simp add: interrupt_at_def)
qed

text \<open>The thread of an index, and what the interruption leaves on the CPUs.\<close>

lemma interrupt_on: "on s i = Some x \<Longrightarrow> on (interrupt_at C i x s) = on s"
  by (auto simp: interrupt_at_def resume_at_def stop_at_def)

lemma index_holder:
  "indexed C s \<Longrightarrow> i < c_threads C \<Longrightarrow> on s i = Some x \<Longrightarrow> j < c_threads C \<Longrightarrow> on s j = Some y \<Longrightarrow>
    fst y = fst x \<or> snd y = snd x \<Longrightarrow> j = i \<and> y = x"
  using indexed_apart [of C s j i y x] by fastforce

lemma desc_valid_abort: "desc_valid P sig \<Longrightarrow> \<not> in_cs P (unat (abort_ip P))"
  by (simp add: desc_valid_def in_cs_def)

context block_module
begin

text \<open>
  A thread that is in its section, whether it runs or not, has its descriptor installed and has
  not committed.
\<close>

lemma section_inside:
  assumes "reachable C (idle mi) s" and C: "c_blocks C = B" "layout_ok C" "calls_ok C" "c_inv C mi"
    and i: "i < c_threads C" "thr s i = Some t"
    and cs: "in_cs (b_prog B (t_call t)) (pc (t_st t))"
  shows "load64 (shared s) (c_area C i + of_nat CS_OFF) = cs_addr (t_env t)"
    and "commits (t_call t) (t_tr t) = []"
    and "desc_valid (b_prog B (t_call t)) (b_sig B)"
proof -
  let ?c = "t_call t" and ?P = "b_prog B (t_call t)"
  let ?st = "if on s i \<noteq> None then (t_st t)\<lparr>mem := shared s\<rparr> else t_st t"
  have t: "thread_ok C T (shared s) (on s i \<noteq> None) i t"
    using threads_okD [OF _ i] reachable_inv [OF assms(1) C] by fastforce
  note ok = thread_outlined [OF C(1,3) t]
  have h: "thread_holds ?P (T ?c (t_env t)) ?c (t_env t) ?st (t_tr t)" "ar ?c = c_area C i"
    and a: "\<forall>k<32. mem ?st (c_area C i + of_nat k) = shared s (c_area C i + of_nat k)"
    using t C(1) by (auto simp: thread_ok_def Let_def)
  have pc: "pc ?st = pc (t_st t)" by simp
  have nf: "\<not> finished ?P ?st"
    using cs h(1) left [of ?c] pc by (auto simp: thread_holds_def)
  then have k: "pc ?st < length (slots ?P)" and "holds (T ?c (t_env t)) ?st (t_tr t)"
    using h(1) by (simp_all add: thread_holds_def finished_def)
  then have "inside ?c (b_binds B ?c) (t_env t) ?st (t_tr t)"
    using outline_inside [OF ok k] cs pc by (simp add: holds_def)
  then show "load64 (shared s) (c_area C i + of_nat CS_OFF) = cs_addr (t_env t)"
    and "commits ?c (t_tr t) = []"
    using h(2) load_cs_cong [OF a] by (simp_all add: inside_def ready_def)
  show "desc_valid ?P (b_sig B)" by (rule outline_desc [OF ok])
qed

text \<open>A thread that was stopped inside its section is resumed at the abort handler.\<close>

lemma resumed_pc:
  assumes "reachable C (idle mi) s" and C: "c_blocks C = B" "layout_ok C" "calls_ok C" "c_inv C mi"
    and i: "i < c_threads C" "on s i = None" "thr s i = Some t"
    and cs: "in_cs (b_prog B (t_call t)) (pc (t_st t))"
  shows "pc (t_st (resume_thr B (c_area C i) x (shared s) t)) = unat (abort_ip (b_prog B (t_call t)))"
    and "\<not> in_cs (b_prog B (t_call t)) (unat (abort_ip (b_prog B (t_call t))))"
proof -
  note d = section_inside [OF assms(1) C i(1,3) cs]
  show "pc (t_st (resume_thr B (c_area C i) x (shared s) t)) = unat (abort_ip (b_prog B (t_call t)))"
    using cs d(1,3) by (simp add: resume_thr_def Let_def)
  show "\<not> in_cs (b_prog B (t_call t)) (unat (abort_ip (b_prog B (t_call t))))"
    by (rule desc_valid_abort [OF d(3)])
qed

text \<open>The instruction that commits leads out of the section.\<close>

lemma commit_leaves:
  assumes "reachable C (idle mi) s" and C: "c_blocks C = B" "layout_ok C" "calls_ok C" "c_inv C mi"
    and i: "i < c_threads C" "on s i = Some x" "thr s i = Some t"
    and st: "step (b_exec B (alloc (t_env t)) (cs_addr (t_env t))) (b_prog B (t_call t))
      ((t_st t)\<lparr>mem := shared s\<rparr>) = Some (st', w)"
    and "\<not> finished (b_prog B (t_call t)) (t_st t)"
    and w: "commits (t_call t) (t_tr t @ [(shared s, w)]) \<noteq> []"
  shows "\<not> in_cs (b_prog B (t_call t)) (pc st')"
proof
  let ?t = "t\<lparr>t_st := st', t_tr := t_tr t @ [(shared s, w)]\<rparr>"
  let ?s = "s\<lparr>shared := mem st', thr := (thr s)(i := Some ?t), log := log s @ entries (t_call t) w\<rparr>"
  assume cs: "in_cs (b_prog B (t_call t)) (pc st')"
  have "sys_step C s ?s" by (rule own [OF i]) (use assms(10) st C(1) in simp_all)
  then have "reachable C (idle mi) ?s" by (rule reachable.one [OF assms(1)])
  from section_inside(2) [OF this C i(1), of ?t] cs w show False by simp
qed

lemma resumed_outside:
  assumes "reachable C (idle mi) s" "c_blocks C = B" "layout_ok C" "calls_ok C" "c_inv C mi"
    and "i < c_threads C" "on s i = None"
  shows "\<not> in_section B (thr (resume_at C i x s) i)"
proof (cases "thr s i")
  case None
  then show ?thesis by (simp add: in_section_def resume_at_def)
next
  case (Some t)
  have c: "t_call (resume_thr B (c_area C i) x (shared s) t) = t_call t"
    by (simp add: resume_thr_def Let_def)
  show ?thesis
  proof (cases "in_cs (b_prog B (t_call t)) (pc (t_st t))")
    case True
    from resumed_pc [OF assms(1-7) Some this] show ?thesis
      using Some assms(2) c by (simp add: in_section_def resume_at_def)
  next
    case False
    then show ?thesis using Some assms(2) c
      by (simp add: in_section_def resume_at_def) (simp add: resume_thr_def Let_def)
  qed
qed

text \<open>After the interruption no thread on that CPU, or with that concurrency id, is inside.\<close>

lemma interrupted:
  assumes "reachable C (idle mi) s" and C: "c_blocks C = B" "layout_ok C" "calls_ok C" "c_inv C mi"
    and i: "i < c_threads C" "on s i = Some x"
  shows "reachable C s (interrupt_at C i x s)"
    and "\<forall>j<c_threads C. \<forall>y. on (interrupt_at C i x s) j = Some y \<longrightarrow>
      fst y = fst x \<or> snd y = snd x \<longrightarrow> \<not> in_section B (thr (interrupt_at C i x s) j)"
proof -
  have ix: "indexed C s" using reachable_inv [OF assms(1) C] by blast
  show "reachable C s (interrupt_at C i x s)" by (rule interrupt_reaches [OF ix i])
  have r: "reachable C (idle mi) (stop_at i s)" by (rule reachable.one [OF assms(1) stop_step [OF i]])
  have "on (stop_at i s) i = None" by (simp add: stop_at_def)
  from resumed_outside [OF r C i(1) this] have "\<not> in_section B (thr (interrupt_at C i x s) i)"
    by (simp add: interrupt_at_def)
  then show "\<forall>j<c_threads C. \<forall>y. on (interrupt_at C i x s) j = Some y \<longrightarrow>
      fst y = fst x \<or> snd y = snd x \<longrightarrow> \<not> in_section B (thr (interrupt_at C i x s) j)"
    using index_holder [OF ix i] unfolding interrupt_on [OF i(2)] by blast
qed

end

section \<open>Properties\<close>

text \<open>
  C14: a thread that the kernel stopped inside its critical section, on either target, goes on
  at the abort handler of its block when it is resumed, on whatever CPU, and is then outside
  the section: no section is ever continued after an interruption.
\<close>

theorem section_never_continues:
  assumes "block_module B T" "c_blocks C = B" "layout_ok C" "calls_ok C" "c_inv C mi"
    and "reachable C (idle mi) s" "i < c_threads C" "on s i = None"
    and "thr s i = Some t" "in_cs (b_prog B (t_call t)) (pc (t_st t))"
  shows "\<exists>t'. thr (resume_at C i x s) i = Some t' \<and> t_call t' = t_call t \<and> t_tr t' = t_tr t \<and>
    pc (t_st t') = unat (abort_ip (b_prog B (t_call t))) \<and>
    \<not> in_cs (b_prog B (t_call t)) (pc (t_st t'))"
proof -
  note r = block_module.resumed_pc [OF assms(1,6,2-5,7-10)]
  show ?thesis using r assms(2,9) by (simp add: resume_at_def) (simp add: resume_thr_def Let_def)
qed

text \<open>
  C23: sections on either target, in every state that many threads can reach: while a thread is
  between the start and the end of its block's section, whether it runs or is stopped, the address
  of the block's descriptor is in its area, the kernel accepts this descriptor, and the call has
  committed nothing; the instruction that commits leads out of the section; and so a call that has
  committed goes on where it was stopped, on whatever CPU, and is never restarted.
\<close>

theorem section_installed_uncommitted:
  assumes "block_module B T" "c_blocks C = B" "layout_ok C" "calls_ok C" "c_inv C mi"
    and "reachable C (idle mi) s" "i < c_threads C" "thr s i = Some t"
    and "c = t_call t" "P = b_prog B c"
  shows "(in_cs P (pc (t_st t)) \<longrightarrow>
      load64 (shared s) (c_area C i + of_nat CS_OFF) = cs_addr (t_env t) \<and> desc_valid P (b_sig B) \<and>
      commits c (t_tr t) = []) \<and>
    (\<forall>st' w. on s i \<noteq> None \<longrightarrow> \<not> finished P (t_st t) \<longrightarrow>
      step (b_exec B (alloc (t_env t)) (cs_addr (t_env t))) P ((t_st t)\<lparr>mem := shared s\<rparr>) = Some (st', w) \<longrightarrow>
      commits c (t_tr t @ [(shared s, w)]) \<noteq> [] \<longrightarrow> \<not> in_cs P (pc st')) \<and>
    (commits c (t_tr t) \<noteq> [] \<longrightarrow> pc (t_st (resume_thr B (c_area C i) y (shared s) t)) = pc (t_st t))"
proof -
  note d = block_module.section_inside [OF assms(1,6,2-5,7,8)]
  note l = block_module.commit_leaves [OF assms(1,6,2-5,7) _ assms(8)]
  show ?thesis using d l assms(9,10) by (auto simp: resume_thr_def Let_def)
qed

text \<open>
  C15: no thread is ever stuck in the middle of a block, whatever the others and the kernel do:
  in every state the system can reach, a running thread that has not finished can take its next
  instruction, and each leads forward in the block, so it is done after at most as many
  instructions in a row as the block has.
\<close>

theorem blocks_progress:
  assumes "block_module B T" "c_blocks C = B" "layout_ok C" "calls_ok C" "c_inv C mi"
    and "reachable C (idle mi) s" "i < c_threads C" "on s i = Some x" "thr s i = Some t"
    and "\<not> finished (b_prog B (t_call t)) (t_st t)"
  shows "\<exists>st' w. step (b_exec B (alloc (t_env t)) (cs_addr (t_env t))) (b_prog B (t_call t))
      ((t_st t)\<lparr>mem := shared s\<rparr>) = Some (st', w) \<and> pc (t_st t) < pc st' \<and>
    pc st' \<le> length (slots (b_prog B (t_call t)))"
  by (rule block_module.reachable_unstuck [OF assms(1,6,2-5,7-10)])

section \<open>A concrete interruption\<close>

text \<open>The first thread of \<open>config1\<close> has taken four instructions of its addition.\<close>

lemma x86_inside1:
  "\<exists>s t. reachable (config1 x86_blocks) (idle m0) s \<and> on s 0 = Some (1, 1) \<and> thr s 0 = Some t \<and>
     t_call t = call1 \<and> in_cs (b_prog x86_blocks call1) (pc (t_st t)) \<and>
     unat (abort_ip (b_prog x86_blocks call1)) = 2"
proof -
  let ?C = "config1 x86_blocks" and ?m = "kernel_update 0x1000 (1, 1) m0"
  have c: "0 < c_threads ?C" "c_calls ?C call1" "ar call1 = c_area ?C 0"
      "alloc_ok (alloc env0) (b_binds (c_blocks ?C) call1)" "?m = kernel_update (c_area ?C 0) (1, 1) m0"
    by (simp_all add: config1_def call1_def adds1_def x86_blocks_def x86_fetch_add_binds_def
        env0_def plain_env_def)
  have four: "replicate 4 Go = [Go, Go, Go, Go]" by (simp add: numeral_eq_Suc)
  have "\<exists>st' tr'. run (b_exec (c_blocks ?C) (alloc env0) (cs_addr env0)) (b_prog (c_blocks ?C) call1)
      (replicate 4 Go) (entry (b_binds (c_blocks ?C) call1) env0 ?m) [] = Some (st', tr') \<and>
      in_cs (b_prog x86_blocks call1) (pc st') \<and> unat (abort_ip (b_prog x86_blocks call1)) = 2"
    by (simp add: config1_def call1_def x86_blocks_def x86_fetch_add_binds_def env0_def plain_env_def
        link_def x86_fetch_add_asm_def x86_map_def entry_def finished_def step_def in_cs_def Let_def
        four)
  then obtain st' tr' where r: "run (b_exec (c_blocks ?C) (alloc env0) (cs_addr env0))
      (b_prog (c_blocks ?C) call1) (replicate 4 Go) (entry (b_binds (c_blocks ?C) call1) env0 ?m) [] =
      Some (st', tr')" "in_cs (b_prog x86_blocks call1) (pc st')"
      "unat (abort_ip (b_prog x86_blocks call1)) = 2" by blast
  from begin_reaches [OF c r(1)] r(2,3) show ?thesis by (force simp: begin_call_def)
qed

text \<open>There its descriptor is installed, and its commit is still to come.\<close>

theorem section_installed_uncommitted_witness:
  "\<exists>s t. reachable (config1 x86_blocks) (idle m0) s \<and> thr s 0 = Some t \<and> t_call t = call1 \<and>
     in_cs (b_prog x86_blocks call1) (pc (t_st t)) \<and>
     load64 (shared s) (c_area (config1 x86_blocks) 0 + of_nat CS_OFF) = cs_addr (t_env t) \<and>
     commits call1 (t_tr t) = []"
proof -
  let ?C = "config1 x86_blocks"
  have C: "c_blocks ?C = x86_blocks" "0 < c_threads ?C" by (simp_all add: config1_def)
  obtain s t where s: "reachable ?C (idle m0) s" "thr s 0 = Some t" "t_call t = call1"
      "in_cs (b_prog x86_blocks call1) (pc (t_st t))"
    using x86_inside1 by blast
  from section_installed_uncommitted [OF x86_sys.block_module_axioms C(1) config1_layout config1_calls
      config1_inv s(1) C(2) s(2) refl refl] s show ?thesis by metis
qed

text \<open>It can go on from there.\<close>

theorem blocks_progress_witness:
  "\<exists>s t st' w. reachable (config1 x86_blocks) (idle m0) s \<and> thr s 0 = Some t \<and> t_call t = call1 \<and>
     step (b_exec x86_blocks (alloc (t_env t)) (cs_addr (t_env t))) (b_prog x86_blocks call1)
       ((t_st t)\<lparr>mem := shared s\<rparr>) = Some (st', w)"
proof -
  let ?C = "config1 x86_blocks"
  have C: "c_blocks ?C = x86_blocks" "0 < c_threads ?C" by (simp_all add: config1_def)
  obtain s t where s: "reachable ?C (idle m0) s" "on s 0 = Some (1, 1)" "thr s 0 = Some t"
      "t_call t = call1" "in_cs (b_prog x86_blocks call1) (pc (t_st t))"
    using x86_inside1 by blast
  have "thread_ok ?C x86_outline (shared s) True 0 t"
    using threads_okD [OF _ C(2) s(3)] x86_sys.reachable_inv [OF s(1) C(1) config1_layout config1_calls
      config1_inv] s(2) by fastforce
  then have nf: "\<not> finished (b_prog x86_blocks (t_call t)) (t_st t)"
    using s(4,5) x86_sys.left [of call1] C(1)
    by (auto simp: thread_ok_def thread_holds_def finished_def Let_def split: if_splits)
  from blocks_progress [OF x86_sys.block_module_axioms C(1) config1_layout config1_calls config1_inv
      s(1) C(2) s(2,3) nf] s show ?thesis by fastforce
qed

text \<open>It is stopped and resumed on CPU 2.\<close>

theorem section_never_continues_witness:
  "\<exists>s t. reachable (config1 x86_blocks) (idle m0) s \<and>
     thr (resume_at (config1 x86_blocks) 0 (2, 2) s) 0 = Some t \<and> t_call t = call1 \<and> pc (t_st t) = 2"
proof -
  let ?C = "config1 x86_blocks"
  have C: "c_blocks ?C = x86_blocks" "0 < c_threads ?C" by (simp_all add: config1_def)
  obtain s t where s: "reachable ?C (idle m0) s" "on s 0 = Some (1, 1)" "thr s 0 = Some t"
      "t_call t = call1" "in_cs (b_prog x86_blocks call1) (pc (t_st t))"
      "unat (abort_ip (b_prog x86_blocks call1)) = 2"
    using x86_inside1 by blast
  let ?u = "t\<lparr>t_st := (t_st t)\<lparr>mem := shared s\<rparr>\<rparr>"
  have r: "reachable ?C (idle m0) (stop_at 0 s)"
    by (rule reachable.one [OF s(1) stop_step [OF C(2) s(2)]])
  have u: "on (stop_at 0 s) 0 = None" "thr (stop_at 0 s) 0 = Some ?u"
    "in_cs (b_prog x86_blocks (t_call ?u)) (pc (t_st ?u))"
    using s(3-5) by (simp_all add: stop_at_def)
  from section_never_continues [OF x86_sys.block_module_axioms C(1) config1_layout config1_calls
      config1_inv r C(2) u] s(4,6) r show ?thesis by force
qed

end
