(* ===== verification/Expedited.thy ===== *)
theory Expedited
  imports Fence
begin

text \<open>
  The fences of \<open>src/rseq.rs\<close> and \<open>src/membarrier.rs\<close> over a running system of threads: what
  \<open>membarrier(2)\<close> documents of its expedited command, and what it gives a caller of
  \<open>Rseq::fence\<close> and \<open>Rseq::fence_all\<close>: between the call and its return there is a moment at
  which no section that works on the index is in progress.
\<close>

section \<open>What the kernel does\<close>

text \<open>No thread that runs with the index is inside a section.\<close>

definition cleared :: "'j config \<Rightarrow> nat \<Rightarrow> u32 \<Rightarrow> sys \<Rightarrow> bool" where
  "cleared C kd x s \<longleftrightarrow> (\<forall>j<c_threads C. \<forall>y. on s j = Some y \<longrightarrow> index_at kd y = x \<longrightarrow>
     \<not> in_section (c_blocks C) (thr s j))"

text \<open>A CPU is interrupted: the thread that runs there, if any, is restarted.\<close>

definition served :: "'j config \<Rightarrow> u32 \<Rightarrow> sys \<Rightarrow> sys \<Rightarrow> bool" where
  "served C c s s' \<longleftrightarrow>
     (\<exists>i<c_threads C. \<exists>x. on s i = Some x \<and> fst x = c \<and> s' = interrupt_at C i x s) \<or>
     (\<forall>i<c_threads C. \<forall>x. on s i = Some x \<longrightarrow> fst x \<noteq> c) \<and> s' = s"

text \<open>Sets of states the threads cannot leave, with running threads on CPUs of their own.\<close>

definition states_ok :: "'j config \<Rightarrow> (sys \<Rightarrow> bool) \<Rightarrow> bool" where
  "states_ok C A \<longleftrightarrow> (\<forall>s. A s \<longrightarrow> indexed C s \<and> (\<forall>s'. reachable C s s' \<longrightarrow> A s'))"

lemma states_okD: "states_ok C A \<Longrightarrow> A s \<Longrightarrow> indexed C s"
  "states_ok C A \<Longrightarrow> A s \<Longrightarrow> reachable C s s' \<Longrightarrow> A s'"
  unfolding states_ok_def by blast+

text \<open>
  \<open>membarrier(2)\<close> on a system of threads, which the state of the kernel contains: the threads go
  on while a call is served, and a successful expedited call has interrupted, at some moment, the
  CPU of its argument, or every CPU when there is none. \<open>A\<close> is what states the system can be in.
\<close>

definition mb_restarts :: "'j config \<Rightarrow> (sys \<Rightarrow> bool) \<Rightarrow> 'k membarrier \<Rightarrow> ('k \<Rightarrow> sys) \<Rightarrow> bool" where
  "mb_restarts C A sys view \<longleftrightarrow> (\<forall>cmd fl cpu k rc err k'. A (view k) \<longrightarrow>
     sys cmd fl cpu k = ((rc, err), k') \<longrightarrow> reachable C (view k) (view k') \<and>
     (cmd = PRIVATE_EXPEDITED_RSEQ \<longrightarrow> rc = 0 \<longrightarrow>
       (\<forall>c. fl = 0 \<or> fl = FLAG_CPU \<and> c = cpu \<longrightarrow> (\<exists>s1 s2. reachable C (view k) s1 \<and>
          served C c s1 s2 \<and> reachable C s2 (view k')))))"

section \<open>The calls of a fence\<close>

text \<open>What every system call preserves holds up to the last call of a successful \<open>run\<close>.\<close>

lemma mb_run_last:
  assumes "\<And>cmd fl cpu k. A k \<Longrightarrow> A (snd (sys cmd fl cpu k))" "A k"
    and "mb_run sys cmd fl cpu st k = (True, st', k')"
  shows "\<exists>k0 err. A k0 \<and> sys cmd fl cpu k0 = ((0, err), k')"
proof -
  have reg: "A k1" if "mb_register sys k0 = (b, k1)" "A k0" for k0 b k1
    using that assms(1) [of k0 REGISTER_PRIVATE_EXPEDITED_RSEQ 0 0]
    by (auto simp: mb_register_def split: prod.splits)
  obtain st0 k0 where r: "mb_ready sys st k = (True, st0, k0)"
    using assms(3) by (auto simp: mb_run_def split: prod.splits if_splits)
  have k0: "A k0" using r assms(2) reg by (auto simp: mb_ready_def split: option.splits prod.splits)
  obtain rc err k1 where c: "sys cmd fl cpu k0 = ((rc, err), k1)" by (metis prod.collapse)
  have k1: "A k1" using assms(1) [OF k0, of cmd fl cpu] c by simp
  show ?thesis
  proof (cases "rc = 0")
    case True
    then show ?thesis using assms(3) r c k0 by (auto simp: mb_run_def)
  next
    case False
    then obtain k2 where "mb_register sys k1 = (True, k2)" "\<exists>e. sys cmd fl cpu k2 = ((0, e), k')"
      using assms(3) r c by (auto simp: mb_run_def Let_def split: prod.splits if_splits)
    then show ?thesis using reg k1 by blast
  qed
qed

lemma cpu_index_at: "index_at CPU_ID_OFF x = fst x"
  by (simp add: index_at_def)

lemma cid_index_at: "index_at MM_CID_OFF x = snd x"
  by (simp add: index_at_def CPU_ID_OFF_def MM_CID_OFF_def)

text \<open>The moments in the last call of a fence that succeeds.\<close>

lemma run_served:
  assumes A: "states_ok C A"
    and "A (view k)" "mb_restarts C A sys view"
    and "mb_run sys PRIVATE_EXPEDITED_RSEQ fl cpu st k = (True, st', k')"
    and "fl = 0 \<or> fl = FLAG_CPU \<and> c = cpu"
  shows "\<exists>s1 s2. reachable C (view k) s1 \<and> served C c s1 s2 \<and> reachable C s2 (view k')"
proof -
  let ?R = "\<lambda>k1. reachable C (view k) (view k1)"
  have "?R (snd (sys cmd fl cpu k1))" if "?R k1" for cmd fl cpu k1
    using assms(3) states_okD(2) [OF A assms(2) that] that unfolding mb_restarts_def
    by (metis prod.collapse reachable_trans)
  from mb_run_last [OF this reachable.start assms(4)] obtain k0 err where
    k0: "?R k0" "sys PRIVATE_EXPEDITED_RSEQ fl cpu k0 = ((0, err), k')" by blast
  have "\<exists>s1 s2. reachable C (view k0) s1 \<and> served C c s1 s2 \<and> reachable C s2 (view k')"
    using assms(3) [unfolded mb_restarts_def, rule_format, OF states_okD(2) [OF A assms(2) k0(1)] k0(2)] assms(5)
    by blast
  then show ?thesis using k0(1) by (meson reachable_trans)
qed

context block_module
begin

lemma reachable_states:
  assumes "c_blocks C = B" "layout_ok C" "calls_ok C" "c_inv C mi"
  shows "states_ok C (reachable C (idle mi))"
  using reachable_inv [OF _ assms] by (auto simp: states_ok_def intro: reachable_trans)

lemma on_stop: "sys_step C s s' \<Longrightarrow> on s i = Some x \<Longrightarrow> on s' i = Some x \<or> on s' = (on s)(i := None)"
  by (cases rule: sys_step.cases) (auto split: if_splits)

lemma served_cleared:
  assumes "reachable C (idle mi) s" and C: "c_blocks C = B" "layout_ok C" "calls_ok C" "c_inv C mi"
    and "served C c s s'"
  shows "reachable C s s' \<and> cleared C CPU_ID_OFF c s' \<and>
    (\<forall>i<c_threads C. \<forall>y. on s i = Some (c, y) \<longrightarrow> cleared C MM_CID_OFF y s')"
  using assms(6) unfolding served_def
proof
  assume "\<exists>i<c_threads C. \<exists>x. on s i = Some x \<and> fst x = c \<and> s' = interrupt_at C i x s"
  then obtain i x where i: "i < c_threads C" "on s i = Some x" "fst x = c" "s' = interrupt_at C i x s"
    by blast
  note q = interrupted [OF assms(1) C i(1,2), folded i(4)]
  have ix: "indexed C s" using reachable_inv [OF assms(1) C] by blast
  have "j = i" if "j < c_threads C" "on s j = Some (c, y)" for j y
    using indexed_apart [OF ix that(1) i(1) _ that(2) i(2)] i(3) by fastforce
  then have "y = snd x" if "j < c_threads C" "on s j = Some (c, y)" for j y
    using that i(2) by fastforce
  moreover have "cleared C CPU_ID_OFF c s'" "cleared C MM_CID_OFF (snd x) s'"
    using q(2) i(3) C(1) by (simp_all add: cleared_def cpu_index_at cid_index_at)
  ultimately show ?thesis using q(1) by blast
next
  assume "(\<forall>i<c_threads C. \<forall>x. on s i = Some x \<longrightarrow> fst x \<noteq> c) \<and> s' = s"
  then show ?thesis unfolding cleared_def cpu_index_at by (force intro: reachable.start)
qed

text \<open>
  Over a run, either there is a moment at which the concurrency id is cleared, or one thread
  holds it on one CPU all the way.
\<close>

lemma cid_held:
  assumes "reachable C (idle mi) s" and C: "c_blocks C = B" "layout_ok C" "calls_ok C" "c_inv C mi"
    and i: "i < c_threads C" "on s i = Some (c, y)" and r: "reachable C s s1"
  shows "(\<exists>s'. reachable C s s' \<and> reachable C s' s1 \<and> cleared C MM_CID_OFF y s') \<or> on s1 i = Some (c, y)"
  using r
proof induction
  case start
  then show ?case using i(2) by simp
next
  case (one s' s'')
  have "cleared C MM_CID_OFF y s''" if o: "on s' i = Some (c, y)" "on s'' = (on s')(i := None)"
  proof -
    have ix: "indexed C s'" using reachable_inv [OF reachable_trans [OF one(1) assms(1)] C] by blast
    have "j = i" if "j < c_threads C" "on s' j = Some x" "snd x = y" for j x
      using indexed_apart [OF ix i(1) that(1) _ o(1) that(2)] that(3) by fastforce
    then show ?thesis by (auto simp: cleared_def cid_index_at o(2) split: if_splits)
  qed
  then show ?case using one on_stop [OF one(2), of i] by (meson reachable.one reachable.start)
qed

lemma served_all_cleared:
  assumes "reachable C (idle mi) s" and C: "c_blocks C = B" "layout_ok C" "calls_ok C" "c_inv C mi"
    and all: "\<And>c. \<exists>s1 s2. reachable C s s1 \<and> served C c s1 s2 \<and> reachable C s2 s'"
    and kd: "id_off_ok kd"
  shows "\<exists>s0. reachable C s s0 \<and> reachable C s0 s' \<and> cleared C kd x s0"
proof -
  have served: "\<exists>s1 s2. reachable C s s1 \<and> reachable C s1 s2 \<and> reachable C s2 s' \<and>
      cleared C CPU_ID_OFF c s2 \<and> (\<forall>i<c_threads C. \<forall>y. on s1 i = Some (c, y) \<longrightarrow> cleared C MM_CID_OFF y s2)" for c
    using all [of c] served_cleared [OF reachable_trans [OF _ assms(1)] C] by meson
  consider (cpu) "kd = CPU_ID_OFF" | (cid) "kd = MM_CID_OFF" using kd by (auto simp: id_off_ok_def)
  then show ?thesis
  proof cases
    case cpu
    then show ?thesis using served [of x] by (meson reachable_trans)
  next
    case cid
    show ?thesis
    proof (cases "\<exists>i<c_threads C. \<exists>c. on s i = Some (c, x)")
      case True
      then obtain i c where i: "i < c_threads C" "on s i = Some (c, x)" by blast
      obtain s1 s2 where s: "reachable C s s1" "reachable C s1 s2" "reachable C s2 s'"
          "on s1 i = Some (c, x) \<longrightarrow> cleared C MM_CID_OFF x s2"
        using served [of c] i(1) by blast
      from cid_held [OF assms(1) C i s(1)] show ?thesis
        using s cid by (meson reachable_trans)
    next
      case False
      then have "cleared C kd x s" by (auto simp: cleared_def cid cid_index_at)
      moreover have "reachable C s s'" using served [of 0] by (meson reachable_trans)
      ultimately show ?thesis using reachable.start by blast
    qed
  qed
qed

end

section \<open>A kernel of that kind\<close>

text \<open>
  It interrupts the threads that run on the CPUs asked for, one after the other; its state is the
  registration of the process and the system.
\<close>

fun interrupt_all :: "'j config \<Rightarrow> (u32 \<Rightarrow> bool) \<Rightarrow> nat list \<Rightarrow> sys \<Rightarrow> sys" where
  "interrupt_all C sel [] s = s"
| "interrupt_all C sel (i # is) s = interrupt_all C sel is (case on s i of None \<Rightarrow> s
     | Some x \<Rightarrow> if sel (fst x) then interrupt_at C i x s else s)"

fun sys_kernel :: "'j config \<Rightarrow> (bool \<times> sys) membarrier" where
  "sys_kernel C REGISTER_PRIVATE_EXPEDITED_RSEQ fl cpu k = ((0, Other_errno 0), (True, snd k))"
| "sys_kernel C PRIVATE_EXPEDITED_RSEQ fl cpu k = (if fst k
     then ((0, Other_errno 0), (True, interrupt_all C (\<lambda>c. fl = 0 \<or> c = cpu) [0..<c_threads C] (snd k)))
     else ((- 1, EPERM), k))"

lemma interrupt_all_served:
  assumes A: "states_ok C A"
  shows "A s \<Longrightarrow> \<forall>i \<in> set is. i < c_threads C \<Longrightarrow>
    reachable C s (interrupt_all C sel is s) \<and>
    (\<forall>c. sel c \<longrightarrow> (\<exists>i \<in> set is. \<exists>x. on s i = Some x \<and> fst x = c) \<longrightarrow>
      (\<exists>s1 s2. reachable C s s1 \<and> served C c s1 s2 \<and> reachable C s2 (interrupt_all C sel is s)))"
proof (induction "is" arbitrary: s)
  case Nil
  then show ?case by (auto intro: reachable.start)
next
  case (Cons i "is")
  define s' where "s' = (case on s i of None \<Rightarrow> s
     | Some x \<Rightarrow> if sel (fst x) then interrupt_at C i x s else s)"
  have i: "i < c_threads C" "\<forall>j \<in> set is. j < c_threads C" using Cons(3) by auto
  have r: "reachable C s s'" "on s' = on s"
    using interrupt_reaches [OF states_okD(1) [OF A Cons(2)] i(1)] interrupt_on
    by (auto simp: s'_def split: option.splits intro: reachable.start)
  note IH = Cons.IH [OF states_okD(2) [OF A Cons(2) r(1)] i(2)]
  have all: "interrupt_all C sel (i # is) s = interrupt_all C sel is s'" by (simp add: s'_def)
  have "\<exists>s1 s2. reachable C s s1 \<and> served C c s1 s2 \<and> reachable C s2 (interrupt_all C sel is s')"
    if c: "sel c" "\<exists>j \<in> set (i # is). \<exists>x. on s j = Some x \<and> fst x = c" for c
  proof (cases "\<exists>x. on s i = Some x \<and> fst x = c")
    case True
    then have "served C c s s'" using i(1) c(1) by (auto simp: served_def s'_def)
    then show ?thesis using IH reachable.start by blast
  next
    case False
    then have "\<exists>j \<in> set is. \<exists>x. on s' j = Some x \<and> fst x = c" using c(2) r(2) by auto
    then show ?thesis using IH c(1) r(1) by (meson reachable_trans)
  qed
  then show ?case unfolding all using IH r(1) by (meson reachable_trans)
qed

lemma sys_kernel_restarts:
  assumes A: "states_ok C A"
  shows "mb_restarts C A (sys_kernel C) snd"
  unfolding mb_restarts_def
proof (intro allI impI)
  fix cmd fl cpu k rc err and k' :: "bool \<times> sys"
  assume r: "A (snd k)" and k': "sys_kernel C cmd fl cpu k = ((rc, err), k')"
  let ?sel = "\<lambda>c. fl = 0 \<or> c = cpu"
  note all = interrupt_all_served [OF A r, of "[0..<c_threads C]" ?sel]
  show "reachable C (snd k) (snd k') \<and> (cmd = PRIVATE_EXPEDITED_RSEQ \<longrightarrow> rc = 0 \<longrightarrow>
     (\<forall>c. fl = 0 \<or> fl = FLAG_CPU \<and> c = cpu \<longrightarrow> (\<exists>s1 s2. reachable C (snd k) s1 \<and>
        served C c s1 s2 \<and> reachable C s2 (snd k'))))"
  proof (cases "cmd = PRIVATE_EXPEDITED_RSEQ \<and> fst k")
    case False
    then show ?thesis using k' by (cases cmd) (auto intro: reachable.start)
  next
    case True
    then have s': "snd k' = interrupt_all C ?sel [0..<c_threads C] (snd k)" using k' by auto
    have "\<exists>s1 s2. reachable C (snd k) s1 \<and> served C c s1 s2 \<and> reachable C s2 (snd k')" if "?sel c" for c
    proof (cases "\<exists>i<c_threads C. \<exists>x. on (snd k) i = Some x \<and> fst x = c")
      case True
      then show ?thesis using all that s' by fastforce
    next
      case False
      then have "served C c (snd k) (snd k)" by (auto simp: served_def)
      then show ?thesis using all s' reachable.start by (metis atLeastLessThan_iff set_upt)
    qed
    then show ?thesis using all s' by auto
  qed
qed

section \<open>Properties\<close>

text \<open>
  C18: \<open>Rseq::fence\<close>, on either target: when it returns true there was a moment between the call
  and the return at which no thread that ran on the CPU was inside a critical section, also when
  the fence registered first, or registered again after a fork. A section in progress there after
  the return was entered after the call.
\<close>

theorem rseq_fence_clears:
  assumes "block_module B T" "c_blocks C = B" "layout_ok C" "calls_ok C" "c_inv C mi"
    and "mb_restarts C (reachable C (idle mi)) sys view" "reachable C (idle mi) (view k)"
    and "Rseq_fence sys r cpu st k = (True, st', k')"
  shows "\<exists>s. reachable C (view k) s \<and> reachable C s (view k') \<and> cleared C CPU_ID_OFF (CpuId_get cpu) s"
proof -
  have "mb_run sys PRIVATE_EXPEDITED_RSEQ FLAG_CPU (CpuId_get cpu) st k = (True, st', k')"
    using assms(8) by (auto simp: Rseq_fence_def mb_fence_def split: if_splits)
  from run_served [OF block_module.reachable_states [OF assms(1-5)] assms(7,6) this] obtain s1 s2 where s: "reachable C (view k) s1"
      "served C (CpuId_get cpu) s1 s2" "reachable C s2 (view k')" by blast
  note c = block_module.served_cleared [OF assms(1) reachable_trans [OF s(1) assms(7)] assms(2-5) s(2)]
  then show ?thesis using s by (meson reachable_trans)
qed

text \<open>
  C19: \<open>Rseq::fence_all\<close>, on either target and for both index kinds: when it returns true there
  was, for every CPU and for every concurrency id, a moment between the call and the return at
  which no thread that ran with it was inside a critical section. The CPU that a concurrency id
  is on may change meanwhile.
\<close>

theorem rseq_fence_all_clears:
  assumes "block_module B T" "c_blocks C = B" "layout_ok C" "calls_ok C" "c_inv C mi"
    and "mb_restarts C (reachable C (idle mi)) sys view" "reachable C (idle mi) (view k)"
    and "Rseq_fence_all sys st k = (True, st', k')" "id_off_ok kd"
  shows "\<exists>s. reachable C (view k) s \<and> reachable C s (view k') \<and> cleared C kd x s"
proof -
  have "mb_run sys PRIVATE_EXPEDITED_RSEQ 0 0 st k = (True, st', k')"
    using assms(8) by (simp add: Rseq_fence_all_def mb_fence_all_def)
  note all = run_served [OF block_module.reachable_states [OF assms(1-5)] assms(7,6) this]
  show ?thesis
    by (rule block_module.served_all_cleared [OF assms(1,7,2-5) all assms(9)]) simp
qed

text \<open>A fence of CPU 1, not registered yet, while the first thread of \<open>config1\<close> is in its section.\<close>

theorem rseq_fence_clears_witness:
  "\<exists>s s1 k. in_section x86_blocks (thr s 0) \<and> on s 0 = Some (1, 1) \<and>
     Rseq_fence (sys_kernel (config1 x86_blocks)) rseq0 (CpuId 1) mb_start (False, s) =
       (True, \<lparr>READY = Some True, USED = True\<rparr>, k) \<and>
     reachable (config1 x86_blocks) s s1 \<and> reachable (config1 x86_blocks) s1 (snd k) \<and>
     cleared (config1 x86_blocks) CPU_ID_OFF 1 s1"
proof -
  let ?C = "config1 x86_blocks"
  have C: "c_blocks ?C = x86_blocks" by (simp add: config1_def)
  note C' = C config1_layout config1_calls config1_inv
  obtain s t where s: "reachable ?C (idle m0) s" "on s 0 = Some (1, 1)" "thr s 0 = Some t"
      "t_call t = call1" "in_cs (b_prog x86_blocks call1) (pc (t_st t))"
    using x86_inside1 by blast
  define k where "k = (True, interrupt_all ?C (\<lambda>c. FLAG_CPU = 0 \<or> c = 1) [0..<c_threads ?C] s)"
  have f: "Rseq_fence (sys_kernel ?C) rseq0 (CpuId 1) mb_start (False, s) =
      (True, \<lparr>READY = Some True, USED = True\<rparr>, k)"
    by (simp add: Rseq_fence_def rseq0_def mb_fence_def mb_run_def mb_ready_def mb_register_def
        mb_start_def k_def)
  from rseq_fence_clears [OF x86_sys.block_module_axioms C' sys_kernel_restarts [OF x86_sys.reachable_states [OF C']] _ f]
  obtain s1 where "reachable ?C s s1" "reachable ?C s1 (snd k)" "cleared ?C CPU_ID_OFF 1 s1"
    using s(1) by auto
  then show ?thesis using f s by (intro exI [of _ s] exI [of _ s1] exI [of _ k]) (simp add: in_section_def)
qed

theorem rseq_fence_all_clears_witness:
  "\<exists>s s1 k. in_section x86_blocks (thr s 0) \<and> on s 0 = Some (1, 1) \<and>
     Rseq_fence_all (sys_kernel (config1 x86_blocks)) mb_start (False, s) =
       (True, \<lparr>READY = Some True, USED = True\<rparr>, k) \<and>
     reachable (config1 x86_blocks) s s1 \<and> reachable (config1 x86_blocks) s1 (snd k) \<and>
     cleared (config1 x86_blocks) MM_CID_OFF 1 s1"
proof -
  let ?C = "config1 x86_blocks"
  have C: "c_blocks ?C = x86_blocks" by (simp add: config1_def)
  note C' = C config1_layout config1_calls config1_inv
  obtain s t where s: "reachable ?C (idle m0) s" "on s 0 = Some (1, 1)" "thr s 0 = Some t"
      "t_call t = call1" "in_cs (b_prog x86_blocks call1) (pc (t_st t))"
    using x86_inside1 by blast
  define k where "k = (True, interrupt_all ?C (\<lambda>c. 0 = (0 :: u32) \<or> c = 0) [0..<c_threads ?C] s)"
  have f: "Rseq_fence_all (sys_kernel ?C) mb_start (False, s) =
      (True, \<lparr>READY = Some True, USED = True\<rparr>, k)"
    by (simp add: Rseq_fence_all_def mb_fence_all_def mb_run_def mb_ready_def mb_register_def
        mb_start_def k_def)
  have "id_off_ok MM_CID_OFF" by (simp add: id_off_ok_def)
  from rseq_fence_all_clears [OF x86_sys.block_module_axioms C' sys_kernel_restarts [OF x86_sys.reachable_states [OF C']] _ f this]
  obtain s1 where "reachable ?C s s1" "reachable ?C s1 (snd k)" "cleared ?C MM_CID_OFF 1 s1"
    using s(1) by auto
  then show ?thesis using f s by (intro exI [of _ s] exI [of _ s1] exI [of _ k]) (simp add: in_section_def)
qed

end
