(* ===== verification/Drain.thy ===== *)
theory Drain
  imports Guard Expedited
begin

text \<open>
  What \<open>Rseq::fence\<close> is for (\<open>benches/drain.rs\<close>): taking the words of a CPU from another one. The
  threads of the CPU work on their words with \<open>compare_exchange_if\<close>, the second word being a stop
  word that must be zero; the drainer may write any word at any time. When it has stored to the
  stop word and a fence of the CPU has returned, the words of the CPU are its own: no thread
  stores to them, whatever it was doing, as long as the stop word stays set.
\<close>

section \<open>Threads and a drainer\<close>

text \<open>The words are in their homes, and every call is guarded by the stop word of its index.\<close>

definition guarded_calls :: "'j config \<Rightarrow> (nat \<Rightarrow> u32 \<Rightarrow> u64) \<Rightarrow> bool" where
  "guarded_calls C stop \<longleftrightarrow> (\<forall>c. c_calls C c \<longrightarrow> id_off_ok (off c) \<and>
     (case oper c of Compare_exchange_if w e n x xe \<Rightarrow>
        x = stop (off c) (ident c) \<and> xe = 0 \<and> w \<noteq> x \<and> {w, x} \<subseteq> c_home C (off c) (ident c)
      | _ \<Rightarrow> False))"

text \<open>
  Runs: the threads take their steps, the drainer stores to words (the list), and the memory
  keeps a condition.
\<close>

inductive drain :: "'j config \<Rightarrow> (mem \<Rightarrow> bool) \<Rightarrow> sys \<Rightarrow> store list \<Rightarrow> sys \<Rightarrow> bool" for C H s where
  d_none: "drain C H s [] s"
| d_thread: "drain C H s ws s' \<Longrightarrow> sys_step C s' s'' \<Longrightarrow> H (shared s'') \<Longrightarrow> drain C H s ws s''"
| d_write: "drain C H s ws s' \<Longrightarrow> fst p \<in> c_home C kd x \<Longrightarrow> H (put (Some p) (shared s')) \<Longrightarrow>
    drain C H s (ws @ [p]) (s'\<lparr>shared := put (Some p) (shared s')\<rparr>)"

section \<open>The invariant\<close>

text \<open>
  A thread in a call: the guarded outline of its block holds, the index being sealed if it is in
  \<open>S\<close>; stopped, for either case.
\<close>

definition guard_thread ::
  "'j config \<Rightarrow> (cs_call \<Rightarrow> asm_env \<Rightarrow> u64 \<Rightarrow> guard_outline) \<Rightarrow> (nat \<times> u32) set \<Rightarrow> mem \<Rightarrow> bool \<Rightarrow>
   nat \<Rightarrow> thr \<Rightarrow> bool" where
  "guard_thread C G S m runs i t \<longleftrightarrow> c_calls C (t_call t) \<and> ar (t_call t) = c_area C i \<and>
     alloc_ok (alloc (t_env t)) (b_binds (c_blocks C) (t_call t)) \<and>
     (let st = (if runs then (t_st t)\<lparr>mem := m\<rparr> else t_st t); P = b_prog (c_blocks C) (t_call t) in
      pc st \<le> length (slots P) \<and>
      (pc st < length (slots P) \<longrightarrow> (\<exists>b. (runs \<longrightarrow> (b \<longleftrightarrow> (off (t_call t), ident (t_call t)) \<in> S)) \<and>
        (G (t_call t) (t_env t) 0 ! pc st) b st)) \<and>
      (\<forall>k<32. mem st (c_area C i + of_nat k) = m (c_area C i + of_nat k)))"

definition drain_inv ::
  "'j config \<Rightarrow> (cs_call \<Rightarrow> asm_env \<Rightarrow> u64 \<Rightarrow> guard_outline) \<Rightarrow> (nat \<times> u32) set \<Rightarrow> sys \<Rightarrow> bool" where
  "drain_inv C G S s \<longleftrightarrow> indexed C s \<and>
     each_thread C (guard_thread C G S) s"

text \<open>The stores of a thread: the install, or a word of an index that is not sealed.\<close>

definition drain_store ::
  "'j config \<Rightarrow> (nat \<Rightarrow> u32 \<Rightarrow> u64) \<Rightarrow> (nat \<times> u32) set \<Rightarrow> nat \<Rightarrow> cs_call \<Rightarrow> store option \<Rightarrow> bool" where
  "drain_store C stop S i c s \<longleftrightarrow> (case s of None \<Rightarrow> True | Some p \<Rightarrow>
     fst p = c_area C i + of_nat CS_OFF \<or> (off c, ident c) \<notin> S \<and>
     fst p \<in> c_home C (off c) (ident c) \<and> fst p \<noteq> stop (off c) (ident c))"

lemma drain_invD:
  "drain_inv C G S s \<Longrightarrow> i < c_threads C \<Longrightarrow> thr s i = Some t \<Longrightarrow>
    guard_thread C G S (shared s) (on s i \<noteq> None) i t"
  unfolding drain_inv_def by (blast dest: each_threadD)

lemma guarded_call:
  assumes "guarded_calls C stop" "c_calls C c"
  obtains w e n where "id_off_ok (off c)" "oper c = Compare_exchange_if w e n (stop (off c) (ident c)) 0"
    "w \<noteq> stop (off c) (ident c)" "w \<in> c_home C (off c) (ident c)"
    "stop (off c) (ident c) \<in> c_home C (off c) (ident c)"
proof -
  have "id_off_ok (off c) \<and> (case oper c of Compare_exchange_if w e n x xe \<Rightarrow>
        x = stop (off c) (ident c) \<and> xe = 0 \<and> w \<noteq> x \<and> {w, x} \<subseteq> c_home C (off c) (ident c)
      | _ \<Rightarrow> False)" using assms unfolding guarded_calls_def by blast
  then show ?thesis using that by (auto split: cs_op.splits)
qed

lemma same_area_bytes:
  "id_off_ok (off c) \<Longrightarrow> \<forall>k<32. m' (ar c + of_nat k) = m (ar c + of_nat k) \<Longrightarrow> same_area c m m'"
  using load_id_cong [of "off c" m' "ar c" m] load_cs_cong [of m' "ar c" m]
  by (simp add: same_area_def matches_def)

context guard_module
begin

lemma thread_guard:
  assumes "c_blocks C = B" "guarded_calls C stop" "guard_thread C G S m r i t"
  shows "guard_ok (G (t_call t) (t_env t) 0) (b_exec B (alloc (t_env t)) (cs_addr (t_env t)))
    (b_prog B (t_call t)) (b_sig B) (t_call t) (b_binds B (t_call t)) (t_env t)"
proof -
  have t: "c_calls C (t_call t)" "alloc_ok (alloc (t_env t)) (b_binds B (t_call t))"
    using assms(1,3) by (auto simp: guard_thread_def)
  show ?thesis by (rule guarded_call [OF assms(2) t(1)]) (rule guarded [OF _ _ t(2)])
qed

text \<open>A thread does not notice what leaves its area alone.\<close>

lemma guard_other:
  assumes C: "c_blocks C = B" "guarded_calls C stop" and t: "guard_thread C G S m r j t"
    and m: "\<forall>k<32. m' (c_area C j + of_nat k) = m (c_area C j + of_nat k)"
  shows "guard_thread C G S m' r j t"
proof (cases r)
  case False
  then show ?thesis using t m by (simp add: guard_thread_def Let_def)
next
  case True
  let ?c = "t_call t" and ?P = "b_prog B (t_call t)" and ?st = "(t_st t)\<lparr>mem := m\<rparr>"
  let ?b = "(off (t_call t), ident (t_call t)) \<in> S"
  have t': "c_calls C ?c" "ar ?c = c_area C j" using t by (auto simp: guard_thread_def)
  obtain w e n where o: "id_off_ok (off ?c)" "oper ?c = Compare_exchange_if w e n (stop (off ?c) (ident ?c)) 0"
    by (rule guarded_call [OF C(2) t'(1)])
  have "same_area ?c m m'" by (rule same_area_bytes [OF o(1)]) (use m t'(2) in simp)
  then have "(G ?c (t_env t) 0 ! pc (t_st t)) ?b (?st\<lparr>mem := m'\<rparr>)"
    if "pc (t_st t) < length (slots ?P)" "(G ?c (t_env t) 0 ! pc (t_st t)) ?b ?st"
    using guard_same [OF thread_guard [OF C t] o(2), of "pc (t_st t)" ?b ?st m'] that by simp
  then show ?thesis using t True C(1) by (simp add: guard_thread_def Let_def)
qed

lemma guard_stop:
  "guard_thread C G S m True i t \<Longrightarrow> guard_thread C G S m False i (t\<lparr>t_st := (t_st t)\<lparr>mem := m\<rparr>\<rparr>)"
  by (auto simp: guard_thread_def Let_def)

lemma guard_begin:
  assumes C: "c_blocks C = B" "guarded_calls C stop" and c: "c_calls C c" "ar c = c_area C i"
    and al: "alloc_ok (alloc env) (b_binds B c)"
  shows "guard_thread C G S m True i (begin_call B c env m)"
proof -
  obtain w e n where o: "id_off_ok (off c)" "oper c = Compare_exchange_if w e n (stop (off c) (ident c)) 0"
    by (rule guarded_call [OF C(2) c(1)])
  note g = guarded [OF o al]
  have "live (b_binds B c) env (entry (b_binds B c) env m)"
    using al by (simp add: live_def entry_def list_all_iff bind_regs_bound)
  then have "(G c env 0 ! 0) b (entry (b_binds B c) env m)" for b
    using g unfolding guard_ok_def by blast
  moreover have "(entry (b_binds B c) env m)\<lparr>mem := m\<rparr> = entry (b_binds B c) env m"
    by (simp add: entry_def)
  ultimately show ?thesis using C(1) c al
    by (simp add: guard_thread_def begin_call_def Let_def) (simp add: entry_def)
qed

text \<open>
  A stopped thread that is resumed is outside its section, so its assertion holds whether or not
  its index is sealed now.
\<close>

lemma guard_resume:
  assumes C: "c_blocks C = B" "guarded_calls C stop" and t: "guard_thread C G S m False i t"
  shows "guard_thread C G S' (kernel_update (c_area C i) x m) True i (resume_thr B (c_area C i) x m t)"
    and "\<not> in_section B (Some (resume_thr B (c_area C i) x m t))"
proof -
  let ?c = "t_call t" and ?P = "b_prog B (t_call t)" and ?st = "t_st t" and ?a = "c_area C i"
  let ?A = "G (t_call t) (t_env t) 0" and ?t = "resume_thr B (c_area C i) x m t"
  have t': "c_calls C ?c" "ar ?c = ?a" "alloc_ok (alloc (t_env t)) (b_binds B ?c)"
      "pc ?st \<le> length (slots ?P)" "\<forall>k<32. mem ?st (?a + of_nat k) = m (?a + of_nat k)"
    using t C(1) by (auto simp: guard_thread_def Let_def)
  note g = thread_guard [OF C t]
  obtain w e n where o: "oper ?c = Compare_exchange_if w e n (stop (off ?c) (ident ?c)) 0"
    by (rule guarded_call [OF C(2) t'(1)])
  have dv: "desc_valid ?P (b_sig B)" using g by (simp add: guard_ok_def)
  have cs: "load64 (mem ?st) (?a + of_nat CS_OFF) = load64 m (?a + of_nat CS_OFF)"
    by (rule load_cs_cong [OF t'(5)])
  have regs: "t_call ?t = ?c" "t_env ?t = t_env t" "regs (t_st ?t) = regs ?st" "zf (t_st ?t) = zf ?st"
      "mem (t_st ?t) = kernel_update ?a x m"
    by (simp_all add: resume_thr_def Let_def)
  have P: "(in_cs ?P (pc ?st) \<longrightarrow> pc (t_st ?t) = unat (abort_ip ?P)) \<and>
      (\<not> in_cs ?P (pc ?st) \<longrightarrow> pc (t_st ?t) = pc ?st) \<and>
      (pc (t_st ?t) < length (slots ?P) \<longrightarrow> (\<forall>b. (?A ! pc (t_st ?t)) b (t_st ?t)))"
  proof (cases "pc ?st < length (slots ?P)")
    case False
    then have e: "pc ?st = length (slots ?P)" using t'(4) by simp
    then show ?thesis using ends [of ?c] by (simp add: resume_thr_def Let_def)
  next
    case True
    obtain b where b: "(?A ! pc ?st) b ?st" using t True C(1) by (auto simp: guard_thread_def Let_def)
    show ?thesis
    proof (cases "in_cs ?P (pc ?st)")
      case in_cs: True
      then have ar: "armed ?c (b_binds B ?c) (t_env t) ?st" by (rule guard_inside [OF g o True _ b])
      then have "live (b_binds B ?c) (t_env t) (t_st ?t)" using regs(3) by (simp add: armed_def live_def)
      then have "\<forall>b. (?A ! unat (abort_ip ?P)) b (t_st ?t)" using g by (simp add: guard_ok_def)
      moreover have "pc (t_st ?t) = unat (abort_ip ?P)"
        using in_cs dv ar cs t'(2) by (simp add: resume_thr_def Let_def armed_def)
      ultimately show ?thesis using in_cs by simp
    next
      case out: False
      then have "\<forall>b'. (?A ! pc ?st) b' (t_st ?t)"
        using guard_outside [OF g o True _ b regs(3,4)] by blast
      moreover have "pc (t_st ?t) = pc ?st" using out by (simp add: resume_thr_def Let_def)
      ultimately show ?thesis using out by simp
    qed
  qed
  then have "\<not> in_cs ?P (pc (t_st ?t)) \<and> pc (t_st ?t) \<le> length (slots ?P)"
    using desc_valid_abort [OF dv] dv t'(4) by (cases "in_cs ?P (pc ?st)") (auto simp: desc_valid_def)
  then show "\<not> in_section B (Some ?t)" by (simp add: in_section_def regs)
  have e: "(t_st ?t)\<lparr>mem := kernel_update ?a x m\<rparr> = t_st ?t" using regs(5) by simp
  show "guard_thread C G S' (kernel_update ?a x m) True i ?t"
    using P t' C(1) \<open>_ \<and> pc (t_st ?t) \<le> _\<close> by (simp add: guard_thread_def Let_def regs e)
qed

text \<open>A running thread takes its next instruction.\<close>

lemma guard_step:
  assumes C: "c_blocks C = B" "guarded_calls C stop" and t: "guard_thread C G S m True i t"
    and nf: "\<not> finished (b_prog B (t_call t)) (t_st t)"
    and sealed: "(off (t_call t), ident (t_call t)) \<in> S \<Longrightarrow> load64 m (stop (off (t_call t)) (ident (t_call t))) \<noteq> 0"
    and step: "step (b_exec B (alloc (t_env t)) (cs_addr (t_env t))) (b_prog B (t_call t))
      ((t_st t)\<lparr>mem := m\<rparr>) = Some (st', s)"
  shows "guard_thread C G S (mem st') True i (t\<lparr>t_st := st', t_tr := tr\<rparr>)"
    and "mem st' = put s m" "drain_store C stop S i (t_call t) s"
proof -
  let ?c = "t_call t" and ?P = "b_prog B (t_call t)" and ?A = "G (t_call t) (t_env t) 0"
  let ?st = "(t_st t)\<lparr>mem := m\<rparr>" and ?b = "(off (t_call t), ident (t_call t)) \<in> S"
  have t': "c_calls C ?c" "ar ?c = c_area C i" using t by (auto simp: guard_thread_def)
  have k: "pc ?st < length (slots ?P)" using nf by (simp add: finished_def)
  have a: "(?A ! pc ?st) ?b ?st" using t k C(1) by (auto simp: guard_thread_def Let_def)
  note g = thread_guard [OF C t]
  obtain w e n where o: "oper ?c = Compare_exchange_if w e n (stop (off ?c) (ident ?c)) 0"
      "w \<noteq> stop (off ?c) (ident ?c)" "w \<in> c_home C (off ?c) (ident ?c)"
    by (rule guarded_call [OF C(2) t'(1)])
  have "?b \<Longrightarrow> load64 (mem ?st) (stop (off ?c) (ident ?c)) \<noteq> 0" using sealed by simp
  note own = guard_own [OF g o(1) k a this]
  have st': "pc st' < length ?A" "(?A ! pc st') ?b st'" "mem st' = put s m" "guard_store ?c w n ?b m s"
    using own step by auto
  show "mem st' = put s m" by (rule st'(3))
  show "drain_store C stop S i ?c s"
    using st'(4) o(2,3) t'(2) by (auto simp: drain_store_def guard_store_def split: option.splits)
  have e: "st'\<lparr>mem := mem st'\<rparr> = st'" by simp
  show "guard_thread C G S (mem st') True i (t\<lparr>t_st := st', t_tr := tr\<rparr>)"
    using t st'(1,2) guard_length [OF g] C(1) by (simp add: guard_thread_def Let_def)
qed

end

text \<open>What such a store leaves alone.\<close>

lemma drain_store_area:
  assumes "layout_ok C" "drain_store C stop S i c s" "i < c_threads C" "j < c_threads C" "j \<noteq> i" "k < 32"
  shows "put s m (c_area C j + of_nat k) = m (c_area C j + of_nat k)"
proof (cases s)
  case (Some p)
  then consider "fst p = c_area C i + of_nat CS_OFF" | "fst p \<in> c_home C (off c) (ident c)"
    using assms(2) by (auto simp: drain_store_def)
  then have "separate (c_area C j) 32 (fst p) 8"
  proof cases
    case 1
    have "separate (c_area C i) 32 (c_area C j) 32"
      by (rule areas_separate [OF assms(1,3,4) not_sym [OF assms(5)]])
    then show ?thesis unfolding 1
      by (intro separate_sym [of _ 8] separate_sub [of _ 32]) (simp_all add: CS_OFF_def)
  next
    case 2
    then show ?thesis by (rule home_area [OF assms(1) _ assms(4)])
  qed
  then show ?thesis using Some assms(6) by (simp add: put_Some separate_bytes)
qed simp

lemma drain_store_word:
  assumes "layout_ok C" "drain_store C stop S i c s" "i < c_threads C" "a \<in> c_home C kd x"
    and "(kd, x) \<in> S \<or> a = stop kd x"
  shows "load64 (put s m) a = load64 m a"
proof (cases s)
  case (Some p)
  then consider "fst p = c_area C i + of_nat CS_OFF"
    | "(off c, ident c) \<notin> S" "fst p \<in> c_home C (off c) (ident c)" "fst p \<noteq> stop (off c) (ident c)"
    using assms(2) by (auto simp: drain_store_def)
  then have "separate (fst p) 8 a 8"
  proof cases
    case 1
    then show ?thesis
      using separate_sub [OF home_area [OF assms(1,4,3)], of CS_OFF 8] by (simp add: CS_OFF_def)
  next
    case 2
    from home_separate [OF assms(1) 2(2) assms(4)] show ?thesis
      using 2(1,3) assms(5) by (auto split: if_splits)
  qed
  then show ?thesis using Some by (simp add: put_Some mem_simps)
qed simp

lemma drain_store_index:
  assumes "layout_ok C" "drain_store C stop S i c s" "i < c_threads C" "j < c_threads C" "id_off_ok k"
  shows "load32 (put s m) (c_area C j + of_nat k) = load32 m (c_area C j + of_nat k)"
proof (cases s)
  case (Some p)
  then show ?thesis using index_store [OF assms(1,3,4,5), of p m] assms(2)
    by (auto simp: drain_store_def)
qed simp

section \<open>Steps\<close>

text \<open>
  The stop words of sealed indices are set; the entries of a log are of other indices; the stores
  of the drainer, one after the other.
\<close>

definition stopped :: "(nat \<Rightarrow> u32 \<Rightarrow> u64) \<Rightarrow> (nat \<times> u32) set \<Rightarrow> mem \<Rightarrow> bool" where
  "stopped stop S m \<longleftrightarrow> (\<forall>(kd, x) \<in> S. load64 m (stop kd x) \<noteq> 0)"

definition spared :: "(nat \<times> u32) set \<Rightarrow> entry list \<Rightarrow> bool" where
  "spared S es \<longleftrightarrow> (\<forall>e \<in> set es. (off (entry_call e), ident (entry_call e)) \<notin> S)"

definition drained :: "store list \<Rightarrow> mem \<Rightarrow> mem" where
  "drained ws m = fold (\<lambda>p. put (Some p)) ws m"

lemma spared_entries:
  "drain_store C stop S i c s \<Longrightarrow> ar c = c_area C i \<Longrightarrow> spared S (entries c s)"
  by (auto simp: drain_store_def spared_def entries_def split: option.splits)

context guard_module
begin

lemma own_guard:
  assumes C: "c_blocks C = B" "guarded_calls C stop" and ok: "drain_inv C G S s" "stopped stop S (shared s)"
    and i: "i < c_threads C" "on s i = Some x" "thr s i = Some t"
    and nf: "\<not> finished (b_prog (c_blocks C) (t_call t)) (t_st t)"
    and step: "step (b_exec (c_blocks C) (alloc (t_env t)) (cs_addr (t_env t)))
      (b_prog (c_blocks C) (t_call t)) ((t_st t)\<lparr>mem := shared s\<rparr>) = Some (st', w)"
  shows "guard_thread C G S (mem st') True i (t\<lparr>t_st := st', t_tr := tr\<rparr>)"
    and "mem st' = put w (shared s)" "drain_store C stop S i (t_call t) w" "ar (t_call t) = c_area C i"
proof -
  have t: "guard_thread C G S (shared s) True i t" using drain_invD [OF ok(1) i(1,3)] i(2) by simp
  have "load64 (shared s) (stop (off (t_call t)) (ident (t_call t))) \<noteq> 0"
    if "(off (t_call t), ident (t_call t)) \<in> S" using ok(2) that by (auto simp: stopped_def)
  from guard_step [OF C t nf [unfolded C(1)] this step [unfolded C(1)]]
  show "guard_thread C G S (mem st') True i (t\<lparr>t_st := st', t_tr := tr\<rparr>)"
    "mem st' = put w (shared s)" "drain_store C stop S i (t_call t) w" by blast+
  show "ar (t_call t) = c_area C i" using t by (simp add: guard_thread_def)
qed

text \<open>A step of a thread spares the words of the sealed indices and all stop words.\<close>

lemma step_spares:
  assumes step: "sys_step C s s'" and C: "c_blocks C = B" "guarded_calls C stop" "layout_ok C"
    and ok: "drain_inv C G S s" "stopped stop S (shared s)"
  shows "\<forall>a \<in> c_home C kd x. (kd, x) \<in> S \<or> a = stop kd x \<longrightarrow> load64 (shared s') a = load64 (shared s) a"
    and "\<exists>es. log s' = log s @ es \<and> spared S es"
proof -
  have "(\<forall>a \<in> c_home C kd x. (kd, x) \<in> S \<or> a = stop kd x \<longrightarrow> load64 (shared s') a = load64 (shared s) a) \<and>
      (\<exists>es. log s' = log s @ es \<and> spared S es)"
    using step
  proof cases
    case (resume i y)
    then show ?thesis using kernel_update_word [OF home_area [OF C(3) _ resume(2)]]
      by (auto simp: spared_def)
  next
    case (own i y t st' w)
    note f = own_guard [OF C(1,2) ok own(2-6)]
    show ?thesis using own(1) f(2) drain_store_word [OF C(3) f(3) own(2)] spared_entries [OF f(3,4)] by auto
  qed (auto simp: spared_def)
  then show "\<forall>a \<in> c_home C kd x. (kd, x) \<in> S \<or> a = stop kd x \<longrightarrow> load64 (shared s') a = load64 (shared s) a"
    "\<exists>es. log s' = log s @ es \<and> spared S es" by blast+
qed

lemma step_guard_indexed:
  assumes step: "sys_step C s s'" and C: "c_blocks C = B" "guarded_calls C stop" "layout_ok C"
    and ok: "drain_inv C G S s" "stopped stop S (shared s)"
  shows "indexed C s'"
proof -
  have ix: "indexed C s" using ok(1) by (simp add: drain_inv_def)
  show ?thesis
    using step
  proof cases
    case (resume i x)
    show ?thesis by (rule indexed_resume [OF C(3) ix resume(2,4)]) (simp_all add: resume(1))
  next
    case (own i x t st' w)
    note f = own_guard [OF C(1,2) ok own(2-6)]
    show ?thesis using own(1) f(2) drain_store_index [OF C(3) f(3) own(2)]
      by (intro indexed_on [OF ix]) simp_all
  qed (rule indexed_on [OF ix]; simp split: if_splits)+
qed

lemma step_drain_inv:
  assumes step: "sys_step C s s'" and C: "c_blocks C = B" "guarded_calls C stop" "layout_ok C"
    and ok: "drain_inv C G S s" "stopped stop S (shared s)"
  shows "drain_inv C G S s'"
proof -
  let ?ok = "guard_thread C G S"
  have each: "each_thread C ?ok s" using ok(1) by (simp add: drain_inv_def)
  have "each_thread C ?ok s'"
  proof (rule each_thread_step [OF step each guard_stop])
    fix i x t assume "?ok (shared s) False i t"
    from guard_resume(1) [OF C(1,2) this, of S x]
    show "?ok (kernel_update (c_area C i) x (shared s)) True i
        (resume_thr (c_blocks C) (c_area C i) x (shared s) t)" by (simp add: C(1))
  next
    fix i j x u assume i: "i < c_threads C" "j < c_threads C" "j \<noteq> i"
      and u: "?ok (shared s) (on s j \<noteq> None) j u"
    show "?ok (kernel_update (c_area C i) x (shared s)) (on s j \<noteq> None) j u"
      by (rule guard_other [OF C(1,2) u])
         (use kernel_update_bytes [OF areas_separate [OF C(3) i(1,2)]] i(3) in simp)
  next
    fix i c and env :: asm_env assume "c_calls C c" "ar c = c_area C i" "alloc_ok (alloc env) (b_binds (c_blocks C) c)"
    then show "?ok (shared s) True i (begin_call (c_blocks C) c env (shared s))"
      using guard_begin [OF C(1,2)] C(1) by simp
  next
    fix i x t st' w assume own: "i < c_threads C" "on s i = Some x" "thr s i = Some t"
      "\<not> finished (b_prog (c_blocks C) (t_call t)) (t_st t)"
      "step (b_exec (c_blocks C) (alloc (t_env t)) (cs_addr (t_env t))) (b_prog (c_blocks C) (t_call t))
        ((t_st t)\<lparr>mem := shared s\<rparr>) = Some (st', w)"
    note f = own_guard [OF C(1,2) ok own]
    have "?ok (mem st') r j u" if "j < c_threads C" "j \<noteq> i" "?ok (shared s) r j u" for r j u
      unfolding f(2) by (rule guard_other [OF C(1,2) that(3)])
        (use drain_store_area [OF C(3) f(3) own(1) that(1,2)] in blast)
    then show "?ok (mem st') True i (t\<lparr>t_st := st', t_tr := t_tr t @ [(shared s, w)]\<rparr>) \<and>
      (\<forall>j<c_threads C. \<forall>u. j \<noteq> i \<longrightarrow> ?ok (shared s) (on s j \<noteq> None) j u \<longrightarrow>
        ?ok (mem st') (on s j \<noteq> None) j u)"
      using f(1) by blast
  qed
  then show ?thesis using step_guard_indexed [OF assms] by (simp add: drain_inv_def)
qed

text \<open>A store of the drainer to a word.\<close>

lemma write_drain_inv:
  assumes C: "c_blocks C = B" "guarded_calls C stop" "layout_ok C"
    and ok: "drain_inv C G S s" and p: "fst p \<in> c_home C kd x"
  shows "drain_inv C G S (s\<lparr>shared := put (Some p) (shared s)\<rparr>)"
  unfolding drain_inv_def each_thread_def
proof (intro conjI allI impI)
  let ?s = "s\<lparr>shared := put (Some p) (shared s)\<rparr>"
  have b: "\<forall>k<32. put (Some p) (shared s) (c_area C j + of_nat k) = shared s (c_area C j + of_nat k)"
    if "j < c_threads C" for j
    using home_area [OF C(3) p that] by (simp add: put_Some separate_bytes)
  have ix: "indexed C s" using ok by (simp add: drain_inv_def)
  show "indexed C ?s" by (rule indexed_on [OF ix]) (simp_all add: load_id_cong b)
  fix j u assume "j < c_threads C" "thr ?s j = Some u"
  then show "guard_thread C G S (shared ?s) (on ?s j \<noteq> None) j u"
    using guard_other [OF C(1,2) drain_invD [OF ok] b] by simp
qed

lemma idle_drain_inv: "drain_inv C G S (idle m)"
  by (simp add: drain_inv_def each_thread_def indexed_def idle_def)

text \<open>Any history: the invariant holds with no index sealed.\<close>

lemma drain_history:
  assumes "drain C H (idle mi) ws s" and C: "c_blocks C = B" "guarded_calls C stop" "layout_ok C"
  shows "drain_inv C G {} s"
  using assms(1)
proof induction
  case d_none
  show ?case by (rule idle_drain_inv)
next
  case (d_thread ws s' s'')
  show ?case by (rule step_drain_inv [OF d_thread(2) C d_thread(4)]) (simp add: stopped_def)
next
  case (d_write ws s' p kd x)
  show ?case by (rule write_drain_inv [OF C d_write(4,2)])
qed

section \<open>Sealing an index\<close>

text \<open>A cleared index can be sealed: no thread is between its check of the stop word and its commit.\<close>

lemma drain_seal:
  assumes C: "c_blocks C = B" "guarded_calls C stop" and ok: "drain_inv C G {} s"
    and cl: "cleared C kd x s" and kd: "id_off_ok kd"
  shows "drain_inv C G {(kd, x)} s"
  unfolding drain_inv_def each_thread_def
proof (intro conjI allI impI)
  have ix: "indexed C s" using ok by (simp add: drain_inv_def)
  show "indexed C s" by (rule ix)
  fix i t assume i: "i < c_threads C" "thr s i = Some t"
  note t = drain_invD [OF ok i]
  let ?c = "t_call t" and ?P = "b_prog B (t_call t)" and ?A = "G (t_call t) (t_env t) 0"
  show "guard_thread C G {(kd, x)} (shared s) (on s i \<noteq> None) i t"
  proof (cases "on s i = None \<or> (off ?c, ident ?c) \<noteq> (kd, x)")
    case True
    then show ?thesis using t by (auto simp: guard_thread_def Let_def)
  next
    case False
    then obtain y where y: "on s i = Some y" and c: "off ?c = kd" "ident ?c = x" by auto
    let ?st = "(t_st t)\<lparr>mem := shared s\<rparr>"
    have t': "c_calls C ?c" "ar ?c = c_area C i" using t by (auto simp: guard_thread_def)
    obtain w e n where o: "oper ?c = Compare_exchange_if w e n (stop (off ?c) (ident ?c)) 0"
      by (rule guarded_call [OF C(2) t'(1)])
    note g = thread_guard [OF C t]
    have "(?A ! pc (t_st t)) True ?st" if k: "pc (t_st t) < length (slots ?P)"
    proof -
      have a: "(?A ! pc (t_st t)) False ?st" using t y k C(1) by (auto simp: guard_thread_def Let_def)
      show ?thesis
      proof (cases "matches ?c (shared s)")
        case True
        have "index_at kd y = x"
          using index_matches [of ?c "shared s" y] indexed_load [OF ix i(1) y] True kd c t'(2) by simp
        then have "\<not> in_cs ?P (pc (t_st t))"
          using cl [unfolded cleared_def, rule_format, OF i(1) y] i(2) C(1) by (simp add: in_section_def)
        from guard_outside [OF g o k this a] show ?thesis by simp
      next
        case False
        then show ?thesis using guard_unmatched [OF g o k a] by simp
      qed
    qed
    then show ?thesis using t y c C(1) by (simp add: guard_thread_def Let_def) blast
  qed
qed

text \<open>The stores of the drainer, and a run under a set stop word, of a sealed index.\<close>

lemma sealed_run:
  assumes "drain C (\<lambda>m. load64 m (stop kd x) \<noteq> 0) s ws s'" and C: "c_blocks C = B" "guarded_calls C stop" "layout_ok C"
    and s: "drain_inv C G {(kd, x)} s" "load64 (shared s) (stop kd x) \<noteq> 0"
  shows "drain_inv C G {(kd, x)} s' \<and> load64 (shared s') (stop kd x) \<noteq> 0 \<and>
    (\<forall>a \<in> c_home C kd x. load64 (shared s') a = load64 (drained ws (shared s)) a) \<and>
    (\<exists>es. log s' = log s @ es \<and> spared {(kd, x)} es)"
  using assms(1)
proof induction
  case d_none
  then show ?case using s by (simp add: drained_def spared_def)
next
  case (d_thread ws s' s'')
  have i: "drain_inv C G {(kd, x)} s'" "stopped stop {(kd, x)} (shared s')"
    using d_thread(4) by (simp_all add: stopped_def)
  obtain es where es: "log s' = log s @ es" "spared {(kd, x)} es" using d_thread(4) by blast
  obtain es' where es': "log s'' = log s' @ es'" "spared {(kd, x)} es'"
    using step_spares(2) [OF d_thread(2) C i] by blast
  have "log s'' = log s @ es @ es'" "spared {(kd, x)} (es @ es')"
    using es es' by (auto simp: spared_def)
  moreover have "\<forall>a \<in> c_home C kd x. load64 (shared s'') a = load64 (drained ws (shared s)) a"
    using step_spares(1) [OF d_thread(2) C i, of kd x] d_thread(4) by simp
  ultimately show ?case using step_drain_inv [OF d_thread(2) C i] d_thread(3) by blast
next
  case (d_write ws s' p kd' x')
  have "load64 (put (Some p) (shared s')) a = load64 (drained (ws @ [p]) (shared s)) a"
    if a: "a \<in> c_home C kd x" for a
    using home_separate [OF C(3) d_write(2) a] d_write(4) a
    by (cases "fst p = a") (simp_all add: drained_def put_Some mem_simps)
  then show ?case using write_drain_inv [OF C _ d_write(2)] d_write(3,4) by simp
qed

text \<open>An interruption of a CPU clears it, also with a drainer at work.\<close>

lemma served_guard:
  assumes C: "c_blocks C = B" "guarded_calls C stop" "layout_ok C"
    and ok: "drain_inv C G {} s" and sv: "served C c s s'"
  shows "reachable C s s' \<and> cleared C CPU_ID_OFF c s'"
  using sv unfolding served_def
proof
  assume "\<exists>i<c_threads C. \<exists>x. on s i = Some x \<and> fst x = c \<and> s' = interrupt_at C i x s"
  then obtain i x where i: "i < c_threads C" "on s i = Some x" "fst x = c" "s' = interrupt_at C i x s"
    by blast
  have ix: "indexed C s" using ok by (simp add: drain_inv_def)
  have st: "drain_inv C G {} (stop_at i s)"
    by (rule step_drain_inv [OF stop_step [OF i(1,2)] C ok]) (simp add: stopped_def)
  have "\<not> in_section B (thr s' i)"
  proof (cases "thr (stop_at i s) i")
    case None
    then show ?thesis by (simp add: i(4) interrupt_at_def resume_at_def in_section_def)
  next
    case (Some t)
    have "on (stop_at i s) i = None" by (simp add: stop_at_def)
    then have "guard_thread C G {} (shared (stop_at i s)) False i t"
      using drain_invD [OF st i(1) Some] by simp
    from guard_resume(2) [OF C(1,2) this, of x] show ?thesis
      using Some C(1) by (simp add: i(4) interrupt_at_def resume_at_def)
  qed
  then have "cleared C CPU_ID_OFF c s'"
    using index_holder [OF ix i(1,2)] i(3) C(1)
    by (auto simp: cleared_def cpu_index_at i(4) interrupt_on [OF i(2)])
  then show ?thesis using interrupt_reaches [OF ix i(1,2)] i(4) by simp
next
  assume "(\<forall>i<c_threads C. \<forall>x. on s i = Some x \<longrightarrow> fst x \<noteq> c) \<and> s' = s"
  then show ?thesis unfolding cleared_def cpu_index_at by (force intro: reachable.start)
qed

end

section \<open>Property\<close>

text \<open>The states that threads and a drainer can reach.\<close>

definition drainable :: "'j config \<Rightarrow> mem \<Rightarrow> sys \<Rightarrow> bool" where
  "drainable C mi s \<longleftrightarrow> (\<exists>ws. drain C (\<lambda>_. True) (idle mi) ws s)"

lemma drain_reachable: "reachable C s s' \<Longrightarrow> drain C (\<lambda>_. True) si ws s \<Longrightarrow> drain C (\<lambda>_. True) si ws s'"
  by (induction rule: reachable.induct) (auto intro: d_thread)

lemma drainable_states:
  assumes "guard_module B G" "c_blocks C = B" "guarded_calls C stop" "layout_ok C"
  shows "states_ok C (drainable C mi)"
  using guard_module.drain_history [OF assms(1) _ assms(2-4)] drain_reachable
  by (fastforce simp: states_ok_def drainable_def drain_inv_def)

text \<open>While only threads run, a stop word stays as it is.\<close>

lemma reachable_drain:
  assumes "guard_module B G" and C: "c_blocks C = B" "guarded_calls C stop" "layout_ok C"
    and "drain_inv C G {} s" "stop kd x \<in> c_home C kd x" "load64 (shared s) (stop kd x) \<noteq> 0"
    and "reachable C s s'"
  shows "drain C (\<lambda>m. load64 m (stop kd x) \<noteq> 0) s [] s' \<and> drain_inv C G {} s' \<and>
    load64 (shared s') (stop kd x) \<noteq> 0"
  using assms(8)
proof induction
  case start
  then show ?case using assms(5,7) by (auto intro: d_none)
next
  case (one s' s'')
  have e: "stopped stop {} (shared s')" by (simp add: stopped_def)
  have i: "drain_inv C G {} s'" using one(3) by blast
  have w: "load64 (shared s'') (stop kd x) \<noteq> 0"
    using guard_module.step_spares(1) [OF assms(1) one(2) C i e, of kd x] assms(6) one(3) by simp
  have "drain_inv C G {} s''" by (rule guard_module.step_drain_inv [OF assms(1) one(2) C i e])
  then show ?case using w d_thread [OF _ one(2), of "\<lambda>m. load64 m (stop kd x) \<noteq> 0" s "[]"] one(3) by blast
qed

lemma drain_append:
  "drain C H s' vs s'' \<Longrightarrow> drain C H s ws s' \<Longrightarrow> drain C H s (ws @ vs) s''"
  by (induction rule: drain.induct) (auto intro: d_thread d_write simp flip: append_assoc)

text \<open>
  C17: draining a CPU, on either target. The threads use their words only under
  \<open>compare_exchange_if\<close> with the stop word of their index as the second word, which must be zero,
  and have been doing so under any scheduling, with the drainer writing words at any time. When
  the stop word is set and \<open>Rseq::fence\<close> of the CPU has returned true, then for as long as the
  stop word stays set no thread stores to a word of that CPU: the words are what the stores of
  the drainer make of them, and no call on them has committed, whatever it had read before.
\<close>

theorem drain_exclusive:
  assumes "guard_module B G" "c_blocks C = B" "guarded_calls C stop" "layout_ok C"
    and "mb_restarts C (drainable C mi) sys view" "drainable C mi (view k)"
    and "stop CPU_ID_OFF (CpuId_get cpu) \<in> c_home C CPU_ID_OFF (CpuId_get cpu)"
    and "load64 (shared (view k)) (stop CPU_ID_OFF (CpuId_get cpu)) \<noteq> 0"
    and "Rseq_fence sys r cpu st k = (True, st', k')"
    and "drain C (\<lambda>m. load64 m (stop CPU_ID_OFF (CpuId_get cpu)) \<noteq> 0) (view k') ws s"
  shows "(\<forall>a \<in> c_home C CPU_ID_OFF (CpuId_get cpu).
      load64 (shared s) a = load64 (drained ws (shared (view k'))) a) \<and>
    (\<exists>es. log s = log (view k') @ es \<and> spared {(CPU_ID_OFF, CpuId_get cpu)} es)"
proof -
  let ?x = "CpuId_get cpu" and ?kd = CPU_ID_OFF
  note G = assms(1) and C = assms(2-4)
  have "mb_run sys PRIVATE_EXPEDITED_RSEQ FLAG_CPU ?x st k = (True, st', k')"
    using assms(9) by (auto simp: Rseq_fence_def mb_fence_def split: if_splits)
  from run_served [OF drainable_states [OF G C] assms(6,5) this] obtain s1 s2 where
    s: "reachable C (view k) s1" "served C ?x s1 s2" "reachable C s2 (view k')" by blast
  have i0: "drain_inv C G {} (view k)"
    using assms(6) guard_module.drain_history [OF G _ C] by (auto simp: drainable_def)
  have s1: "drain_inv C G {} s1" "load64 (shared s1) (stop ?kd ?x) \<noteq> 0"
    using reachable_drain [OF G C i0 assms(7,8) s(1)] by blast+
  note sv = guard_module.served_guard [OF G C s1(1) s(2)]
  have s2: "drain_inv C G {} s2" "load64 (shared s2) (stop ?kd ?x) \<noteq> 0"
    using reachable_drain [OF G C s1(1) assms(7) s1(2)] sv by blast+
  have k': "drain C (\<lambda>m. load64 m (stop ?kd ?x) \<noteq> 0) s2 [] (view k')"
    using reachable_drain [OF G C s2(1) assms(7) s2(2) s(3)] by blast
  have "id_off_ok ?kd" by (simp add: id_off_ok_def)
  from guard_module.drain_seal [OF G C(1,2) s2(1) conjunct2 [OF sv] this]
  have "drain_inv C G {(?kd, ?x)} s2" .
  from guard_module.sealed_run [OF G k' C this s2(2)]
  have "drain_inv C G {(?kd, ?x)} (view k')" "load64 (shared (view k')) (stop ?kd ?x) \<noteq> 0" by blast+
  from guard_module.sealed_run [OF G assms(10) C this] show ?thesis by blast
qed

section \<open>A concrete drain\<close>

text \<open>Two threads whose calls are guarded by the stop word of CPU 1.\<close>

definition home2 :: "nat \<Rightarrow> u32 \<Rightarrow> u64 set" where
  "home2 k x = (if k = CPU_ID_OFF \<and> x = 1 then {0x2008, 0x3008} else {})"

definition stop2 :: "nat \<Rightarrow> u32 \<Rightarrow> u64" where
  "stop2 k x = 0x3008"

definition calls2 :: "cs_call \<Rightarrow> bool" where
  "calls2 c \<longleftrightarrow> off c = CPU_ID_OFF \<and> ident c = 1 \<and> (case oper c of
     Compare_exchange_if w e n x xe \<Rightarrow> w = 0x2008 \<and> x = 0x3008 \<and> xe = 0 | _ \<Rightarrow> False)"

definition config2 :: "'j blocks \<Rightarrow> 'j config" where
  "config2 B = \<lparr>c_blocks = B, c_area = (\<lambda>i. if i = 0 then 0x1000 else 0x1100), c_threads = 2,
     c_home = home2, c_calls = calls2, c_inv = (\<lambda>_. True)\<rparr>"

definition call2 :: cs_call where
  "call2 = \<lparr>off = CPU_ID_OFF, ar = 0x1000, ident = 1, oper = Compare_exchange_if 0x2008 0 5 0x3008 0\<rparr>"

lemma config2_layout: "layout_ok (config2 B)"
proof -
  have "separate 0x1000 32 0x1100 32" "separate 0x1000 32 0x2008 8" "separate 0x1000 32 0x3008 8"
    "separate 0x1100 32 0x2008 8" "separate 0x1100 32 0x3008 8" "separate 0x2008 8 0x3008 8"
    by (rule separate_below; simp)+
  then show ?thesis
    by (auto simp: layout_ok_def config2_def home2_def less_2_cases_iff dest: separate_sym
        split: if_splits)
qed

lemma config2_calls: "guarded_calls (config2 B) stop2"
  using CpuId_off_ok
  by (auto simp: guarded_calls_def config2_def calls2_def home2_def stop2_def CpuId_kind_def
      split: cs_op.splits)

text \<open>The first thread has checked its word and the stop word; its next instruction is the commit.\<close>

lemma x86_before_commit:
  "\<exists>s t. reachable (config2 x86_blocks) (idle m0) s \<and> on s 0 = Some (1, 1) \<and> thr s 0 = Some t \<and>
     t_call t = call2 \<and> pc (t_st t) = 13"
proof -
  let ?C = "config2 x86_blocks" and ?m = "kernel_update 0x1000 (1, 1) m0"
  have c: "0 < c_threads ?C" "c_calls ?C call2" "ar call2 = c_area ?C 0"
      "alloc_ok (alloc env0) (b_binds (c_blocks ?C) call2)" "?m = kernel_update (c_area ?C 0) (1, 1) m0"
    by (simp_all add: config2_def call2_def calls2_def x86_blocks_def x86_compare_exchange_if_binds_def
        env0_def plain_env_def)
  have go: "replicate 12 Go = [Go, Go, Go, Go, Go, Go, Go, Go, Go, Go, Go, Go]"
    by (simp add: numeral_eq_Suc)
  have w: "separate 0x1000 32 0x2008 8" "separate 0x1000 32 0x3008 8" by (rule separate_below; simp)+
  then have m: "load64 ?m 0x2008 = 0" "load64 ?m 0x3008 = 0"
    by (simp_all add: kernel_update_word) (simp_all add: m0_def)
  have n: "load64 (store64 ?m (0x1000 + of_nat CS_OFF) v) 0x2008 = 0"
      "load64 (store64 ?m (0x1000 + of_nat CS_OFF) v) 0x3008 = 0"
      "load32 (store64 ?m (0x1000 + of_nat CS_OFF) v) (0x1000 + of_nat CPU_ID_OFF) = 1" for v
    using w m kernel_update_index(1) [of "0x1000" "(1, 1)" m0] by (simp_all add: mem_simps id_off_ok_def)
  have "\<exists>st' tr'. run (b_exec (c_blocks ?C) (alloc env0) (cs_addr env0)) (b_prog (c_blocks ?C) call2)
      (replicate 12 Go) (entry (b_binds (c_blocks ?C) call2) env0 ?m) [] = Some (st', tr') \<and> pc st' = 13"
    using n
    by (simp add: config2_def call2_def x86_blocks_def x86_compare_exchange_if_binds_def env0_def plain_env_def
        link_def x86_compare_exchange_if_asm_def x86_map_def entry_def finished_def step_def Let_def go)
  then obtain st' tr' where r: "run (b_exec (c_blocks ?C) (alloc env0) (cs_addr env0))
      (b_prog (c_blocks ?C) call2) (replicate 12 Go) (entry (b_binds (c_blocks ?C) call2) env0 ?m) [] =
      Some (st', tr')" "pc st' = 13" by blast
  from begin_reaches [OF c r(1)] r(2) show ?thesis by (force simp: begin_call_def)
qed

text \<open>
  The drainer sets the stop word at that moment, fences CPU 1, and stores 7: the thread's commit
  does not happen.
\<close>

theorem drain_exclusive_witness:
  "\<exists>s t k s'. on s 0 = Some (1, 1) \<and> thr s 0 = Some t \<and> t_call t = call2 \<and> pc (t_st t) = 13 \<and>
     Rseq_fence (sys_kernel (config2 x86_blocks)) rseq0 (CpuId 1) mb_start
       (False, s\<lparr>shared := put (Some (0x3008, 1)) (shared s)\<rparr>) = (True, \<lparr>READY = Some True, USED = True\<rparr>, k) \<and>
     drain (config2 x86_blocks) (\<lambda>m. load64 m 0x3008 \<noteq> 0) (snd k) [(0x2008, 7)] s' \<and>
     load64 (shared s') 0x2008 = 7"
proof -
  let ?C = "config2 x86_blocks" and ?H = "\<lambda>m. load64 m 0x3008 \<noteq> 0"
  have C: "c_blocks ?C = x86_blocks" by (simp add: config2_def)
  note G = x86_guarded.guard_module_axioms and C' = C config2_calls config2_layout
  obtain s t where s: "reachable ?C (idle m0) s" "on s 0 = Some (1, 1)" "thr s 0 = Some t"
      "t_call t = call2" "pc (t_st t) = 13"
    using x86_before_commit by blast
  let ?s = "s\<lparr>shared := put (Some (0x3008, 1)) (shared s)\<rparr>"
  have home: "0x3008 \<in> c_home ?C CPU_ID_OFF 1" "0x2008 \<in> c_home ?C CPU_ID_OFF 1"
    by (simp_all add: config2_def home2_def)
  have "drain ?C (\<lambda>_. True) (idle m0) [] s" using drain_reachable [OF s(1) d_none] .
  from d_write [OF this, of "(0x3008, 1)" CPU_ID_OFF 1] have dr: "drainable ?C m0 ?s"
    using home(1) unfolding drainable_def by auto
  have st: "load64 (shared ?s) 0x3008 \<noteq> 0" by (simp add: put_Some mem_simps)
  define k where "k = (True, interrupt_all ?C (\<lambda>c. FLAG_CPU = 0 \<or> c = 1) [0..<c_threads ?C] ?s)"
  have f: "Rseq_fence (sys_kernel ?C) rseq0 (CpuId 1) mb_start (False, ?s) =
      (True, \<lparr>READY = Some True, USED = True\<rparr>, k)"
    by (simp add: Rseq_fence_def rseq0_def mb_fence_def mb_run_def mb_ready_def mb_register_def
        mb_start_def k_def)
  let ?s' = "snd k\<lparr>shared := put (Some (0x2008, 7)) (shared (snd k))\<rparr>"
  have ok: "states_ok ?C (drainable ?C m0)" by (rule drainable_states [OF G C'])
  have "\<forall>i \<in> set [0..<c_threads ?C]. i < c_threads ?C" by simp
  from interrupt_all_served [OF ok dr this] have "reachable ?C ?s (snd k)" by (simp add: k_def)
  then have "load64 (shared (snd k)) 0x3008 \<noteq> 0"
    using reachable_drain [OF G C', of ?s CPU_ID_OFF 1 "snd k"] states_ok_def
      guard_module.drain_history [OF G _ C'] dr home(1) st
    by (fastforce simp: drainable_def stop2_def)
  moreover have "separate 0x2008 8 0x3008 8" by (rule separate_below) simp_all
  ultimately have "load64 (put (Some (0x2008, 7)) (shared (snd k))) 0x3008 \<noteq> 0"
    by (simp add: put_Some mem_simps)
  from d_write [OF d_none, of "(0x2008, 7)" ?C CPU_ID_OFF 1 ?H, OF _ this] have
    d: "drain ?C ?H (snd k) [(0x2008, 7)] ?s'" using home(2) by simp
  have "\<forall>a \<in> c_home ?C CPU_ID_OFF 1. load64 (shared ?s') a = load64 (drained [(0x2008, 7)] (shared (snd k))) a"
    using drain_exclusive [OF G C' sys_kernel_restarts [OF ok], where k = "(False, ?s)" and cpu = "CpuId 1"
        and r = rseq0 and st = mb_start and k' = k and s = ?s' and ws = "[(0x2008, 7)]"
        and st' = "\<lparr>READY = Some True, USED = True\<rparr>"] dr home st f d by (simp add: stop2_def)
  then have "load64 (shared ?s') 0x2008 = load64 (drained [(0x2008, 7)] (shared (snd k))) 0x2008"
    using home(2) by blast
  then have "load64 (shared ?s') 0x2008 = 7" by (simp add: drained_def put_Some mem_simps)
  then show ?thesis using s(2-5) f d by blast
qed

end
