(* ===== verification/Freelist.thy ===== *)
theory Freelist
  imports Program
begin

text \<open>
  The per-CPU stack that the pointer operations are for (README, \<open>benches/freelist.rs\<close>,
  \<open>tests/ops.rs\<close>): nodes linked through a word, popped by \<open>load_if_ne\<close> on the head and pushed
  by \<open>store_if\<close> with the node's link as the scratch word. Against lists: what the words of an
  index represent after any run of any number of threads.
\<close>

section \<open>Stacks in memory\<close>

text \<open>The list of nodes from a pointer on; zero ends it. \<open>d\<close> is the offset of the link in a node.\<close>

fun chain :: "mem \<Rightarrow> u64 \<Rightarrow> u64 \<Rightarrow> u64 list \<Rightarrow> bool" where
  "chain m d p [] \<longleftrightarrow> p = 0"
| "chain m d p (x # xs) \<longleftrightarrow> p = x \<and> x \<noteq> 0 \<and> chain m d (load64 m (x + d)) xs"

text \<open>The nodes of a stack: no link overlaps another or the head, and none is null.\<close>

definition nodes_ok :: "u64 \<Rightarrow> u64 \<Rightarrow> u64 set \<Rightarrow> bool" where
  "nodes_ok h d N \<longleftrightarrow> 0 \<notin> N \<and> (\<forall>x\<in>N. separate h 8 (x + d) 8) \<and>
     (\<forall>x\<in>N. \<forall>y\<in>N. x \<noteq> y \<longrightarrow> separate (x + d) 8 (y + d) 8)"

definition stack :: "mem \<Rightarrow> u64 \<Rightarrow> u64 \<Rightarrow> u64 set \<Rightarrow> u64 list \<Rightarrow> bool" where
  "stack m h d N xs \<longleftrightarrow> chain m d (load64 m h) xs \<and> set xs \<subseteq> N \<and> distinct xs"

definition top_of :: "u64 list \<Rightarrow> u64" where
  "top_of xs = (case xs of [] \<Rightarrow> 0 | x # _ \<Rightarrow> x)"

text \<open>The two operations, as the callers make them.\<close>

definition pop_op :: "u64 \<Rightarrow> u64 \<Rightarrow> cs_op" where
  "pop_op h d = Load_if_ne h 0 d"

definition push_op :: "u64 \<Rightarrow> u64 \<Rightarrow> u64 \<Rightarrow> u64 \<Rightarrow> cs_op" where
  "push_op h d e x = Store_if h e x (x + d) e"

lemma chain_top: "chain m d p xs \<Longrightarrow> p = top_of xs"
  by (cases xs) (simp_all add: top_of_def)

lemma chain_cong:
  "\<forall>x \<in> set xs. load64 m' (x + d) = load64 m (x + d) \<Longrightarrow> chain m' d p xs = chain m d p xs"
  by (induction xs arbitrary: p) auto

lemma stack_cong:
  assumes "load64 m' h = load64 m h" "\<forall>x \<in> set xs. load64 m' (x + d) = load64 m (x + d)"
  shows "stack m' h d N xs = stack m h d N xs"
  using assms chain_cong [of xs m' d m] by (simp add: stack_def)

text \<open>A store to the link of a node that is not on the stack is not seen; one to the head is a list.\<close>

lemma stack_link:
  assumes "nodes_ok h d N" "stack m h d N xs" "x \<in> N" "x \<notin> set xs"
  shows "stack (store64 m (x + d) v) h d N xs"
proof -
  have "load64 (store64 m (x + d) v) h = load64 m h"
    using assms(1,3) by (simp add: nodes_ok_def mem_simps separate_sym)
  moreover have "load64 (store64 m (x + d) v) (y + d) = load64 m (y + d)" if "y \<in> set xs" for y
  proof -
    have "y \<in> N" "y \<noteq> x" using assms(2,4) that by (auto simp: stack_def)
    then have "separate (x + d) 8 (y + d) 8" using assms(1,3) by (auto simp: nodes_ok_def)
    then show ?thesis by (simp add: mem_simps)
  qed
  ultimately show ?thesis using stack_cong [of "store64 m (x + d) v" h m xs d N] assms(2) by simp
qed

lemma chain_head:
  assumes "nodes_ok h d N" "set xs \<subseteq> N"
  shows "chain (store64 m h v) d p xs = chain m d p xs"
  using assms by (intro chain_cong ballI) (auto simp: nodes_ok_def mem_simps subset_iff)

section \<open>The operations are list operations\<close>

text \<open>\<open>pop\<close>: the head of the list, or \<open>Miss\<close> with null on the empty stack.\<close>

lemma pop_refines:
  assumes "nodes_ok h d N" "stack m h d N xs"
  shows "case xs of
      [] \<Rightarrow> op_spec (pop_op h d) m = (AMiss 0, None)
    | x # ys \<Rightarrow> (\<exists>v. op_spec (pop_op h d) m = (AOk x, Some (h, v)) \<and> stack (store64 m h v) h d N ys)"
proof (cases xs)
  case Nil
  then show ?thesis using assms(2) by (simp add: pop_op_def stack_def)
next
  case (Cons x ys)
  then have "load64 m h = x" "x \<noteq> 0" "chain m d (load64 m (x + d)) ys" "set ys \<subseteq> N" "distinct ys"
    using assms(2) by (auto simp: stack_def)
  then show ?thesis using Cons chain_head [OF assms(1)]
    by (simp add: pop_op_def stack_def Let_def mem_simps)
qed

text \<open>\<open>push\<close>: when the link holds the head, the node is on top; with a stale head, \<open>Miss\<close>.\<close>

lemma push_refines:
  assumes "nodes_ok h d N" "stack m h d N xs" "x \<in> N" "x \<notin> set xs"
  shows "if e = top_of xs
    then op_spec (push_op h d e x) m = (AOk e, Some (h, x)) \<and>
      (load64 m (x + d) = e \<longrightarrow> stack (store64 m h x) h d N (x # xs))
    else op_spec (push_op h d e x) m = (AMiss (top_of xs), None)"
proof -
  have t: "load64 m h = top_of xs" using assms(2) chain_top by (auto simp: stack_def)
  have x: "x \<noteq> 0" "separate h 8 (x + d) 8" using assms(1,3) by (auto simp: nodes_ok_def)
  have "stack (store64 m h x) h d N (x # xs)" if e: "e = top_of xs" "load64 m (x + d) = e"
  proof -
    have "chain m d e xs" "set xs \<subseteq> N" "distinct xs" using assms(2) t e by (simp_all add: stack_def)
    moreover have "load64 (store64 m h x) (x + d) = e" using x(2) e(2) by (simp add: mem_simps)
    ultimately show ?thesis
      using x(1) assms(3,4) chain_head [OF assms(1), of xs m x e]
      by (simp add: stack_def mem_simps)
  qed
  then show ?thesis using t by (simp add: push_op_def Let_def)
qed

text \<open>
  Why the pop has to be \<open>load_if_ne\<close>: a pop that reads the head and its link outside a section
  and then exchanges the head (\<open>List::pop_rseq\<close> of \<open>benches/freelist.rs\<close>) succeeds on a stack
  whose head has come back in the meantime, and puts a node back that another thread has popped.
\<close>

definition read_pop :: "u64 \<Rightarrow> u64 \<Rightarrow> mem \<Rightarrow> u64 \<times> u64" where
  "read_pop h d m = (load64 m h, load64 m (load64 m h + d))"

definition exchange_pop :: "u64 \<Rightarrow> u64 \<times> u64 \<Rightarrow> cs_op" where
  "exchange_pop h r = Compare_exchange h (fst r) (snd r)"

lemma exchange_pop_stale:
  assumes "nodes_ok h d {a, b, c}" "distinct [a, b, c]" "stack m h d {a, b, c} [a, b, c]"
    and "stack m' h d {a, b, c} [a, c]" "load64 m' (b + d) = c"
  shows "\<exists>v. op_spec (exchange_pop h (read_pop h d m)) m' = (AOk a, Some (h, v)) \<and>
    stack (store64 m' h v) h d {a, b, c} [b, c]"
proof -
  have r: "read_pop h d m = (a, b)" "load64 m' h = a" "chain m' d c [c]"
    using assms(3,4) by (auto simp: read_pop_def stack_def)
  have "chain (store64 m' h b) d b [b, c]"
    using chain_head [OF assms(1), of "[b, c]" m' b b] r(3) assms(1,5) by (simp add: nodes_ok_def)
  then show ?thesis using r assms(2)
    by (intro exI [of _ b]) (simp add: exchange_pop_def Let_def stack_def mem_simps)
qed

section \<open>Stacks of many CPUs\<close>

text \<open>One stack for each index of a kind: its head and its nodes, with the link at one offset.\<close>

record stacks =
  st_off :: nat
  heads :: "u32 \<Rightarrow> u64"
  link_at :: u64
  nodes :: "u32 \<Rightarrow> u64 set"

definition stack_home :: "stacks \<Rightarrow> nat \<Rightarrow> u32 \<Rightarrow> u64 set" where
  "stack_home S k x = (if k = st_off S then insert (heads S x) ((\<lambda>n. n + link_at S) ` nodes S x) else {})"

text \<open>The words hold null or a node of the same index.\<close>

definition stack_inv :: "stacks \<Rightarrow> mem \<Rightarrow> bool" where
  "stack_inv S m \<longleftrightarrow>
     (\<forall>x. \<forall>a \<in> stack_home S (st_off S) x. load64 m a = 0 \<or> load64 m a \<in> nodes S x)"

text \<open>A caller pops, or pushes a node of the index above the head it has read.\<close>

definition stack_call :: "stacks \<Rightarrow> cs_call \<Rightarrow> bool" where
  "stack_call S c \<longleftrightarrow> off c = st_off S \<and> (let i = ident c in
     oper c = pop_op (heads S i) (link_at S) \<or>
     (\<exists>e x. x \<in> nodes S i \<and> (e = 0 \<or> e \<in> nodes S i) \<and> oper c = push_op (heads S i) (link_at S) e x))"

definition stack_config :: "'j blocks \<Rightarrow> (nat \<Rightarrow> u64) \<Rightarrow> nat \<Rightarrow> stacks \<Rightarrow> 'j config" where
  "stack_config B area n S = \<lparr>c_blocks = B, c_area = area, c_threads = n, c_home = stack_home S,
     c_calls = stack_call S, c_inv = stack_inv S\<rparr>"

text \<open>The head is no link, no node is null, and nothing overlaps.\<close>

definition stacks_ok :: "'j config \<Rightarrow> stacks \<Rightarrow> bool" where
  "stacks_ok C S \<longleftrightarrow> id_off_ok (st_off S) \<and> layout_ok C \<and>
     (\<forall>x. 0 \<notin> nodes S x \<and> heads S x \<notin> (\<lambda>n. n + link_at S) ` nodes S x)"

lemma stack_apart:
  assumes "stacks_ok (stack_config B area n S) S" "a \<in> stack_home S k x" "b \<in> stack_home S k y" "a \<noteq> b \<or> x \<noteq> y"
  shows "separate a 8 b 8"
proof -
  have "layout_ok (stack_config B area n S)" using assms(1) by (simp add: stacks_ok_def)
  from home_separate [OF this, of a k x b k y] show ?thesis
    using assms(2-4) by (auto simp: stack_config_def split: if_splits)
qed

lemma stack_nodes_ok:
  assumes "stacks_ok (stack_config B area n S) S"
  shows "nodes_ok (heads S x) (link_at S) (nodes S x)"
  using assms stack_apart [OF assms, of _ "st_off S" x _ x]
  by (auto simp: nodes_ok_def stacks_ok_def stack_home_def)

lemma stack_home_footprint:
  assumes "stack_call S c" "stack_inv S m" "a \<in> set (footprint (oper c) m)"
  shows "a \<in> stack_home S (off c) (ident c)"
proof -
  have "load64 m (heads S (ident c)) = 0 \<or> load64 m (heads S (ident c)) \<in> nodes S (ident c)"
    using assms(2) by (simp add: stack_inv_def stack_home_def)
  then show ?thesis using assms(1,3)
    by (auto simp: stack_call_def Let_def pop_op_def push_op_def stack_home_def split: if_splits)
qed

text \<open>A store of a call puts null or a node of the index into a word of the index.\<close>

lemma stack_store:
  assumes "stack_call S c" "stack_inv S m"
    and "scratch (oper c) = Some p \<or> snd (op_spec (oper c) m) = Some p"
  shows "fst p \<in> stack_home S (off c) (ident c)" "snd p = 0 \<or> snd p \<in> nodes S (ident c)"
proof -
  let ?i = "ident c" and ?h = "heads S (ident c)"
  have h: "load64 m ?h = 0 \<or> load64 m ?h \<in> nodes S ?i"
    and l: "\<forall>y \<in> nodes S ?i. load64 m (y + link_at S) = 0 \<or> load64 m (y + link_at S) \<in> nodes S ?i"
    using assms(2) by (auto simp: stack_inv_def stack_home_def)
  show "fst p \<in> stack_home S (off c) ?i" "snd p = 0 \<or> snd p \<in> nodes S ?i"
    using assms(1,3) h bspec [OF l, of "load64 m ?h"]
    by (auto simp: stack_call_def Let_def pop_op_def push_op_def stack_home_def split: if_splits)
qed

lemma stack_calls_ok:
  assumes "stacks_ok (stack_config B area n S) S"
  shows "calls_ok (stack_config B area n S)"
proof -
  have inv: "stack_inv S (put (Some p) m)"
    if c: "stack_call S c" "stack_inv S m" "scratch (oper c) = Some p \<or> snd (op_spec (oper c) m) = Some p" for c m p
    unfolding stack_inv_def
  proof (intro allI ballI)
    fix x a assume a: "a \<in> stack_home S (st_off S) x"
    have k: "off c = st_off S" using c(1) by (simp add: stack_call_def)
    note s = stack_store [OF c, unfolded k]
    show "load64 (put (Some p) m) a = 0 \<or> load64 (put (Some p) m) a \<in> nodes S x"
    proof (cases "fst p = a \<and> ident c = x")
      case True
      then show ?thesis using s(2) by (auto simp: put_Some mem_simps)
    next
      case False
      then have "separate (fst p) 8 a 8" using stack_apart [OF assms s(1) a] by blast
      then show ?thesis using c(2) a by (simp add: put_Some mem_simps stack_inv_def)
    qed
  qed
  have "side_apart (oper c)" if "stack_call S c" for c
    using that stack_nodes_ok [OF assms, of "ident c"]
    by (auto simp: stack_call_def Let_def pop_op_def push_op_def nodes_ok_def separate_sym)
  moreover have "id_off_ok (off c)" if "stack_call S c" for c
    using that assms by (simp add: stack_call_def stacks_ok_def)
  moreover have "stack_inv S m'" if "stack_inv S m" "\<forall>k x. \<forall>a\<in>stack_home S k x. load64 m' a = load64 m a" for m m'
    using that unfolding stack_inv_def by metis
  ultimately show ?thesis using inv stack_home_footprint
    unfolding calls_ok_def stack_config_def config.simps by blast
qed

section \<open>The log as a run on lists\<close>

text \<open>
  The entries of one index as operations on the list of its nodes. A caller may only push a node
  that is not on the stack, from the scratch store on: otherwise there is no result.
\<close>

fun list_run :: "u32 \<Rightarrow> entry list \<Rightarrow> u64 list \<Rightarrow> u64 list option" where
  "list_run i [] xs = Some xs"
| "list_run i (Scratch c p # l) xs = (if ident c \<noteq> i then list_run i l xs
     else case oper c of
       Store_if w e x s sn \<Rightarrow> if x \<in> set xs then None else list_run i l xs
     | _ \<Rightarrow> None)"
| "list_run i (Commit c p # l) xs = (if ident c \<noteq> i then list_run i l xs
     else case oper c of
       Load_if_ne w en d \<Rightarrow> (case xs of [] \<Rightarrow> None | x # ys \<Rightarrow> list_run i l ys)
     | Store_if w e x s sn \<Rightarrow> if x \<in> set xs then None else list_run i l (x # xs)
     | _ \<Rightarrow> None)"

text \<open>A store of another index is not seen.\<close>

lemma stack_other:
  assumes "stacks_ok (stack_config B area n S) S" "stack_call S c" "stack_inv S m" "ident c \<noteq> i"
    and "scratch (oper c) = Some p \<or> snd (op_spec (oper c) m) = Some p"
    and "stack m (heads S i) (link_at S) (nodes S i) xs"
  shows "stack (put (Some p) m) (heads S i) (link_at S) (nodes S i) xs"
proof -
  have "off c = st_off S" using assms(2) by (simp add: stack_call_def)
  then have p: "fst p \<in> stack_home S (st_off S) (ident c)"
    using stack_store(1) [OF assms(2,3,5)] by simp
  have s: "load64 (put (Some p) m) a = load64 m a" if "a \<in> stack_home S (st_off S) i" for a
  proof -
    have "separate (fst p) 8 a 8" by (rule stack_apart [OF assms(1) p that]) (simp add: assms(4))
    then show ?thesis by (simp add: put_Some mem_simps)
  qed
  have "stack (put (Some p) m) (heads S i) (link_at S) (nodes S i) xs =
      stack m (heads S i) (link_at S) (nodes S i) xs"
    using assms(6) by (intro stack_cong ballI s) (auto simp: stack_def stack_home_def)
  then show ?thesis using assms(6) by simp
qed

text \<open>One entry of the log: the list follows the memory.\<close>

lemma scratch_stack:
  assumes S: "stacks_ok (stack_config B area n S) S" and c: "stack_call S c" "stack_inv S m"
    and p: "scratch (oper c) = Some p" and l: "list_run i (Scratch c p # l) xs = Some ys"
    and st: "stack m (heads S i) (link_at S) (nodes S i) xs"
  shows "stack (put (Some p) m) (heads S i) (link_at S) (nodes S i) xs \<and> list_run i l xs = Some ys"
proof (cases "ident c = i")
  case False
  from stack_other [OF S c False _ st] p l False show ?thesis by simp
next
  case True
  then obtain e x where o: "oper c = push_op (heads S i) (link_at S) e x" "x \<in> nodes S i"
    using c(1) p by (auto simp: stack_call_def Let_def pop_op_def)
  then have x: "x \<notin> set xs" "list_run i l xs = Some ys"
    using l True by (auto simp: push_op_def split: if_splits)
  have "p = (x + link_at S, e)" using p o by (simp add: push_op_def)
  then show ?thesis using stack_link [OF stack_nodes_ok [OF S] st o(2) x(1)] x(2) by (simp add: put_Some)
qed

lemma commit_stack:
  assumes S: "stacks_ok (stack_config B area n S) S" and c: "stack_call S c" "stack_inv S m"
    and p: "snd (op_spec (oper c) m) = Some p" "prepared (oper c) m"
    and l: "list_run i (Commit c p # l) xs = Some ys"
    and st: "stack m (heads S i) (link_at S) (nodes S i) xs"
  shows "\<exists>zs. stack (put (Some p) m) (heads S i) (link_at S) (nodes S i) zs \<and> list_run i l zs = Some ys"
proof (cases "ident c = i")
  case False
  from stack_other [OF S c False _ st] p(1) l False show ?thesis by (intro exI [of _ xs]) simp
next
  case True
  note nok = stack_nodes_ok [OF S, of i]
  from True consider "oper c = pop_op (heads S i) (link_at S)"
    | e x where "oper c = push_op (heads S i) (link_at S) e x" "x \<in> nodes S i"
    using c(1) by (auto simp: stack_call_def Let_def)
  then show ?thesis
  proof cases
    case 1
    then obtain y zs where x: "xs = y # zs" "list_run i l zs = Some ys"
      using l True by (auto simp: pop_op_def split: list.splits)
    obtain v where "p = (heads S i, v)" "stack (store64 m (heads S i) v) (heads S i) (link_at S) (nodes S i) zs"
      using pop_refines [OF nok st] x(1) p(1) 1 by auto
    then show ?thesis using x(2) by (intro exI [of _ zs]) (simp add: put_Some)
  next
    case 2
    then have x: "x \<notin> set xs" "list_run i l (x # xs) = Some ys"
      using l True by (auto simp: push_op_def split: if_splits)
    have m: "load64 m (heads S i) = e" "load64 m (x + link_at S) = e" "p = (heads S i, x)"
      using p 2(1) by (auto simp: push_op_def Let_def split: if_splits)
    then have "e = top_of xs" using st chain_top by (auto simp: stack_def)
    then have "stack (put (Some p) m) (heads S i) (link_at S) (nodes S i) (x # xs)"
      using push_refines [OF nok st 2(2) x(1), of e] m(2,3) by (simp add: put_Some)
    then show ?thesis using x(2) by blast
  qed
qed

lemma replay_stack:
  assumes S: "stacks_ok (stack_config B area n S) S"
  shows "stack_inv S m \<Longrightarrow> \<forall>e \<in> set l. stack_call S (entry_call e) \<Longrightarrow> replay m l = Some m' \<Longrightarrow>
    list_run i l xs = Some ys \<Longrightarrow> stack m (heads S i) (link_at S) (nodes S i) xs \<Longrightarrow>
    stack m' (heads S i) (link_at S) (nodes S i) ys"
proof (induction m l arbitrary: xs rule: replay.induct)
  case (1 m)
  then show ?case by simp
next
  case (2 m c p l)
  have c: "stack_call S c" using 2(3) by simp
  have p: "scratch (oper c) = Some p" and r: "replay (put (Some p) m) l = Some m'"
    using 2(4) by (auto split: if_splits)
  have inv: "stack_inv S (put (Some p) m)"
    using inv_put [OF stack_calls_ok [OF S], of m c p] 2(2) c p by (simp add: stack_config_def)
  from scratch_stack [OF S c 2(2) p 2(5,6)] show ?case using 2(1) [OF p inv _ r] 2(3) by auto
next
  case (3 m c p l)
  have c: "stack_call S c" using 3(3) by simp
  have p: "snd (op_spec (oper c) m) = Some p \<and> prepared (oper c) m"
    and r: "replay (put (Some p) m) l = Some m'"
    using 3(4) by (auto split: if_splits)
  have inv: "stack_inv S (put (Some p) m)"
    using inv_put [OF stack_calls_ok [OF S], of m c p] 3(2) c p by (simp add: stack_config_def)
  from commit_stack [OF S c 3(2) conjunct1 [OF p] conjunct2 [OF p] 3(5,6)] show ?case
    using 3(1) [OF p inv _ r] 3(3) by auto
qed

section \<open>Properties\<close>

text \<open>
  The list that the log makes of the list at the start, in every memory that has the words of
  the index as the log leaves them.
\<close>

lemma logged_stack:
  assumes S: "stacks_ok (stack_config B area n S) S" "stack_inv S mi"
    and r: "returned_ok (stack_config B area n S) s" and m: "replay mi (log s) = Some m"
    and xs: "stack mi (heads S i) (link_at S) (nodes S i) xs" "list_run i (log s) xs = Some ys"
    and eq: "\<forall>a \<in> stack_home S (st_off S) i. load64 m' a = load64 m a"
  shows "stack m' (heads S i) (link_at S) (nodes S i) ys"
proof -
  have "\<forall>e \<in> set (log s). stack_call S (entry_call e)"
    using r by (simp add: returned_ok_def stack_config_def)
  from replay_stack [OF S this m xs(2,1)]
  have st: "stack m (heads S i) (link_at S) (nodes S i) ys" .
  have e: "load64 m' a = load64 m a" if "a \<in> stack_home S (st_off S) i" for a using eq that by blast
  have "stack m' (heads S i) (link_at S) (nodes S i) ys =
      stack m (heads S i) (link_at S) (nodes S i) ys"
    by (intro stack_cong ballI e) (use st in \<open>auto simp: stack_def stack_home_def\<close>)
  with st show ?thesis by simp
qed

lemma stack_system:
  assumes "stacks_ok (stack_config B area n S) S" "stack_inv S mi"
  shows "c_blocks (stack_config B area n S) = B" "layout_ok (stack_config B area n S)"
    "calls_ok (stack_config B area n S)" "c_inv (stack_config B area n S) mi"
  using assms stack_calls_ok [OF assms(1)] by (simp_all add: stack_config_def stacks_ok_def)

text \<open>On sequentially consistent memory.\<close>

lemma stacks_are_lists:
  assumes "block_module B T" "stacks_ok (stack_config B area n S) S" "stack_inv S mi"
    and "reachable (stack_config B area n S) (idle mi) s"
    and "stack mi (heads S i) (link_at S) (nodes S i) xs" "list_run i (log s) xs = Some ys"
  shows "stack (shared s) (heads S i) (link_at S) (nodes S i) ys"
proof -
  let ?C = "stack_config B area n S"
  have inv: "sys_inv ?C T mi s"
    by (rule block_module.reachable_inv [OF assms(1,4) stack_system [OF assms(2,3)]])
  then obtain m where m: "replay mi (log s) = Some m"
    and "\<forall>k x. \<forall>a \<in> stack_home S k x. load64 m a = load64 (shared s) a"
    unfolding logged_def by (auto simp: stack_config_def)
  then have "\<forall>a \<in> stack_home S (st_off S) i. load64 (shared s) a = load64 m a" by simp
  then show ?thesis using logged_stack [OF assms(2,3) _ m assms(5,6)] inv by blast
qed

text \<open>
  C16: per-CPU stacks, on either target. Threads pop with \<open>load_if_ne\<close> and push with \<open>store_if\<close>,
  under any scheduling and migrations, and with stores that are held back in buffers and
  reordered. As long as nobody pushes a node that is on the stack of its index, the words of each
  index are at any time a proper linked list: the list that the committed pops and pushes make,
  one after the other, of the list at the start. A thread that runs on the index sees it so, and
  so it is in memory when no thread does.
\<close>

theorem buffered_stacks_are_lists:
  assumes "block_module B T" "stacks_ok (stack_config B area n S) S" "stack_inv S mi"
    and "buf_reachable (stack_config B area n S) (idle mi, \<lambda>_. []) (s, b)"
    and "stack mi (heads S i) (link_at S) (nodes S i) xs" "list_run i (log s) xs = Some ys"
  shows "if \<exists>j<n. \<exists>y. on s j = Some y \<and> index_at (st_off S) y = i
    then \<forall>j<n. \<forall>y. on s j = Some y \<and> index_at (st_off S) y = i \<longrightarrow>
      stack (seen_by s b j) (heads S i) (link_at S) (nodes S i) ys
    else stack (shared s) (heads S i) (link_at S) (nodes S i) ys"
proof -
  let ?C = "stack_config B area n S"
  note sys = stack_system [OF assms(2,3)]
  obtain F where inv: "buf_inv ?C T mi (s, b) F"
    using block_module.buf_reachable_inv [OF assms(1,4) sys] by blast
  then have r: "returned_ok ?C s" by (simp add: buf_inv_def returned_ok_def)
  from inv_buf_serialized [OF sys(2) inv] obtain m where m: "replay mi (log s) = Some m"
    "\<And>j y. j < n \<Longrightarrow> on s j = Some y \<Longrightarrow> \<forall>a\<in>stack_home S (st_off S) (index_at (st_off S) y).
      load64 (seen_by s b j) a = load64 m a"
    "\<forall>j<n. \<forall>y. on s j = Some y \<longrightarrow> index_at (st_off S) y \<noteq> i \<Longrightarrow>
      \<forall>a\<in>stack_home S (st_off S) i. load64 (shared s) a = load64 m a"
    unfolding buf_serialized_def stack_config_def by auto
  note st = logged_stack [OF assms(2,3) r m(1) assms(5,6)]
  have "stack (seen_by s b j) (heads S i) (link_at S) (nodes S i) ys"
    if "j < n" "on s j = Some y" "index_at (st_off S) y = i" for j y
    by (rule st) (use m(2) [OF that(1,2)] that(3) in simp)
  moreover have "stack (shared s) (heads S i) (link_at S) (nodes S i) ys"
    if "\<not> (\<exists>j<n. \<exists>y. on s j = Some y \<and> index_at (st_off S) y = i)"
    by (rule st) (use m(3) that in blast)
  ultimately show ?thesis by auto
qed

text \<open>One node on the stack of CPU 1; a thread there pops it.\<close>

definition stacks1 :: stacks where
  "stacks1 = \<lparr>st_off = CPU_ID_OFF, heads = (\<lambda>x. 0x2000 + 8 * ucast x), link_at = 0,
     nodes = (\<lambda>x. if x = 1 then {0x1000000000} else {})\<rparr>"

definition mem1 :: mem where "mem1 = store64 m0 0x2008 0x1000000000"

definition pop1 :: cs_call where
  "pop1 = word_call CpuId_kind t0 (Word_new 0x2008 (CpuId 1)) (pop_op 0x2008 0)"

lemma head1: "unat (heads stacks1 x) = 0x2000 + 8 * unat x"
proof -
  have "unat (8 * ucast x :: u64) = 8 * unat x"
    using unat_u32_bound [of x] by (subst unat_word_ariths) (simp add: unat_ucast_u32)
  then show ?thesis
    using unat_u32_bound [of x] by (simp add: stacks1_def unat_word_ariths)
qed

lemma stacks1_ok: "stacks_ok (stack_config B (\<lambda>_. 0x1000) 1 stacks1) stacks1"
proof -
  have b: "unat (heads stacks1 x) + 8 \<le> 0x1000000000" for x
    using unat_u32_bound [of x] by (simp add: head1)
  have node: "separate (heads stacks1 x) 8 0x1000000000 8" for x
    by (rule separate_below) (use b [of x] in simp_all)
  have area: "separate 0x1000 32 (heads stacks1 x) 8" for x
    by (rule separate_below) (use b [of x] in \<open>simp_all add: head1\<close>)
  have area': "separate 0x1000 32 0x1000000000 8" by (rule separate_below) simp_all
  have eq: "heads stacks1 x = heads stacks1 y \<longleftrightarrow> x = y" for x y
    by (auto simp: word_unat_eq_iff head1)
  have heads: "separate (heads stacks1 x) 8 (heads stacks1 y) 8" if "x \<noteq> y" for x y
  proof (rule aligned_separate)
    show "aligned 8 (heads stacks1 x)" "aligned 8 (heads stacks1 y)" by (simp_all add: aligned_def head1)
  qed (use that eq in simp)
  have ne: "heads stacks1 x \<noteq> 0x1000000000" for x using separate_neq [OF node] .
  have home: "stack_home stacks1 k x = (if k = CPU_ID_OFF then
      insert (heads stacks1 x) (if x = 1 then {0x1000000000} else {}) else {})" for k x
    by (simp add: stack_home_def) (simp add: stacks1_def)
  have "layout_ok (stack_config B (\<lambda>_. 0x1000) 1 stacks1)"
    unfolding layout_ok_def stack_config_def config.simps home
    using area area' eq heads node ne separate_sym [OF node] by (auto split: if_splits)
  then show ?thesis using ne
    by (simp add: stacks_ok_def id_off_ok_def) (simp add: stacks1_def)
qed

lemma pop1_valid: "valid pop1 m" if "load64 m 0x2008 = 0x1000000000"
proof -
  have "separate 0x1000 32 0x2008 8" "separate 0x1000 32 0x1000000000 8" by (rule separate_below; simp)+
  then show ?thesis using that by (simp add: valid_def pop1_def pop_op_def concrete_simps)
qed

lemma entries_commits:
  "scratch (oper c) = None \<Longrightarrow> concat (map (\<lambda>(m, w). entries c w) tr) = map (Commit c) (commits c tr)"
  by (induction tr) (auto simp: entries_def commits_def List.map_filter_def split: option.splits)

lemma pop1_reaches:
  "\<exists>s tr. reachable (stack_config x86_blocks (\<lambda>_. 0x1000) 1 stacks1) (idle mem1) s \<and>
    rets s = [(pop1, tr, AOk 0x1000000000)] \<and> log s = map (Commit pop1) (commits pop1 tr)"
proof -
  let ?C = "stack_config x86_blocks (\<lambda>_. 0x1000) 1 stacks1" and ?m = "kernel_update 0x1000 (1, 1) mem1"
  let ?bs = "b_binds x86_blocks pop1"
  have c: "oper pop1 = Load_if_ne 0x2008 0 0" "off pop1 = CPU_ID_OFF" "ar pop1 = 0x1000" "ident pop1 = 1"
    by (simp_all add: pop1_def pop_op_def concrete_simps CpuId_kind_def)
  have C: "c_blocks ?C = x86_blocks" "0 < c_threads ?C" "c_calls ?C pop1" "ar pop1 = c_area ?C 0"
    "result_op (oper pop1) = O_current" "id_off_ok (off pop1)"
    using c by (simp_all add: stack_config_def stack_call_def pop_op_def stacks1_def Let_def id_off_ok_def)
  have b: "?bs = x86_load_if_ne_binds (ar pop1) 0x2008 (ident pop1) 0 0" "alloc_ok (alloc env0) ?bs"
    using c by (simp_all add: x86_blocks_def x86_load_if_ne_binds_def env0_def plain_env_def)
  obtain P where P: "link x86_map (x86_load_if_ne_asm (off pop1)) = Some P"
    using x86_load_if_ne_links [of "off pop1"] by (auto simp: links_def split: option.splits)
  have B: "b_prog x86_blocks pop1 = P" "b_exec x86_blocks = x86_exec"
    using P c by (simp_all add: x86_blocks_def)
  have "separate 0x1000 32 0x2008 8" by (rule separate_below) simp_all
  then have m: "load64 ?m 0x2008 = 0x1000000000"
    by (simp add: kernel_update_word mem1_def mem_simps)
  then have v: "valid pop1 (mem (entry ?bs env0 ?m))" using pop1_valid by (simp add: entry_def)
  have "solo_run (x86_exec (alloc env0) (cs_addr env0)) P ?bs O_current env0 pop1 (entry ?bs env0 ?m)"
    by (rule x86_load_if_ne_solo [OF P C(6) c(1) b v])
  then have "\<exists>s tr. reachable ?C (idle mem1) s \<and> rets s = [(pop1, tr, fst (solo pop1 (cs_addr env0) ?m))] \<and>
      log s = concat (map (\<lambda>(m, w). entries pop1 w) tr) \<and> (\<forall>i. thr s i = None)"
    using solo_reaches [OF C(2-4), of env0 ?m "(1, 1)" mem1] C(1,5) b(2) B
    by (simp add: stack_config_def)
  moreover have "matches pop1 ?m"
    using kernel_update_index(1) [of "0x1000" "(1, 1)" mem1] c by (simp add: matches_def)
  then have "fst (solo pop1 cs ?m) = AOk 0x1000000000" for cs
    using solo_outcome [OF C(6) pop1_valid [OF m]] m c by (simp add: cs_spec_def Let_def)
  ultimately show ?thesis using entries_commits [of pop1] c(1) by auto
qed

theorem buffered_stacks_are_lists_witness:
  "\<exists>s tr. buf_reachable (stack_config x86_blocks (\<lambda>_. 0x1000) 1 stacks1) (idle mem1, \<lambda>_. []) (s, \<lambda>_. []) \<and>
     rets s = [(pop1, tr, AOk 0x1000000000)] \<and> log s \<noteq> [] \<and>
     stack mem1 0x2008 0 {0x1000000000} [0x1000000000] \<and>
     stack (shared s) 0x2008 0 {0x1000000000} []"
proof -
  let ?C = "stack_config x86_blocks (\<lambda>_. 0x1000) 1 stacks1"
  obtain s tr where s: "reachable ?C (idle mem1) s" "rets s = [(pop1, tr, AOk 0x1000000000)]"
      "log s = map (Commit pop1) (commits pop1 tr)"
    using pop1_reaches by blast
  have S: "heads stacks1 1 = 0x2008" "link_at stacks1 = 0" "nodes stacks1 1 = {0x1000000000}"
    by (simp_all add: stacks1_def)
  have h: "separate 0x2008 8 0x1000000000 8" by (rule separate_below) simp_all
  then have m: "load64 mem1 0x2008 = 0x1000000000" "load64 mem1 0x1000000000 = 0"
    by (simp_all add: mem1_def mem_simps m0_def)
  have st: "stack mem1 0x2008 0 {0x1000000000} [0x1000000000]" using m by (simp add: stack_def)
  have "load64 mem1 a = 0 \<or> a = 0x2008" if "aligned 8 a" for a
  proof (cases "a = 0x2008")
    case False
    then have "separate 0x2008 8 a 8" by (intro aligned_separate that) (simp_all add: aligned_def)
    then show ?thesis by (simp add: mem1_def mem_simps m0_def)
  qed simp
  moreover have "aligned 8 (heads stacks1 x)" for x by (simp add: aligned_def head1)
  moreover have "heads stacks1 x = 0x2008 \<longleftrightarrow> x = 1" for x
    using head1 [of x] head1 [of 1] S(1) by (auto simp: word_unat_eq_iff)
  ultimately have inv: "stack_inv stacks1 mem1"
    using m S by (fastforce simp: stack_inv_def stack_home_def stacks1_def split: if_splits)
  have "linearized pop1 tr (AOk 0x1000000000)"
    using x86_sys.reachable_serialized [OF s(1)] stacks1_ok stack_calls_ok [OF stacks1_ok] inv s(2)
    by (auto simp: serialized_def stacks_ok_def stack_config_def)
  then have "length (commits pop1 tr) = 1" using linearized_count by fastforce
  then obtain p where p: "log s = [Commit pop1 p]" using s(3) by (cases "commits pop1 tr") auto
  have "list_run 1 (log s) [0x1000000000] = Some []"
    by (simp add: p pop1_def pop_op_def concrete_simps CpuId_kind_def)
  note run = this
  have r: "buf_reachable ?C (idle mem1, \<lambda>_. []) (s, \<lambda>_. [])"
    by (rule x86_sys.reachable_buffered [OF s(1) stack_system [OF stacks1_ok inv]])
  from buffered_stacks_are_lists [OF x86_sys.block_module_axioms stacks1_ok inv r _ run]
  have "stack (shared s) 0x2008 0 {0x1000000000} []" using st S
    by (auto simp: seen_by_def split: if_splits)
  moreover have "log s \<noteq> []" using p by simp
  ultimately show ?thesis using r s(2) st by blast
qed

end
