(* ===== verification/Retry.thy ===== *)
theory Retry
  imports Target Words
begin

text \<open>
  The loop of the crate's documentation (\<open>src/lib.rs\<close>): read the index, pick the word, try, and
  on \<open>Abort\<close> read the index again. The attempts are a list: for each its environment, and what
  happens to memory before the next one.
\<close>

section \<open>The loop\<close>

text \<open>
  How the loop ends: a \<open>?\<close> returned, a break with the result of the last attempt, an attempt
  that does not return, or all attempts used up.
\<close>

datatype loop_end = Gone | Broke result | Stuck | Spinning

fun cas_loop :: "cs_module \<Rightarrow> thread \<Rightarrow> words \<Rightarrow> usize \<Rightarrow> usize \<Rightarrow> (asm_env \<times> (mem \<Rightarrow> mem)) list \<Rightarrow>
    mem \<Rightarrow> loop_end \<times> mem"
where
  "cas_loop cs t ws e n [] m = (Spinning, m)"
| "cas_loop cs t ws e n ((env, f) # as) m =
     (case th_cpu_id t m of None \<Rightarrow> (Gone, m)
      | Some cpu \<Rightarrow> (case Words_get CpuId_kind ws cpu of None \<Rightarrow> (Gone, m)
        | Some w \<Rightarrow> (case compare_exchange cs CpuId_kind t w e n env m of
            Fault \<Rightarrow> (Stuck, m)
          | Running \<Rightarrow> (Stuck, m)
          | Returned r tr m' \<Rightarrow>
              if r = Inl Abort then cas_loop cs t ws e n as (f m') else (Broke r, m'))))"

section \<open>One attempt\<close>

text \<open>The thread can read its index, and the region has a word for it.\<close>

definition has_word :: "thread \<Rightarrow> words \<Rightarrow> mem \<Rightarrow> bool" where
  "has_word t ws m \<longleftrightarrow> (case th_cpu_id t m of None \<Rightarrow> False | Some cpu \<Rightarrow> CpuId_get cpu < cpus ws)"

text \<open>An environment in which every attempt of the loop is legal.\<close>

definition loop_legal ::
  "target_os \<Rightarrow> target_arch \<Rightarrow> thread \<Rightarrow> words \<Rightarrow> usize \<Rightarrow> usize \<Rightarrow> asm_env \<Rightarrow> bool" where
  "loop_legal os arch t ws e n env \<longleftrightarrow> (\<forall>w m. Words_get CpuId_kind ws (key w) = Some w \<longrightarrow>
     legal_on os arch (word_call CpuId_kind t w (Compare_exchange (word w) e n)) env m)"

lemma has_word_get:
  assumes "has_word t ws m"
  shows "\<exists>cpu w. th_cpu_id t m = Some cpu \<and> Words_get CpuId_kind ws cpu = Some w \<and>
    Words_get CpuId_kind ws (key w) = Some w \<and>
    (\<forall>p. matches (word_call CpuId_kind t w p) m)"
proof -
  obtain cpu where c: "th_cpu_id t m = Some cpu" "CpuId_get cpu < cpus ws"
    using assms by (auto simp: has_word_def split: option.splits)
  let ?w = "Word_new (Region_word (region ws) (CpuId_get cpu)) cpu"
  have "load32 m (th_area t + of_nat CPU_ID_OFF) = CpuId_get cpu"
    using c(1) by (auto simp: th_cpu_id_def CpuId_new_Some read_area_def CPU_ID_OFF_def)
  then show ?thesis using c
    by (intro exI [of _ cpu] exI [of _ ?w])
       (auto simp: Words_get_def CpuId_kind_def Word_new_def matches_def not_le Let_def)
qed

text \<open>An attempt that nothing interrupts between reading the index and the end never aborts.\<close>

lemma attempt_quiet:
  assumes "supported os arch" "matches (word_call CpuId_kind t w (Compare_exchange (word w) e n)) m"
    and "legal_on os arch (word_call CpuId_kind t w (Compare_exchange (word w) e n)) env m"
    and "events env = replicate BLOCK_MAX Go"
  shows "\<exists>r tr m'. compare_exchange (cs_of os arch) CpuId_kind t w e n env m = Returned r tr m' \<and>
    r = (if load64 m (word w) = e then Inr e else Inl (Miss (load64 m (word w))))"
proof -
  let ?c = "word_call CpuId_kind t w (Compare_exchange (word w) e n)"
  obtain tr where "call_of (cs_of os arch) ?c env m = Returned (fst (cs_spec ?c m)) tr
      (snd (solo ?c (cs_addr env) m))"
    using solo_on [OF assms(1,3,4)] solo_outcome [of ?c m "cs_addr env"] conjunct2 [OF legal_valid [OF assms(1,3)]]
    by (auto simp: solo_ok_def CpuId_off_ok)
  then show ?thesis using assms(2)
    by (auto simp: compare_exchange_def private_calls [OF CpuId_off_ok] cs_spec_def Let_def)
qed

section \<open>The loop returns\<close>

text \<open>
  The retry loop makes progress. As long as the kernel keeps the thread on CPUs that have a
  word, attempts may be interrupted, migrated and aborted any number of times; the first
  attempt that is left alone ends the loop, which never breaks with \<open>Abort\<close>: what it returns is
  the value of the word or the \<open>Miss\<close> of a compare.
\<close>

lemma loop_returns:
  assumes "supported os arch" "has_word t ws m"
    and "\<forall>(env, f) \<in> set as. quiet BLOCK_MAX env \<and> loop_legal os arch t ws e n env \<and>
      (\<forall>m. has_word t ws (f m))"
    and "loop_legal os arch t ws e n env" "events env = replicate BLOCK_MAX Go"
  shows "\<exists>r m'. cas_loop (cs_of os arch) t ws e n (as @ [(env, f)]) m = (Broke r, m') \<and>
    (r = Inr e \<or> (\<exists>v. v \<noteq> e \<and> r = Inl (Miss v)))"
  using assms(2,3)
proof (induction as arbitrary: m)
  case Nil
  obtain cpu w where w: "th_cpu_id t m = Some cpu" "Words_get CpuId_kind ws cpu = Some w"
      "Words_get CpuId_kind ws (key w) = Some w"
      "matches (word_call CpuId_kind t w (Compare_exchange (word w) e n)) m"
    using has_word_get [OF Nil(1)] by blast
  have "legal_on os arch (word_call CpuId_kind t w (Compare_exchange (word w) e n)) env m"
    using assms(4) w(3) by (simp add: loop_legal_def)
  from attempt_quiet [OF assms(1) w(4) this assms(5)] show ?case
    using w(1,2) by (auto split: if_splits)
next
  case (Cons a as)
  obtain env1 f1 where a: "a = (env1, f1)" by (cases a)
  obtain cpu w where w: "th_cpu_id t m = Some cpu" "Words_get CpuId_kind ws cpu = Some w"
      "Words_get CpuId_kind ws (key w) = Some w"
    using has_word_get [OF Cons(2)] by blast
  let ?c = "word_call CpuId_kind t w (Compare_exchange (word w) e n)"
  have q: "quiet BLOCK_MAX env1" "\<forall>m. has_word t ws (f1 m)" and l: "legal_on os arch ?c env1 m"
    using Cons(3) w(3) by (auto simp: a loop_legal_def)
  note meets = cs_atomic.compare_exchange_meets [OF cs_of_atomic [OF assms(1)] CpuId_off_ok refl l]
  from meets_returns [OF meets q(1)] obtain r tr m' where
    r: "compare_exchange (cs_of os arch) CpuId_kind t w e n env1 m = Returned r tr m'"
      "happens ?c (compare_exchange_happens ?c (word w) e n) r tr" by blast
  have out: "r = Inl Abort \<or> r = Inr e \<or> (\<exists>v. v \<noteq> e \<and> r = Inl (Miss v))"
    using r(2) by (auto simp: happens_def compare_exchange_happens_def split: if_splits)
  show ?case
  proof (cases "r = Inl Abort")
    case True
    have "\<forall>(env, f) \<in> set as. quiet BLOCK_MAX env \<and> loop_legal os arch t ws e n env \<and>
      (\<forall>m. has_word t ws (f m))" using Cons(3) by simp
    from Cons.IH [OF q(2) [rule_format] this] show ?thesis using True w r(1) a by simp
  next
    case False
    then show ?thesis using out w r(1) a by auto
  qed
qed

text \<open>A concrete environment: the words are apart from the area of the thread.\<close>

lemma loop_legal_go:
  assumes "\<And>w. Words_get CpuId_kind ws (key w) = Some w \<Longrightarrow> separate (th_area t) 32 (word w) 8"
    and "events env = replicate BLOCK_MAX Go" "env = plain_env (events env)"
  shows "loop_legal Linux Arch_x86_64 t ws e n env"
  unfolding loop_legal_def
proof (intro allI impI)
  fix w m assume "Words_get CpuId_kind ws (key w) = Some w"
  then have "valid (word_call CpuId_kind t w (Compare_exchange (word w) e n)) m"
    using assms(1) [of w] by (simp add: valid_def)
  then show "legal_on Linux Arch_x86_64 (word_call CpuId_kind t w (Compare_exchange (word w) e n)) env m"
    using legal_on_go [of "word_call CpuId_kind t w (Compare_exchange (word w) e n)"] CpuId_off_ok assms(2,3)
    by (metis word_call_simps(1))
qed

end
