(* ===== verification/Once.thy ===== *)
theory Once
  imports Prelude
begin

text \<open>
  \<open>std::sync::OnceLock\<close> with many threads: the cell is empty, being initialized by one thread
  while the others wait, or set for good. \<open>get_or_init\<close> as a machine; the statics of \<open>rseq.rs\<close>
  and \<open>membarrier.rs\<close> are such cells.
\<close>

datatype 'a once = Unset | Busy nat | Set 'a

text \<open>Where a thread is in \<open>get_or_init\<close>, and its next step: \<open>None\<close> when it waits or is done.\<close>

datatype 'a once_pc = Enter | Init | Got 'a

fun once_step :: "(nat \<Rightarrow> 'w \<Rightarrow> 'a \<times> 'w) \<Rightarrow> nat \<Rightarrow> 'a once_pc \<Rightarrow> 'a once \<Rightarrow> 'w \<Rightarrow>
    ('a once_pc \<times> 'a once \<times> 'w) option" where
  "once_step init i Enter c w = (case c of
     Unset \<Rightarrow> Some (Init, Busy i, w) | Busy j \<Rightarrow> None | Set a \<Rightarrow> Some (Got a, c, w))"
| "once_step init i Init c w = (case init i w of (a, w') \<Rightarrow> Some (Got a, Set a, w'))"
| "once_step init i (Got a) c w = None"

record ('a, 'w) once_sys =
  o_cell :: "'a once"
  o_world :: 'w
  o_at :: "nat \<Rightarrow> 'a once_pc"

inductive once_steps :: "(nat \<Rightarrow> 'w \<Rightarrow> 'a \<times> 'w) \<Rightarrow> ('a, 'w) once_sys \<Rightarrow> ('a, 'w) once_sys \<Rightarrow> bool"
  for init s where
  o_none: "once_steps init s s"
| o_move: "once_steps init s s' \<Longrightarrow>
    once_step init i (o_at s' i) (o_cell s') (o_world s') = Some (p, c, w) \<Longrightarrow>
    once_steps init s (s'\<lparr>o_cell := c, o_world := w, o_at := (o_at s')(i := p)\<rparr>)"

definition once_fresh :: "'w \<Rightarrow> ('a, 'w) once_sys" where
  "once_fresh w = \<lparr>o_cell = Unset, o_world = w, o_at = (\<lambda>_. Enter)\<rparr>"

text \<open>
  The world changes once, by the initializer of one thread; until then nobody is through, and
  afterwards everyone who is has its value.
\<close>

definition once_ok :: "(nat \<Rightarrow> 'w \<Rightarrow> 'a \<times> 'w) \<Rightarrow> 'w \<Rightarrow> ('a, 'w) once_sys \<Rightarrow> bool" where
  "once_ok init w s \<longleftrightarrow> (case o_cell s of
     Unset \<Rightarrow> o_world s = w \<and> (\<forall>i. o_at s i = Enter)
   | Busy j \<Rightarrow> o_world s = w \<and> o_at s j = Init \<and> (\<forall>i. i \<noteq> j \<longrightarrow> o_at s i = Enter)
   | Set a \<Rightarrow> (\<exists>j. init j w = (a, o_world s) \<and> o_at s j = Got a) \<and> (\<forall>i. o_at s i = Enter \<or> o_at s i = Got a))"

lemma once_ok_steps: "once_steps init (once_fresh w) s \<Longrightarrow> once_ok init w s"
proof (induction rule: once_steps.induct)
  case o_none
  show ?case by (simp add: once_ok_def once_fresh_def)
next
  case (o_move s' i p c w')
  show ?case
  proof (cases "o_at s' i")
    case Enter
    then show ?thesis using o_move(2,3) by (auto simp: once_ok_def split: once.splits)
  next
    case Init
    obtain a where a: "init i (o_world s') = (a, w')" "p = Got a" "c = Set a"
      using o_move(2) Init by (auto split: prod.splits)
    have "o_cell s' = Busy i"
    proof (cases "o_cell s'")
      case (Busy j)
      then have "i \<noteq> j \<longrightarrow> o_at s' i = Enter" using o_move(3) by (simp add: once_ok_def)
      then show ?thesis using Busy Init by auto
    next
      case (Set b)
      then have "o_at s' i = Enter \<or> o_at s' i = Got b" using o_move(3) by (simp add: once_ok_def)
      then show ?thesis using Init by simp
    qed (use o_move(3) Init in \<open>simp add: once_ok_def\<close>)
    then show ?thesis using o_move(3) a by (auto simp: once_ok_def)
  next
    case (Got a)
    then show ?thesis using o_move(2) by simp
  qed
qed

lemma once_ok_got:
  "once_ok init w s \<Longrightarrow> o_at s i = Got a \<Longrightarrow> o_cell s = Set a \<and> (\<exists>j. init j w = (a, o_world s) \<and> o_at s j = Got a)"
  by (auto simp: once_ok_def split: once.splits) (metis once_pc.distinct(3,5) once_pc.inject)+

text \<open>As long as somebody is not through, somebody can go on.\<close>

lemma once_ok_progress:
  assumes "once_ok init w s" "\<nexists>a. o_at s i = Got a"
  shows "\<exists>j x. once_step init j (o_at s j) (o_cell s) (o_world s) = Some x"
proof (cases "o_cell s")
  case Unset
  then show ?thesis using assms(1) by (intro exI [of _ i]) (simp add: once_ok_def)
next
  case (Busy j)
  then show ?thesis using assms(1) by (intro exI [of _ j]) (simp add: once_ok_def split: prod.splits)
next
  case (Set a)
  then have "o_at s i = Enter" using assms by (auto simp: once_ok_def)
  then show ?thesis using Set by (intro exI [of _ i]) simp
qed

end
