(* ===== verification/Startup.thy ===== *)
theory Startup
  imports Retry Rseq Once
begin

text \<open>
  The start of a program: \<open>Rseq::new\<close> called by many threads at once, over the once-cell, and
  then \<open>bind\<close> in each of them, against \<open>rseq(2)\<close>; and the whole example of the documentation of \<open>src/lib.rs\<close>, from \<open>new\<close> over \<open>bind\<close> and \<open>words\<close> to the
  retry loop.
\<close>

section \<open>\<open>Rseq::new\<close> from many threads\<close>

text \<open>The initializer that thread \<open>i\<close> would run: on its own platform, with its own slot.\<close>

definition new_init ::
  "'k registration \<Rightarrow> (nat \<Rightarrow> 'k platform) \<Rightarrow> (nat \<Rightarrow> u8 list option) \<Rightarrow> nat \<Rightarrow> 'k world \<Rightarrow>
   rseq option \<times> 'k world" where
  "new_init R p sysfs i w = Rseq_init R (p i) sysfs w"

text \<open>A thread by itself gets what \<open>Rseq_new\<close> returns.\<close>

fun cell_of :: "state_cell \<Rightarrow> rseq option once" where
  "cell_of None = Unset"
| "cell_of (Some r) = Set r"

lemma new_alone:
  "\<exists>p c w1. once_step (new_init R p' sysfs) i Enter (cell_of st) w = Some (p, c, w1) \<and>
    (case Rseq_new R (p' i) sysfs st w of (r, st', w') \<Rightarrow>
       p = Got r \<and> c = cell_of st' \<and> w1 = w' \<or>
       p = Init \<and> once_step (new_init R p' sysfs) i Init c w1 = Some (Got r, cell_of st', w'))"
  by (cases st) (auto simp: Rseq_new_def new_init_def split: prod.splits)

text \<open>
  Whatever the initializer is: it runs in one of the threads only, all that return get its
  result, and as long as a thread has not returned, some thread can go on.
\<close>

lemma rseq_new_agrees:
  assumes "once_steps (new_init R p sysfs) (once_fresh w) s"
  shows "(\<forall>i r. o_at s i = Got r \<longrightarrow> (\<exists>j. Rseq_init R (p j) sysfs w = (r, o_world s)) \<and>
      (\<forall>i' r'. o_at s i' = Got r' \<longrightarrow> r' = r)) \<and>
    ((\<forall>i r. o_at s i \<noteq> Got r) \<longrightarrow> o_world s = w) \<and>
    ((\<nexists>r. o_at s i = Got r) \<longrightarrow> (\<exists>j x. once_step (new_init R p sysfs) j (o_at s j) (o_cell s) (o_world s) = Some x))"
proof -
  have ok: "once_ok (new_init R p sysfs) w s" by (rule once_ok_steps [OF assms])
  have w: "o_world s = w" if n: "\<forall>i r. o_at s i \<noteq> Got r"
  proof (cases "o_cell s")
    case (Set a)
    then show ?thesis using ok n by (auto simp: once_ok_def)
  qed (use ok in \<open>simp_all add: once_ok_def\<close>)
  have g: "o_cell s = Set r \<and> (\<exists>j. Rseq_init R (p j) sysfs w = (r, o_world s))"
    if "o_at s i = Got r" for i r
    using once_ok_got [OF ok that] by (auto simp: new_init_def)
  then have "r' = r" if "o_at s i = Got r" "o_at s i' = Got r'" for i i' r r'
    using that by (metis once.inject(2))
  then show ?thesis using g once_ok_progress [OF ok, of i] w by (intro conjI allI impI) blast+
qed

section \<open>A process whose threads all start\<close>

text \<open>
  \<open>rseq(2)\<close> for many threads: the kernel has a registration for each. The threads share what
  \<open>dlsym\<close> and \<open>getauxval\<close> say; each has a slot and a CPU of its own.
\<close>

definition rseq2_of :: "(nat \<Rightarrow> u32) \<Rightarrow> nat \<Rightarrow> (nat \<Rightarrow> rseq_state) rseq_call" where
  "rseq2_of c i ptr len fl sig w = (case rseq2 (c i) ptr len fl sig (fst w, snd w i) of
     (r, m, k) \<Rightarrow> (r, m, (snd w)(i := k)))"

definition process_ok ::
  "nat \<Rightarrow> (nat \<Rightarrow> u64) \<Rightarrow> (nat \<Rightarrow> u32) \<Rightarrow> (nat \<Rightarrow> (nat \<Rightarrow> rseq_state) platform) \<Rightarrow> bool" where
  "process_ok N slot c p \<longleftrightarrow>
     (\<forall>i<N. aligned 32 (slot i) \<and> slot i \<noteq> 0 \<and> unat (c i) < 2 ^ 32 - 2 \<and> sys_rseq (p i) = rseq2_of c i \<and>
        tls_slot (p i) = Some (slot i) \<and> dlsym (p i) = dlsym (p 0) \<and> getauxval (p i) = getauxval (p 0)) \<and>
     (\<forall>i<N. \<forall>j<N. i \<noteq> j \<longrightarrow> separate (slot i) 32 (slot j) 32)"

text \<open>A slot is as it was initialised, or registered and kept up to date.\<close>

definition slot_ok_for :: "u32 \<Rightarrow> (nat \<Rightarrow> u64) \<Rightarrow> (nat \<Rightarrow> u32) \<Rightarrow> (nat \<Rightarrow> rseq_state) world \<Rightarrow> nat \<Rightarrow> bool" where
  "slot_ok_for sig slot c w i \<longleftrightarrow>
     snd w i = None \<and> cpu_id (read_area (fst w) (slot i)) = CPU_UNINIT \<or>
     snd w i = Some (slot i, 32, sig) \<and> cpu_id (read_area (fst w) (slot i)) = c i"

definition slots_ok :: "u32 \<Rightarrow> nat \<Rightarrow> (nat \<Rightarrow> u64) \<Rightarrow> (nat \<Rightarrow> u32) \<Rightarrow> (nat \<Rightarrow> rseq_state) world \<Rightarrow> bool" where
  "slots_ok sig N slot c w \<longleftrightarrow> (\<forall>i<N. slot_ok_for sig slot c w i)"

lemma read_area_apart:
  assumes "separate a 32 b 32" "k + 4 \<le> 32"
  shows "read_area (store32 m (a + of_nat k) v) b = read_area m b"
proof (rule read_area_cong, intro allI impI store32_other)
  fix i j :: nat assume "i < 32" "j < 4"
  then have "k + j < 32" using assms(2) by linarith
  then have "a + of_nat (k + j) \<noteq> b + of_nat i"
    using assms(1) \<open>i < 32\<close> unfolding separate_def by blast
  then show "b + of_nat i \<noteq> a + of_nat k + of_nat j" by (simp add: add.assoc)
qed

lemma bind_thread:
  assumes P: "process_ok N slot c p" and w: "slots_ok sig N slot c w" and i: "i < N"
  shows "\<exists>m. Registration_bind sig (p i) w = (Some (slot i), (m, (snd w)(i := Some (slot i, 32, sig)))) \<and>
    slots_ok sig N slot c (m, (snd w)(i := Some (slot i, 32, sig)))"
proof -
  have p: "aligned 32 (slot i)" "slot i \<noteq> 0" "unat (c i) < 2 ^ 32 - 2" "sys_rseq (p i) = rseq2_of c i"
    "tls_slot (p i) = Some (slot i)" using P i by (simp_all add: process_ok_def)
  have sl: "slot_ok_for sig slot c w i" using w i by (simp add: slots_ok_def)
  show ?thesis
  proof (cases "snd w i")
    case (Some x)
    then have s: "snd w i = Some (slot i, 32, sig)" "cpu_id (read_area (fst w) (slot i)) = c i"
      using sl by (auto simp: slot_ok_for_def)
    then have "(snd w)(i := Some (slot i, 32, sig)) = snd w" by (auto simp: fun_eq_iff)
    then show ?thesis using s p cpu_not_sentinel [OF p(3)] w
      by (intro exI [of _ "fst w"]) (simp add: Registration_bind_def Registration_register_def)
  next
    case None
    let ?m = "store32 (store32 (fst w) (slot i) (c i)) (slot i + of_nat CPU_ID_OFF) (c i)"
    let ?k = "(snd w)(i := Some (slot i, 32, sig))"
    have "cpu_id (read_area (fst w) (slot i)) = CPU_UNINIT" using None sl by (auto simp: slot_ok_for_def)
    then have r: "Registration_bind sig (p i) w = (Some (slot i), (?m, ?k))"
      using None p by (simp add: Registration_bind_def Registration_register_def rseq2_of_def rseq2_def
          area_size_32 FLAG_UNREGISTER_def Let_def)
    have "slot_ok_for sig slot c (?m, ?k) j" if j: "j < N" for j
    proof (cases "j = i")
      case False
      then have s: "separate (slot i) 32 (slot j) 32" using P i j by (auto simp: process_ok_def)
      have "read_area ?m (slot j) = read_area (fst w) (slot j)"
        using read_area_apart [OF s, of 0] read_area_apart [OF s, of CPU_ID_OFF] by (simp add: CPU_ID_OFF_def)
      then show ?thesis using w j False by (simp add: slots_ok_def slot_ok_for_def)
    qed (simp add: slot_ok_for_def)
    then show ?thesis using r by (auto simp: slots_ok_def)
  qed
qed

text \<open>A thread starts: it calls \<open>new\<close> and binds its area; and so do more, one after another.\<close>

definition new_bind ::
  "'k registration \<Rightarrow> 'k platform \<Rightarrow> (nat \<Rightarrow> u8 list option) \<Rightarrow> state_cell \<Rightarrow> 'k world \<Rightarrow>
   thread option \<times> state_cell \<times> 'k world" where
  "new_bind R p sysfs st w = (case Rseq_new R p sysfs st w of
       (None, st, w) \<Rightarrow> (None, st, w)
     | (Some r, st, w) \<Rightarrow> (case Rseq_bind R p r w of (t, w) \<Rightarrow> (t, st, w)))"

fun start_all ::
  "'k registration \<Rightarrow> (nat \<Rightarrow> 'k platform) \<Rightarrow> (nat \<Rightarrow> u8 list option) \<Rightarrow> nat list \<Rightarrow> state_cell \<Rightarrow> 'k world \<Rightarrow>
   thread option list \<times> 'k world" where
  "start_all R p sysfs [] st w = ([], w)"
| "start_all R p sysfs (j # js) st w = (case new_bind R (p j) sysfs st w of
     (t, st, w) \<Rightarrow> (case start_all R p sysfs js st w of (ts, w) \<Rightarrow> (t # ts, w)))"

definition self_rseq :: "'k platform \<Rightarrow> u32 \<Rightarrow> rseq" where
  "self_rseq p n = \<lparr>rs_mode = SelfRegistered, rs_cpus = n, rs_node = (24 \<le> feature_bytes p),
     rs_cid = (28 \<le> feature_bytes p), rs_slice = False\<rparr>"

definition self_thread :: "rseq \<Rightarrow> u64 \<Rightarrow> thread" where
  "self_thread r a = Thread_new a (rs_node r) (rs_cid r) (rs_slice r)"

lemma self_init:
  assumes P: "process_ok N slot c p" and w: "slots_ok sig N slot c w" and i: "i < N"
    and "glibc_area_info (p 0) (fst w) = None" "Cpus_possible sysfs = Some n"
  shows "\<exists>m. Rseq_init (linux_registration sig) (p i) sysfs w =
      (Some (self_rseq (p 0) n), (m, (snd w)(i := Some (slot i, 32, sig)))) \<and>
    slots_ok sig N slot c (m, (snd w)(i := Some (slot i, 32, sig)))"
proof -
  have p: "dlsym (p i) = dlsym (p 0)" "getauxval (p i) = getauxval (p 0)"
    using P i unfolding process_ok_def by blast+
  then have g: "glibc_area_info (p i) (fst w) = None" using assms(4) by (simp add: glibc_area_info_def)
  have "Rseq_make (linux_registration sig) (p i) SelfRegistered False n = self_rseq (p 0) n"
    by (simp add: Rseq_make_def linux_registration_def self_rseq_def node_supported_def cid_supported_def
        p feature_bytes_def NODE_FEATURE_SIZE_def CID_FEATURE_SIZE_def word_le_nat_alt)
  then show ?thesis using bind_thread [OF P w i] g assms(5)
    by (auto simp: Rseq_init_def linux_registration_def)
qed

lemma self_bind:
  assumes P: "process_ok N slot c p" and w: "slots_ok sig N slot c w" and i: "i < N"
    and r: "rs_mode r = SelfRegistered"
  shows "\<exists>m. Rseq_bind (linux_registration sig) (p i) r w =
      (Some (self_thread r (slot i)), (m, (snd w)(i := Some (slot i, 32, sig)))) \<and>
    slots_ok sig N slot c (m, (snd w)(i := Some (slot i, 32, sig)))"
proof -
  obtain m where m: "Registration_bind sig (p i) w = (Some (slot i), (m, (snd w)(i := Some (slot i, 32, sig))))"
    "slots_ok sig N slot c (m, (snd w)(i := Some (slot i, 32, sig)))" using bind_thread [OF P w i] by blast
  have "unat (c i) < 2 ^ 32 - 2" using P i by (simp add: process_ok_def)
  moreover have "cpu_id (read_area m (slot i)) = c i"
    using m(2) i by (auto simp: slots_ok_def slot_ok_for_def)
  ultimately show ?thesis using m r cpu_not_sentinel [of "c i"]
    by (simp add: Rseq_bind_def Rseq_area_def linux_registration_def self_thread_def)
qed

lemma start_all_ok:
  assumes P: "process_ok N slot c p" and r: "rs_mode r = SelfRegistered"
  shows "slots_ok sig N slot c w \<Longrightarrow> set js \<subseteq> {..<N} \<Longrightarrow>
    \<exists>w'. start_all (linux_registration sig) p sysfs js (Some (Some r)) w =
        (map (\<lambda>j. Some (self_thread r (slot j))) js, w') \<and> slots_ok sig N slot c w' \<and>
      (\<forall>j. snd w' j = (if j \<in> set js then Some (slot j, 32, sig) else snd w j))"
proof (induction js arbitrary: w)
  case (Cons j js)
  have j: "j < N" using Cons(3) by simp
  from self_bind [OF P Cons(2) j r] obtain m where
    b: "Rseq_bind (linux_registration sig) (p j) r w =
        (Some (self_thread r (slot j)), (m, (snd w)(j := Some (slot j, 32, sig))))"
      "slots_ok sig N slot c (m, (snd w)(j := Some (slot j, 32, sig)))" by blast
  from Cons(1) [OF b(2)] Cons(3) b(1) show ?case by (force simp: new_bind_def Rseq_new_def)
qed simp

text \<open>
  C38: the start of a process whose libc has no area, with any number of threads, against
  \<open>rseq(2)\<close>. The threads call \<open>new\<close> at once: as long as one has not returned, some thread can go
  on; all that return get one \<open>Rseq\<close>, self-registered, with the count of the CPU list and the
  node and concurrency ids that the auxiliary vector announces; and only one thread, whichever
  ran the initializer, has been registered by it. If then any of the threads, in any order and
  any number of times, call \<open>new\<close> again and bind, each gets its own slot, is registered with the
  kernel, and reads the CPU that the kernel wrote there.
\<close>

theorem process_starts:
  assumes "process_ok N slot c p" "\<forall>i<N. read_area (fst w) (slot i) = Registration_new \<and> snd w i = None"
    and "glibc_area_info (p 0) (fst w) = None" "Cpus_possible sysfs = Some n"
    and "R = linux_registration sig" "once_steps (new_init R p sysfs) (once_fresh w) s"
    and "\<forall>i\<ge>N. o_at s i = Enter" "i < N" "set js \<subseteq> {..<N}"
  shows "case o_at s i of
      Got x \<Rightarrow> x = Some (self_rseq (p 0) n) \<and>
        (\<exists>j<N. snd (o_world s) = (snd w)(j := Some (slot j, 32, sig))) \<and>
        (case start_all R p sysfs' js (Some x) (o_world s) of (ts, w') \<Rightarrow>
           ts = map (\<lambda>j. Some (self_thread (self_rseq (p 0) n) (slot j))) js \<and>
           (\<forall>j\<in>set js. snd w' j = Some (slot j, 32, sig) \<and>
              th_cpu_id (self_thread (self_rseq (p 0) n) (slot j)) (fst w') = Some (CpuId (c j))))
    | _ \<Rightarrow> \<exists>j x. once_step (new_init R p sysfs) j (o_at s j) (o_cell s) (o_world s) = Some x"
proof -
  have ok: "once_ok (new_init R p sysfs) w s" by (rule once_ok_steps [OF assms(6)])
  have w: "slots_ok sig N slot c w"
    using assms(2) by (simp add: slots_ok_def slot_ok_for_def Registration_new_def)
  show ?thesis
  proof (cases "o_at s i")
    case (Got x)
    from once_ok_got [OF ok this] obtain j where
      j: "Rseq_init R (p j) sysfs w = (x, o_world s)" "o_at s j = Got x" by (auto simp: new_init_def)
    then have jN: "j < N" using assms(7) by (metis not_le once_pc.distinct(3))
    from self_init [OF assms(1) w jN assms(3,4)] j(1) assms(5)
    have x: "x = Some (self_rseq (p 0) n)" "snd (o_world s) = (snd w)(j := Some (slot j, 32, sig))"
      and s: "slots_ok sig N slot c (o_world s)" by auto
    have m: "rs_mode (self_rseq (p 0) n) = SelfRegistered" by (simp add: self_rseq_def)
    from start_all_ok [OF assms(1) m s assms(9), of sysfs'] obtain w' where
      w': "start_all R p sysfs' js (Some x) (o_world s) =
          (map (\<lambda>j. Some (self_thread (self_rseq (p 0) n) (slot j))) js, w')" "slots_ok sig N slot c w'"
        "\<forall>j\<in>set js. snd w' j = Some (slot j, 32, sig)" using x(1) assms(5) by auto
    have "th_cpu_id (self_thread (self_rseq (p 0) n) (slot k)) (fst w') = Some (CpuId (c k))"
      if "k \<in> set js" for k
    proof -
      have k: "k < N" using that assms(9) by auto
      then have "cpu_id (read_area (fst w') (slot k)) = c k"
        using w'(2,3) that by (auto simp: slots_ok_def slot_ok_for_def)
      moreover have "unat (c k) < 2 ^ 32 - 2" using assms(1) k by (simp add: process_ok_def)
      ultimately show ?thesis using cpu_not_sentinel [of "c k"]
        by (simp add: th_cpu_id_def self_thread_def Thread_new_def nonsentinel)
    qed
    then show ?thesis using Got x w' jN by auto
  qed (use once_ok_progress [OF ok, of i] in auto)
qed

text \<open>
  Two threads: the first initializes while the second waits; then the second binds, and the first.
\<close>

definition slot2 :: "nat \<Rightarrow> u64" where "slot2 i = (if i = 0 then 0x1000 else 0x1020)"

definition platform2 :: "nat \<Rightarrow> (nat \<Rightarrow> rseq_state) platform" where
  "platform2 i = \<lparr>sys_rseq = rseq2_of (\<lambda>i. if i = 0 then 3 else 1) i, dlsym = (\<lambda>_. 0),
     getauxval = (\<lambda>_. 28), thread_pointer = 0, tls_slot = Some (slot2 i)\<rparr>"

definition world2 :: "(nat \<Rightarrow> rseq_state) world" where
  "world2 = (write_area (write_area (\<lambda>_. 0) 0x1000 Registration_new) 0x1020 Registration_new, \<lambda>_. None)"

lemma process2: "process_ok 2 slot2 (\<lambda>i. if i = 0 then 3 else 1) platform2"
proof -
  have "separate 0x1000 32 0x1020 32" by (rule separate_below) simp_all
  then show ?thesis using separate_sym
    by (auto simp: process_ok_def platform2_def slot2_def aligned_def less_2_cases_iff)
qed

lemma fresh2: "\<forall>i<2. read_area (fst world2) (slot2 i) = Registration_new \<and> snd world2 i = None"
proof -
  have "separate 0x1000 32 0x1020 32" by (rule separate_below) simp_all
  then have "read_area (write_area m 0x1020 a) 0x1000 = read_area m 0x1000" for m a
    by (intro read_area_cong allI impI write_area_other) (simp add: separate_def)
  then show ?thesis by (auto simp: world2_def slot2_def read_write_area less_2_cases_iff)
qed

theorem process_starts_witness:
  "\<exists>s. once_steps (new_init (linux_registration SIG_x86_64) platform2 sysfs0) (once_fresh world2) s \<and>
     o_at s 0 = Got (Some (self_rseq (platform2 0) 4)) \<and>
     fst (start_all (linux_registration SIG_x86_64) platform2 sysfs0 [1, 0] (Some (Some (self_rseq (platform2 0) 4)))
       (o_world s)) = [Some (self_thread (self_rseq (platform2 0) 4) 0x1020),
         Some (self_thread (self_rseq (platform2 0) 4) 0x1000)]"
proof -
  let ?R = "linux_registration SIG_x86_64"
  let ?f = "new_init ?R platform2 sysfs0"
  obtain x w1 where i: "Rseq_init ?R (platform2 0) sysfs0 world2 = (x, w1)" by (rule prod.exhaust)
  let ?s1 = "\<lparr>o_cell = Busy 0, o_world = world2, o_at = (\<lambda>_. Enter)(0 := Init)\<rparr>"
  let ?s2 = "\<lparr>o_cell = Set x, o_world = w1, o_at = (\<lambda>_. Enter)(0 := Got x)\<rparr>"
  have f: "once_fresh world2 = \<lparr>o_cell = Unset, o_world = world2, o_at = (\<lambda>_. Enter)\<rparr>"
    by (simp add: once_fresh_def)
  have s1: "once_steps ?f (once_fresh world2) ?s1"
    using o_move [OF o_none, of ?f 0 "once_fresh world2" Init "Busy 0" world2] by (simp add: f)
  have s2: "once_steps ?f (once_fresh world2) ?s2"
    using o_move [OF s1, of 0 "Got x" "Set x" w1] i by (simp add: new_init_def)
  have g: "glibc_area_info (platform2 0) (fst world2) = None"
    by (simp add: glibc_area_info_def platform2_def)
  have e: "\<forall>i\<ge>2. o_at ?s2 i = Enter" and z: "0 < (2 :: nat)" "set [1, 0] \<subseteq> {..<2 :: nat}" by auto
  from process_starts [OF process2 fresh2 g sysfs0 refl s2 e z, of sysfs0] s2 show ?thesis
    by (intro exI [of _ ?s2]) (auto simp: slot2_def split: prod.splits)
qed

section \<open>The example of the documentation\<close>

text \<open>\<open>try_it\<close>: each \<open>?\<close> returns \<open>None\<close>, here \<open>Gone\<close>; the loop is \<open>cas_loop\<close>.\<close>

definition try_it ::
  "cs_module \<Rightarrow> 'k registration \<Rightarrow> 'k platform \<Rightarrow> (nat \<Rightarrow> u8 list option) \<Rightarrow> (usize \<Rightarrow> u64) \<Rightarrow>
   (asm_env \<times> (mem \<Rightarrow> mem)) list \<Rightarrow> state_cell \<Rightarrow> 'k world \<Rightarrow> loop_end" where
  "try_it cs R p sysfs mmap as st w = (case Rseq_new R p sysfs st w of
       (None, st, w) \<Rightarrow> Gone
     | (Some r, st, w) \<Rightarrow> (case Rseq_bind R p r w of
         (None, w) \<Rightarrow> Gone
       | (Some t, w) \<Rightarrow> (case Rseq_words mmap r of
           None \<Rightarrow> Gone
         | Some ws \<Rightarrow> fst (cas_loop cs t ws 0 7 as (fst w)))))"

text \<open>
  What the kernel keeps true of the area of a thread: once it holds a CPU number, that is a
  possible one, below the count that \<open>new\<close> has read.
\<close>

definition on_possible :: "rseq \<Rightarrow> thread \<Rightarrow> mem \<Rightarrow> bool" where
  "on_possible r t m \<longleftrightarrow> (case th_cpu_id t m of None \<Rightarrow> False | Some cpu \<Rightarrow> CpuId_get cpu < rs_cpus r)"

lemma on_possible_word:
  "mmap_ok mmap \<Longrightarrow> Rseq_words mmap r = Some ws \<Longrightarrow> on_possible r t m \<Longrightarrow> has_word t ws m"
  using Words_new_ok [of mmap "rs_cpus r" ws]
  by (auto simp: on_possible_def has_word_def Rseq_words_def split: option.splits)

text \<open>
  C20: the example of the documentation on every supported target, from \<open>new\<close> to the end of the
  loop: when \<open>new\<close>, \<open>bind\<close> and \<open>words\<close> have succeeded, the thread always finds a word for its
  CPU, as long as the kernel keeps it on possible CPUs; the attempts may be interrupted and
  aborted any number of times, and the first one that is left alone breaks the loop, with the old
  value 0 or the value that was found instead.
\<close>

theorem example_returns:
  assumes "supported os arch" "mmap_ok mmap"
    and "Rseq_new (registration_of os arch) p sysfs st w = (Some r, st1, w1)"
    and "Rseq_bind (registration_of os arch) p r w1 = (Some t, w2)"
    and "Rseq_words mmap r = Some ws"
    and "\<forall>cpu. th_cpu_id t (fst w2) = Some cpu \<longrightarrow> CpuId_get cpu < rs_cpus r"
    and "\<forall>(env, f) \<in> set as. quiet BLOCK_MAX env \<and> loop_legal os arch t ws 0 7 env \<and>
      (\<forall>m. on_possible r t (f m))"
    and "loop_legal os arch t ws 0 7 env" "events env = replicate BLOCK_MAX Go"
  shows "\<exists>v. try_it (cs_of os arch) (registration_of os arch) p sysfs mmap (as @ [(env, f)]) st w = Broke v \<and>
    (v = Inr 0 \<or> (\<exists>u. u \<noteq> 0 \<and> v = Inl (Miss u)))"
proof -
  have R: "registration_of os arch = (linux_registration (sig_of arch) :: 'a registration)"
    using assms(1) by (auto simp: supported_def registration_of_def)
  have "th_cpu_id t (fst w2) \<noteq> None" using rseq_bind_sound [OF assms(4) [unfolded R]] by blast
  then have "on_possible r t (fst w2)" using assms(6) by (auto simp: on_possible_def)
  then have h: "has_word t ws (fst w2)" by (rule on_possible_word [OF assms(2,5)])
  have "\<forall>(env, f) \<in> set as. quiet BLOCK_MAX env \<and> loop_legal os arch t ws 0 7 env \<and>
      (\<forall>m. has_word t ws (f m))"
    using assms(7) on_possible_word [OF assms(2,5)] by fastforce
  from loop_returns [OF assms(1) h this assms(8,9)] obtain v m' where
    "cas_loop (cs_of os arch) t ws 0 7 (as @ [(env, f)]) (fst w2) = (Broke v, m')"
    "v = Inr 0 \<or> (\<exists>u. u \<noteq> 0 \<and> v = Inl (Miss u))" by blast
  then show ?thesis using assms(3-5) by (simp add: try_it_def)
qed

text \<open>
  A process with four CPUs; the thread is moved to CPU 2 after its first attempt.
\<close>

lemma later_bind0:
  "Rseq_bind (registration_of Linux Arch_x86_64) platform0 rseq0 world1 =
    (Some (Thread_new 0x1000 True True False), world1)"
  using world1_cpu
  by (simp add: Rseq_bind_def Rseq_area_def registration_of_def sig_of_def linux_registration_def
      rseq0_def Registration_bind_def Registration_register_def platform0_def nonnull_def Let_def
      CPU_UNINIT_def CPU_REG_FAILED_def)

theorem example_returns_witness:
  "\<exists>v. try_it (cs_of Linux Arch_x86_64) (registration_of Linux Arch_x86_64) platform0 sysfs0 mmap0
     [(env0, \<lambda>m. store32 m (0x1000 + of_nat CPU_ID_OFF) 2), (env0, \<lambda>m. m)] None world0 = Broke v \<and>
     (v = Inr 0 \<or> (\<exists>u. u \<noteq> 0 \<and> v = Inl (Miss u)))"
proof -
  let ?R = "registration_of Linux Arch_x86_64" and ?t = "Thread_new 0x1000 True True False"
  let ?f = "\<lambda>m. store32 m (0x1000 + of_nat CPU_ID_OFF) 2"
  have n: "Rseq_new ?R platform0 sysfs0 None world0 = (Some rseq0, Some (Some rseq0), world1)"
    using init0 by (simp add: Rseq_new_def registration_of_def sig_of_def)
  obtain ws where ws: "Rseq_words mmap0 rseq0 = Some ws" using words0 by blast
  then obtain len where len: "ws = \<lparr>region = Mapped (mmap0 len) len, cpus = 4\<rparr>" "mmap0 len \<noteq> MAP_FAILED"
    using Words_new_Some [of mmap0 4 ws] by (auto simp: Rseq_words_def rseq0_def)
  then have b: "Region_base (region ws) = 0x10000" by (auto simp: mmap0_def split: if_splits)
  have ok: "region_ok ws" using Words_new_ok [OF mmap0_ok] ws by (auto simp: Rseq_words_def)
  have "separate 0x1000 32 (word v) 8" if "Words_get CpuId_kind ws (key v) = Some v" for v
    using cpu_index.get_word [OF ok that] b len(1) by (intro separate_below) auto
  then have l: "loop_legal Linux Arch_x86_64 ?t ws 0 7 env0"
    by (intro loop_legal_go) (simp_all add: Thread_new_def env0_def plain_env_def)
  have h: "on_possible rseq0 ?t (?f m)" for m
    by (simp add: on_possible_def th_cpu_id_def read_area_def Thread_new_def CpuId_new_def rseq0_def
        CPU_UNINIT_def CPU_REG_FAILED_def mem_simps)
  have c: "\<forall>cpu. th_cpu_id ?t (fst world1) = Some cpu \<longrightarrow> CpuId_get cpu < rs_cpus rseq0"
    by (simp add: th_cpu_id_def world1_def world0_def registration_starts Thread_new_def CpuId_new_def
        rseq0_def CPU_UNINIT_def CPU_REG_FAILED_def)
  have e: "events env0 = replicate BLOCK_MAX Go" by (simp add: env0_def plain_env_def)
  have "\<forall>(env, f) \<in> set [(env0, ?f)]. quiet BLOCK_MAX env \<and> loop_legal Linux Arch_x86_64 ?t ws 0 7 env \<and>
      (\<forall>m. on_possible rseq0 ?t (f m))" using l h quiet_env0 by simp
  from example_returns [OF _ mmap0_ok n later_bind0 ws c this l e] show ?thesis
    by (simp add: supported_def)
qed

end
