(* ===== verification/Statics.thy ===== *)
theory Statics
  imports Membarrier Once
begin

text \<open>
  \<open>src/membarrier.rs\<close> with many threads at once: \<open>READY\<close> as a once-cell that other threads wait
  for while one initializes it, \<open>USED\<close> as an atomic flag, and \<open>run\<close> as a machine whose steps are
  its accesses to the two and its system calls. Alone, the machine is \<open>mb_run\<close>.
\<close>

section \<open>The machine\<close>

text \<open>Where a thread is in \<open>run\<close>: what it does next.\<close>

datatype mb_pc =
    Get_ready | Init_ready | First_call | Store_used | Swap_used | Register_again | Second_call
  | Done bool

record 'k mb_shared =
  cell :: "bool once"
  used :: bool
  kern :: 'k

text \<open>
  One step of thread \<open>i\<close>: \<open>None\<close> when it waits for the initializer of another thread or is
  done.
\<close>

fun mb_step ::
  "'k membarrier \<Rightarrow> mb_cmd \<Rightarrow> u32 \<Rightarrow> u32 \<Rightarrow> nat \<Rightarrow> mb_pc \<Rightarrow> 'k mb_shared \<Rightarrow> (mb_pc \<times> 'k mb_shared) option"
where
  "mb_step sys cmd fl cpu i Get_ready s = (case cell s of
     Unset \<Rightarrow> Some (Init_ready, s\<lparr>cell := Busy i\<rparr>)
   | Busy j \<Rightarrow> None
   | Set b \<Rightarrow> Some (if b then First_call else Done False, s))"
| "mb_step sys cmd fl cpu i Init_ready s = (case mb_register sys (kern s) of
     (b, k) \<Rightarrow> Some (if b then First_call else Done False, s\<lparr>cell := Set b, kern := k\<rparr>))"
| "mb_step sys cmd fl cpu i First_call s = (case sys cmd fl cpu (kern s) of
     ((rc, err), k) \<Rightarrow> Some (if rc = 0 then Store_used else if err = EPERM then Swap_used
       else Done False, s\<lparr>kern := k\<rparr>))"
| "mb_step sys cmd fl cpu i Store_used s = Some (Done True, s\<lparr>used := True\<rparr>)"
| "mb_step sys cmd fl cpu i Swap_used s =
     Some (if used s then Register_again else Done False, s\<lparr>used := False\<rparr>)"
| "mb_step sys cmd fl cpu i Register_again s = (case mb_register sys (kern s) of
     (b, k) \<Rightarrow> Some (if b then Second_call else Done False, s\<lparr>kern := k\<rparr>))"
| "mb_step sys cmd fl cpu i Second_call s = (case sys cmd fl cpu (kern s) of
     ((rc, err), k) \<Rightarrow> Some (Done (rc = 0), s\<lparr>kern := k\<rparr>))"
| "mb_step sys cmd fl cpu i (Done b) s = None"

text \<open>A thread by itself, for at most \<open>n\<close> steps.\<close>

fun mb_alone ::
  "'k membarrier \<Rightarrow> mb_cmd \<Rightarrow> u32 \<Rightarrow> u32 \<Rightarrow> nat \<Rightarrow> nat \<Rightarrow> mb_pc \<Rightarrow> 'k mb_shared \<Rightarrow> mb_pc \<times> 'k mb_shared"
where
  "mb_alone sys cmd fl cpu i 0 p s = (p, s)"
| "mb_alone sys cmd fl cpu i (Suc n) p s = (case mb_step sys cmd fl cpu i p s of
     None \<Rightarrow> (p, s) | Some (p', s') \<Rightarrow> mb_alone sys cmd fl cpu i n p' s')"

text \<open>The longest way through \<open>run\<close> has six steps.\<close>

definition MB_MAX :: nat where "MB_MAX = 6"

text \<open>Many threads: each has a request and is somewhere in \<open>run\<close>.\<close>

record 'k mb_sys =
  mb_mem :: "'k mb_shared"
  mb_at :: "nat \<Rightarrow> mb_pc"

inductive mb_steps ::
  "'k membarrier \<Rightarrow> (nat \<Rightarrow> u32 \<times> u32) \<Rightarrow> 'k mb_sys \<Rightarrow> 'k mb_sys \<Rightarrow> bool" for sys req s where
  none: "mb_steps sys req s s"
| move: "mb_steps sys req s s' \<Longrightarrow>
    mb_step sys PRIVATE_EXPEDITED_RSEQ (fst (req i)) (snd (req i)) i (mb_at s' i) (mb_mem s') = Some (p, m) \<Longrightarrow>
    mb_steps sys req s (s'\<lparr>mb_mem := m, mb_at := (mb_at s')(i := p)\<rparr>)"

definition mb_fresh :: "'k mb_shared \<Rightarrow> 'k mb_sys" where
  "mb_fresh m = \<lparr>mb_mem = m, mb_at = (\<lambda>_. Get_ready)\<rparr>"

section \<open>Alone\<close>

fun once_of :: "'a option \<Rightarrow> 'a once" where
  "once_of None = Unset"
| "once_of (Some x) = Set x"

definition shared_of :: "mb_statics \<Rightarrow> 'k \<Rightarrow> 'k mb_shared" where
  "shared_of st k = \<lparr>cell = once_of (READY st), used = USED st, kern = k\<rparr>"

lemma mb_max: "MB_MAX = Suc (Suc (Suc (Suc (Suc (Suc 0)))))"
  by (simp add: MB_MAX_def)

text \<open>
  The machine of one thread, alone, is the function \<open>run\<close>: from any statics it ends within six
  steps, with the result, the statics and the kernel state of \<open>mb_run\<close>.
\<close>

lemma mb_alone_run:
  "mb_alone sys cmd fl cpu i MB_MAX Get_ready (shared_of st k) =
    (case mb_run sys cmd fl cpu st k of (b, st', k') \<Rightarrow> (Done b, shared_of st' k'))"
  by (cases "READY st")
     (auto simp: mb_max shared_of_def mb_run_def mb_ready_def Let_def split: prod.splits)

section \<open>The once-cell under many threads\<close>

text \<open>
  The cell is busy exactly while one thread is at its initializer, only \<open>Set\<close> cells are passed,
  and a set cell never changes.
\<close>

definition cell_ok :: "'k mb_sys \<Rightarrow> bool" where
  "cell_ok s \<longleftrightarrow> (\<forall>i. mb_at s i = Init_ready \<longleftrightarrow> cell (mb_mem s) = Busy i) \<and>
     (\<forall>i. mb_at s i \<notin> {Get_ready, Init_ready} \<longrightarrow> (\<exists>b. cell (mb_mem s) = Set b)) \<and>
     (\<forall>i. mb_at s i \<notin> {Get_ready, Init_ready, Done False} \<longrightarrow> cell (mb_mem s) = Set True)"

lemmas mb_splits = once.splits prod.splits if_splits

lemma mb_step_later:
  "mb_step sys cmd fl cpu i p m = Some (p', m') \<Longrightarrow> p \<notin> {Get_ready, Init_ready} \<Longrightarrow>
    cell m' = cell m \<and> p' \<notin> {Get_ready, Init_ready} \<and> p \<noteq> Done False"
  by (cases p) (auto split: mb_splits)

lemma cell_ok_move:
  assumes ok: "cell_ok s" and st: "mb_step sys cmd fl cpu i (mb_at s i) (mb_mem s) = Some (p, m)"
  shows "cell_ok (s\<lparr>mb_mem := m, mb_at := (mb_at s)(i := p)\<rparr>)"
proof (cases "mb_at s i = Get_ready \<or> mb_at s i = Init_ready")
  case False
  then have l: "cell m = cell (mb_mem s)" "p \<notin> {Get_ready, Init_ready}" "mb_at s i \<noteq> Done False"
    using mb_step_later [OF st] by auto
  then have "cell (mb_mem s) = Set True" using ok False unfolding cell_ok_def by blast
  then show ?thesis using ok l(1,2) by (auto simp: cell_ok_def)
next
  case True
  then show ?thesis
  proof
    assume "mb_at s i = Get_ready"
    then show ?thesis using ok st by (auto simp: cell_ok_def split: mb_splits)
  next
    assume i: "mb_at s i = Init_ready"
    then have b: "cell (mb_mem s) = Busy i" using ok unfolding cell_ok_def by blast
    then have "mb_at s j = Get_ready" if "j \<noteq> i" for j
      using ok that by (simp add: cell_ok_def b) metis
    then show ?thesis using st i by (auto simp: cell_ok_def split: mb_splits)
  qed
qed

lemma cell_ok_set:
  "cell_ok s \<Longrightarrow> mb_at s i \<notin> {Get_ready, Init_ready, Done False} \<Longrightarrow> cell (mb_mem s) = Set True"
  unfolding cell_ok_def by blast

lemma cell_ok_steps: "mb_steps sys req s s' \<Longrightarrow> cell_ok s \<Longrightarrow> cell_ok s'"
  by (induction rule: mb_steps.induct) (auto intro: cell_ok_move)

lemma cell_ok_fresh: "(\<nexists>j. cell m = Busy j) \<Longrightarrow> cell_ok (mb_fresh m)"
  by (simp add: cell_ok_def mb_fresh_def)

text \<open>
  A process in which the fences are settled: the cell never holds a failure, it says registered
  only of a registered process, and no thread is on the way of the retry.
\<close>

definition settled :: "('k \<Rightarrow> bool) \<Rightarrow> 'k mb_sys \<Rightarrow> bool" where
  "settled reg s \<longleftrightarrow> cell_ok s \<and> cell (mb_mem s) \<noteq> Set False \<and>
     (cell (mb_mem s) = Set True \<longrightarrow> reg (kern (mb_mem s))) \<and>
     (\<forall>i. mb_at s i \<notin> {Swap_used, Register_again, Second_call, Done False})"

lemma settled_move:
  assumes "mb_kernel_ok sys reg" "\<forall>k. fst (mb_register sys k)"
    and "\<forall>fl cpu k. reg k \<longrightarrow> fst (fst (sys PRIVATE_EXPEDITED_RSEQ fl cpu k)) = 0"
    and I: "settled reg s"
    and st: "mb_step sys PRIVATE_EXPEDITED_RSEQ fl cpu i (mb_at s i) (mb_mem s) = Some (p, m)"
  shows "settled reg (s\<lparr>mb_mem := m, mb_at := (mb_at s)(i := p)\<rparr>)"
proof -
  note I = I [unfolded settled_def]
  have "cell_ok (s\<lparr>mb_mem := m, mb_at := (mb_at s)(i := p)\<rparr>)"
    by (rule cell_ok_move [OF _ st]) (use I in blast)
  moreover have "cell m \<noteq> Set False \<and> (cell m = Set True \<longrightarrow> reg (kern m)) \<and>
      p \<notin> {Swap_used, Register_again, Second_call, Done False}"
  proof (cases "mb_at s i")
    case Init_ready
    obtain k err where r: "sys REGISTER_PRIVATE_EXPEDITED_RSEQ 0 0 (kern (mb_mem s)) = ((0, err), k)"
      using assms(2) [rule_format, of "kern (mb_mem s)"] by (auto simp: mb_register_def split: prod.splits)
    from mb_register_reg [OF assms(1) r] show ?thesis
      using st Init_ready r by (auto simp: mb_register_def)
  next
    case First_call
    have c: "reg (kern (mb_mem s))" using I First_call cell_ok_set [of s i] by simp
    obtain rc err k where r: "sys PRIVATE_EXPEDITED_RSEQ fl cpu (kern (mb_mem s)) = ((rc, err), k)"
      by (metis prod.collapse)
    have "rc = 0" using assms(3) c r by (metis fst_conv)
    moreover have "reg k" using mb_expedited [OF assms(1) r] c by blast
    ultimately show ?thesis using st I First_call r by auto
  qed (use st I in \<open>auto split: mb_splits\<close>)
  ultimately show ?thesis using I by (auto simp: settled_def)
qed

lemma settled_progress:
  assumes I: "settled reg s" and nd: "mb_at s i \<noteq> Done True"
  shows "\<exists>j x. mb_step sys PRIVATE_EXPEDITED_RSEQ (fst (req j)) (snd (req j)) j
    (mb_at s j) (mb_mem s) = Some x"
proof (cases "mb_at s i = Get_ready \<and> (\<exists>j. cell (mb_mem s) = Busy j)")
  case True
  then obtain j where "mb_at s j = Init_ready" using I by (auto simp: settled_def cell_ok_def)
  then show ?thesis by (intro exI [of _ j]) (simp split: prod.splits)
next
  case False
  have "mb_at s i \<notin> {Swap_used, Register_again, Second_call, Done False}"
    using I unfolding settled_def by blast
  then show ?thesis using False nd
    by (intro exI [of _ i], cases "mb_at s i") (auto split: mb_splits)
qed

section \<open>Properties\<close>

text \<open>
  C28: in a process that registered by itself (the statics are fresh, or say registered and it
  is true), any number of threads may fence at once: none of them ever takes the retry for a
  fork, each that has finished reports success if the kernel serves registered processes, and
  as long as one has not finished, some thread can go on.
\<close>

theorem fences_at_once:
  assumes "mb_kernel_ok sys reg" "\<forall>k. fst (mb_register sys k)"
    and "\<forall>fl cpu k. reg k \<longrightarrow> fst (fst (sys PRIVATE_EXPEDITED_RSEQ fl cpu k)) = 0"
    and "cell m = Unset \<or> cell m = Set True \<and> reg (kern m)"
    and "mb_steps sys req (mb_fresh m) s"
  shows "mb_at s i \<notin> {Swap_used, Register_again, Second_call, Done False} \<and>
    (mb_at s i \<noteq> Done True \<longrightarrow> (\<exists>j x. mb_step sys PRIVATE_EXPEDITED_RSEQ (fst (req j)) (snd (req j)) j
      (mb_at s j) (mb_mem s) = Some x))"
proof -
  have I: "settled reg s" using assms(5)
  proof induction
    case none
    show ?case using assms(4) cell_ok_fresh [of m] by (auto simp: settled_def mb_fresh_def)
  next
    case (move s' i p m')
    then show ?case by (intro settled_move [OF assms(1-3)])
  qed
  then show ?thesis using settled_progress [OF I] by (auto simp: settled_def)
qed

text \<open>A schedule that is written out: the threads that move, in order.\<close>

fun mb_schedule :: "'k membarrier \<Rightarrow> (nat \<Rightarrow> u32 \<times> u32) \<Rightarrow> nat list \<Rightarrow> 'k mb_sys \<Rightarrow> 'k mb_sys" where
  "mb_schedule sys req [] s = s"
| "mb_schedule sys req (i # is) s =
     (case mb_step sys PRIVATE_EXPEDITED_RSEQ (fst (req i)) (snd (req i)) i (mb_at s i) (mb_mem s) of
        None \<Rightarrow> mb_schedule sys req is s
      | Some (p, m) \<Rightarrow> mb_schedule sys req is (s\<lparr>mb_mem := m, mb_at := (mb_at s)(i := p)\<rparr>))"

lemma mb_schedule_steps: "mb_steps sys req s0 s \<Longrightarrow> mb_steps sys req s0 (mb_schedule sys req is s)"
  by (induction "is" arbitrary: s) (auto intro: move split: option.splits)

text \<open>Two threads: the second waits for the first, and both succeed.\<close>

theorem fences_at_once_witness:
  "\<exists>s. mb_steps mb_kernel (\<lambda>_. (0, 0)) (mb_fresh \<lparr>cell = Unset, used = False, kern = False\<rparr>) s \<and>
     mb_at s 0 = Done True \<and> mb_at s 1 = Done True \<and> mb_at s 1 \<noteq> Done False"
proof -
  let ?m = "\<lparr>cell = Unset, used = False, kern = False\<rparr>" and ?r = "\<lambda>_. (0, 0)"
  let ?s = "mb_schedule mb_kernel ?r [0, 1, 0, 1, 0, 0, 1, 1] (mb_fresh ?m)"
  have s: "mb_steps mb_kernel ?r (mb_fresh ?m) ?s" by (intro mb_schedule_steps none)
  have p: "mb_at ?s 0 = Done True" "mb_at ?s 1 = Done True"
    by (simp_all add: mb_fresh_def mb_register_def)
  have "mb_kernel_ok mb_kernel (\<lambda>r. r)" by (rule mb_kernel_ok)
  from fences_at_once [OF this _ _ _ s, of 1] s p show ?thesis
    by (intro exI [of _ ?s]) (simp add: mb_register_def)
qed

text \<open>
  C29: after a fork the retry is taken by one thread only. In a child that registers with success,
  two threads that fence at once, both refused by the kernel, race for \<open>USED\<close>; the one that
  loses reports failure, although its process is registered by the other.
\<close>

theorem fence_race_after_fork:
  "\<exists>s. mb_steps mb_kernel (\<lambda>_. (0, 0)) (mb_fresh \<lparr>cell = Set True, used = True, kern = False\<rparr>) s \<and>
     mb_at s 0 = Done True \<and> mb_at s 1 = Done False \<and> kern (mb_mem s)"
proof -
  let ?m = "\<lparr>cell = Set True, used = True, kern = False\<rparr>" and ?r = "\<lambda>_. (0, 0)"
  let ?s = "mb_schedule mb_kernel ?r [0, 1, 0, 1, 0, 1, 0, 0] (mb_fresh ?m)"
  have "mb_steps mb_kernel ?r (mb_fresh ?m) ?s" by (intro mb_schedule_steps none)
  then show ?thesis by (intro exI [of _ ?s]) (simp add: mb_fresh_def mb_register_def)
qed

end
