(* ===== verification/Spec2Isabelle.thy ===== *)
theory Spec2Isabelle
  imports Display Drain Freelist Startup Statics
begin

text \<open>
  A verification development for \<open>rseq-rs\<close>, a Rust library of restartable-sequence primitives
  for Linux (\<open>src/*.rs\<close> of the crate).

  \<^bold>\<open>The program.\<close> A process asks \<open>Rseq::new\<close> (\<open>rseq.rs\<close>) who registered the per-thread
  \<open>struct rseq\<close> with the kernel: glibc, or the crate itself (\<open>registration.rs\<close>); the answer is
  cached. \<open>Rseq::bind\<close> gives a \<open>Thread\<close> (\<open>thread.rs\<close>), a pointer to the area the kernel keeps
  up to date. \<open>Words\<close> (\<open>words.rs\<close>, \<open>region.rs\<close>) is a mapping with one word per possible CPU
  (\<open>cpus.rs\<close>). The operations of \<open>Thread\<close> on a word run one of six critical sections in inline
  assembly (\<open>x86_64.rs\<close>, \<open>aarch64.rs\<close>, with stubs in \<open>fallback.rs\<close>): the thread installs a
  descriptor, checks that its index is the key of the word, and ends with one committing store;
  if the kernel interrupts it in between, it resumes at the abort handler, which starts again.
  \<open>membarrier.rs\<close> makes other threads restart their sections.

  \<^bold>\<open>The theories.\<close>
  \<^item> \<open>Prelude\<close>: machine integers, checked arithmetic, error numbers, the fact collections.
  \<^item> \<open>Memory\<close>: byte memory, little-endian loads and stores, separation.
  \<^item> \<open>Abi\<close> (\<open>abi.rs\<close>): constants, \<open>area\<close>, its \<open>repr(C)\<close> layout and the fields as places in memory.
  \<^item> \<open>Attempt\<close> (\<open>attempt.rs\<close>, \<open>Error\<close> of \<open>thread.rs\<close>).
  \<^item> \<open>Asm\<close>: what inline assembly is: operand lists and the register allocations they admit,
    templates and their linking (local labels, the \<open>__rseq_cs\<close> descriptor), execution under a
    schedule of own instructions, interruptions and writes of other CPUs, and the contract of
    the kernel on resuming a thread (\<open>kernel_resume\<close>).
  \<^item> \<open>Cs_Spec\<close>: the atomic operation that each section promises (\<open>cs_spec\<close>), the conditions on
    the environment, linearization, and the interfaces: \<open>cs_safe\<close> (never torn), and
    \<open>cs_atomic\<close> (never faults, linearizes, returns), which gives the first by a sublocale.
  \<^item> \<open>Outline\<close>: proof outlines of blocks, one assertion per instruction, the verification
    conditions, and their soundness for every schedule (\<open>outline_correct\<close>).
  \<^item> \<open>X86_64\<close>, \<open>Aarch64\<close>: instruction semantics, the six templates and operand lists line by
    line, their outlines, and the interpretation of \<open>cs_atomic\<close> on each module.
  \<^item> \<open>Fallback\<close> (\<open>fallback.rs\<close>): the stubs, and the interpretation of \<open>cs_safe\<close>.
  \<^item> \<open>Solo\<close>: the exact result of a call that is left alone; concrete environments.
  \<^item> \<open>Index\<close> (\<open>CpuId\<close>, \<open>Cid\<close>, \<open>NodeId\<close>, the trait \<open>Index\<close> of \<open>thread.rs\<close>; \<open>Word\<close>): the trait
    as a record of its members, with the locale \<open>index_laws\<close> interpreted on both kinds.
  \<^item> \<open>Thread\<close> (\<open>thread.rs\<close>): readers and word operations over an arbitrary module.
  \<^item> \<open>Target\<close> (\<open>lib.rs\<close>): the selection of the module, the properties of the word operations on
    every target, of the descriptors, and of uninterrupted calls.
  \<^item> \<open>Words\<close> (\<open>words.rs\<close>, \<open>region.rs\<close>), \<open>Cpus\<close> (\<open>cpus.rs\<close>), \<open>Membarrier\<close>
    (\<open>membarrier.rs\<close>), \<open>Registration\<close> (\<open>registration.rs\<close>), \<open>Rseq\<close> (\<open>rseq.rs\<close>), where every
    CPU of the list in sysfs is shown to have a word, and the readers of a thread are shown to
    rest on the live bytes of its area only.
  \<^item> \<open>Blocks\<close>: the blocks of a target as one family over calls, with the contract
    \<open>block_module\<close> that the outlines give, interpreted on both targets.
  \<^item> \<open>System\<close>: many threads over one memory: the kernel stops them, moves them between CPUs,
    updates their areas and resumes them; the running ones take instructions in turn. The log of
    stores to words and its replay as atomic operations.
  \<^item> \<open>Serial\<close>: the invariant of such systems, kept by every step; the assumptions \<open>irq_ok\<close> and
    \<open>par_ok\<close> of the single-thread theories are derived there from the layout of memory and from
    two running threads never having the same index. Serialization and no lost update.
  \<^item> \<open>Buffers\<close>: the same systems when running threads have store buffers that empty late and, but
    for overlapping stores, in any order: the promises of \<open>Serial\<close> still hold, because the index
    check keeps the words of an index with the one thread that may hold back stores to them.
  \<^item> \<open>Program\<close>: a system on the words of \<open>Words::new\<close> with the callers of \<open>tests/stress.rs\<close>.
  \<^item> \<open>Fence\<close>: no section goes on after an interruption, a call that has committed has left its
    section, and no thread is ever stuck in a block.
  \<^item> \<open>Expedited\<close>: \<open>Rseq::fence\<close> and \<open>fence_all\<close> over a running system: when they return true,
    there was a moment at which no section on the CPU, or with the concurrency id, was in progress.
  \<^item> \<open>Guard\<close>: \<open>compare_exchange_if\<close> when other CPUs may write its words: outlines with an
    assertion for a stop word that is set, interpreted on both targets (\<open>guard_module\<close>).
  \<^item> \<open>Drain\<close>: taking the words of a CPU from another one (\<open>benches/drain.rs\<close>): threads guarded by
    a stop word, a drainer that writes words at any time, and the fence between them.
  \<^item> \<open>Freelist\<close>: per-CPU stacks on \<open>load_if_ne\<close> and \<open>store_if\<close>, against lists.
  \<^item> \<open>Once\<close>: \<open>OnceLock\<close> with many threads; \<open>Startup\<close>: \<open>Rseq::new\<close> on it, the start
    of all threads of a process against \<open>rseq(2)\<close>, and the example of the documentation of
    \<open>lib.rs\<close> from \<open>new\<close> to the end of its loop (\<open>Retry\<close>).
  \<^item> \<open>Statics\<close>: \<open>membarrier.rs\<close> with many threads at once.
  \<^item> \<open>Display\<close>: the text of an error and of a region of words.

  \<^bold>\<open>Bounds.\<close> A block has at most \<open>BLOCK_MAX\<close> = 22 instructions and every instruction leads
  forward, so 22 instructions in a row end it (\<open>run_go_finishes\<close>); a schedule is any finite list
  of events, and a call that is not finished when the schedule ends is \<open>Running\<close>.

  \<^bold>\<open>What is assumed.\<close> Addresses, \<open>usize\<close> and \<open>isize\<close> have 64 bits. An instruction is one
  step. The kernel resumes as \<open>kernel_resume\<close> says; other CPUs leave alone the thread's area
  and, while its index matches, the words of the call (\<open>par_ok\<close>); during an interruption memory
  may change at will. In \<open>System\<close> the two are derived; there, instructions of different threads
  are interleaved over one memory (in \<open>Buffers\<close>, over store buffers), threads that run have different CPU numbers and
  different concurrency ids, and the calls keep to the words of their own index in every memory
  with the callers' invariant (\<open>calls_ok\<close>); in \<open>Freelist\<close> a node that is pushed is not on the stack
  of its index (\<open>list_run\<close>). System calls, \<open>dlsym\<close>, \<open>getauxval\<close>, \<open>mmap\<close> and the file of possible CPUs
  are arguments of the definitions, with what is documented of them as named conditions; for the
  life of registrations and the start of a process \<open>rseq(2)\<close> is written down (\<open>rseq2\<close>, \<open>rseq2_of\<close>).

  \<^bold>\<open>Not modelled.\<close> The derived \<open>Debug\<close> implementations, the \<open>Send\<close> and \<open>Sync\<close> markers, and the
  benchmarks and tests but for the callers named above. Stores may be late and out of order in
  \<open>Buffers\<close>, \<open>Program\<close> and \<open>Freelist\<close>, where a thread that stops has its stores in memory; loads are
  not taken early there, and the theories on fences and drains are on sequentially consistent memory.
\<close>

end
